(* ===== verification/Prelude.thy ===== *)
theory Prelude
  imports Main "HOL-Library.Word" "HOL-Library.Monad_Syntax"
begin

text \<open>
  Shared vocabulary of the development: the machine types of the C code (LP64: \<open>int\<close> and
  \<open>unsigned\<close> have 32 bits, \<open>size_t\<close> and \<open>unsigned long\<close> have 64, \<open>char\<close> is signed), the
  collections of simplification rules the component theories fill, and the generic lemmas on
  lists and words that several components use.
\<close>

unbundle bit_operations_syntax

type_synonym byte = "8 word"
type_synonym u16 = "16 word"
type_synonym u32 = "32 word"
type_synonym u64 = "64 word"

text \<open>Bytes of a literal, and the value of a C \<open>char\<close> expression promoted to \<open>unsigned int\<close>
  (sign extension, since \<open>char\<close> is signed).\<close>

abbreviation byte_of :: "char \<Rightarrow> byte" where
  "byte_of c \<equiv> of_char c"

abbreviation bytes :: "string \<Rightarrow> byte list" where
  "bytes s \<equiv> map of_char s"

definition schar :: "byte \<Rightarrow> u32" where
  "schar c = scast c"

named_theorems wf_intros \<open>preservation of well-formedness by the operations\<close>
named_theorems abs_simps \<open>effect of the operations on the abstract state\<close>

subsection \<open>Lists\<close>

lemma list4_cases:
  obtains (short) "length xs < 4"
  | (four) a b c d r where "xs = a # b # c # d # r"
proof (cases "length xs < 4")
  case False
  then have "Suc (Suc (Suc (Suc 0))) \<le> length xs" by simp
  then obtain a b c d r where "xs = a # b # c # d # r"
    unfolding Suc_le_length_iff by blast
  then show ?thesis by (rule four)
qed (rule short)

lemma filter_neq_id: "x \<notin> set xs \<Longrightarrow> filter (\<lambda>b. b \<noteq> x) xs = xs"
  by (induction xs) auto

lemma length_filter_upd:
  assumes "i < length xs"
  shows "length (filter P (xs[i := v])) + (if P (xs ! i) then 1 else 0)
    = length (filter P xs) + (if P v then 1 else 0)"
  by (subst (2) id_take_nth_drop [OF assms]) (simp add: upd_conv_take_nth_drop [OF assms])

lemma map_of_zip_unique:
  assumes "length xs = length ys" "i < length xs" "xs ! i = x"
    and "\<And>j. j < length xs \<Longrightarrow> xs ! j = x \<Longrightarrow> j = i"
  shows "map_of (zip xs ys) x = Some (ys ! i)"
  using assms
proof (induction xs ys arbitrary: i rule: list_induct2)
  case (Cons a xs b ys)
  show ?case
  proof (cases i)
    case 0
    then show ?thesis using Cons.prems by simp
  next
    case (Suc k)
    then have "a \<noteq> x" using Cons.prems(3) [of 0] by auto
    moreover have "map_of (zip xs ys) x = Some (ys ! k)"
    proof (rule Cons.IH)
      show "j = k" if "j < length xs" "xs ! j = x" for j
        using Cons.prems(3) [of "Suc j"] that Suc by simp
    qed (use Cons.prems Suc in simp_all)
    ultimately show ?thesis using Suc by simp
  qed
qed simp

subsection \<open>Characters\<close>

text \<open>\<open>tolower\<close> in the C locale, and equality up to case (\<open>strcasecmp\<close>).\<close>

definition tolower :: "char \<Rightarrow> char" where
  "tolower c = (let n = of_char c :: nat in if 65 \<le> n \<and> n \<le> 90 then char_of (n + 32) else c)"

definition same_nocase :: "string \<Rightarrow> string \<Rightarrow> bool" where
  "same_nocase s t \<longleftrightarrow> map tolower s = map tolower t"

subsection \<open>Arrays\<close>

text \<open>Checked reads and writes: outside the array is undefined behaviour, the value \<open>None\<close>.\<close>

definition rd :: "'a list \<Rightarrow> nat \<Rightarrow> 'a option" where
  "rd xs i = (if i < length xs then Some (xs ! i) else None)"

definition wr :: "'a list \<Rightarrow> nat \<Rightarrow> 'a \<Rightarrow> 'a list option" where
  "wr xs i v = (if i < length xs then Some (xs[i := v]) else None)"

lemma rd_in [simp]: "i < length xs \<Longrightarrow> rd xs i = Some (xs ! i)"
  by (simp add: rd_def)

lemma wr_in [simp]: "i < length xs \<Longrightarrow> wr xs i v = Some (xs[i := v])"
  by (simp add: wr_def)

text \<open>Copying a block of bytes to offset \<open>p\<close> of a buffer, and reading one from offset \<open>p\<close>.\<close>

definition memcpy :: "'a list \<Rightarrow> nat \<Rightarrow> 'a list \<Rightarrow> 'a list option" where
  "memcpy d p bs = (if p + length bs \<le> length d then Some (take p d @ bs @ drop (p + length bs) d) else None)"

definition rd_block :: "'a list \<Rightarrow> nat \<Rightarrow> nat \<Rightarrow> 'a list option" where
  "rd_block s p n = (if p + n \<le> length s then Some (take n (drop p s)) else None)"

lemma memcpy_append [simp]:
  "memcpy (out @ r) (length out) bs = (if length bs \<le> length r then Some (out @ bs @ drop (length bs) r) else None)"
  by (simp add: memcpy_def)

lemma memcpy_length: "memcpy d p bs = Some d' \<Longrightarrow> length d' = length d"
  by (auto simp: memcpy_def split: if_splits)

lemma rd_block_append [simp]: "rd_block (pre @ s @ post) (length pre) (length s) = Some s"
  by (simp add: rd_block_def)

lemma those_eq_Some: "(\<And>x. x \<in> set xs \<Longrightarrow> f x = Some (g x)) \<Longrightarrow> those (map f xs) = Some (map g xs)"
  by (induction xs) auto

end
