(* ===== verification/Base64.thy ===== *)
theory Base64
  imports Prelude
begin

text \<open>
  Model of \<^verbatim>\<open>c/libgs/base64/base64.c\<close>: the encoder, the alphabet table, the garbage filter, the
  four-byte decoder, the newline-skipping buffer \<open>get_4\<close>, the streaming decoder and the two
  allocating front ends. Buffers are byte lists; an output buffer is the list of bytes
  written so far together with the room left. \<open>size_t\<close> values that can wrap are 64-bit words.
\<close>

unbundle bit_operations_syntax

section \<open>Encoder\<close>

definition to_uchar :: "byte \<Rightarrow> int" where
  "to_uchar ch = uint ch"

definition b64str :: "byte list" where
  "b64str = bytes ''ABCDEFGHIJKLMNOPQRSTUVWXYZabcdefghijklmnopqrstuvwxyz0123456789+/''"

definition b64sym :: "int \<Rightarrow> byte" where
  "b64sym i = b64str ! nat (i AND 0x3f)"

text \<open>The characters \<open>=\<close> and newline.\<close>

abbreviation pad :: byte where
  "pad \<equiv> 0x3d"

abbreviation nl :: byte where
  "nl \<equiv> 0x0a"

fun base64_encode :: "byte list \<Rightarrow> nat \<Rightarrow> byte list" where
  "base64_encode [] outlen = (if outlen \<noteq> 0 then [0] else [])"
| "base64_encode (i0 # r0) outlen =
    (if outlen = 0 then []
     else b64sym (drop_bit 2 (to_uchar i0)) #
      (if outlen - 1 = 0 then []
       else b64sym (push_bit 4 (to_uchar i0) +
              (case r0 of [] \<Rightarrow> 0 | i1 # _ \<Rightarrow> drop_bit 4 (to_uchar i1))) #
        (if outlen - 2 = 0 then []
         else (case r0 of [] \<Rightarrow> pad
               | i1 # r1 \<Rightarrow> b64sym (push_bit 2 (to_uchar i1) +
                   (case r1 of [] \<Rightarrow> 0 | i2 # _ \<Rightarrow> drop_bit 6 (to_uchar i2)))) #
          (if outlen - 3 = 0 then []
           else (case r0 of i1 # i2 # _ \<Rightarrow> b64sym (to_uchar i2) | _ \<Rightarrow> pad) #
            (if outlen - 4 = 0 then []
             else base64_encode (drop 2 r0) (outlen - 4))))))"

definition BASE64_LENGTH :: "u64 \<Rightarrow> u64" where
  "BASE64_LENGTH inlen = (inlen + 2) div 3 * 4"

text \<open>The allocating encoder. \<open>malloc\<close> is the allocator's answer for the requested size; the
  result is the returned length with the buffer (\<open>None\<close> for a null \<open>*out\<close>).\<close>

definition base64_encode_alloc ::
    "(u64 \<Rightarrow> bool) \<Rightarrow> byte list \<Rightarrow> u64 \<Rightarrow> u64 \<times> byte list option" where
  "base64_encode_alloc malloc inp inlen =
    (let outlen = 1 + BASE64_LENGTH inlen in
     if inlen > outlen then (0, None)
     else if \<not> malloc outlen then (outlen, None)
     else (outlen - 1, Some (base64_encode (take (unat inlen) inp) (unat outlen))))"

section \<open>Alphabet table\<close>

definition B64_pairs :: "(byte \<times> int) list" where
  "B64_pairs = zip (bytes (''ABCDEFGHIJKLMNOPQRSTUVWXYZ'' @ ''abcdefghijklmnopqrstuvwxyz'' @
       ''0123456789'' @ ''+/''))
     [0, 1, 2, 3, 4, 5, 6, 7, 8, 9, 10, 11, 12, 13, 14, 15, 16, 17, 18, 19, 20, 21, 22, 23, 24, 25,
      26, 27, 28, 29, 30, 31, 32, 33, 34, 35, 36, 37, 38, 39, 40, 41, 42, 43, 44, 45, 46, 47, 48,
      49, 50, 51, 52, 53, 54, 55, 56, 57, 58, 59, 60, 61, 62, 63]"

definition B64 :: "byte \<Rightarrow> int" where
  "B64 c = (case map_of B64_pairs c of Some v \<Rightarrow> v | None \<Rightarrow> -1)"

definition b64 :: "int list" where
  "b64 = map (\<lambda>i. B64 (of_nat i)) [0..<256]"

definition b64_at :: "byte \<Rightarrow> int" where
  "b64_at ch = b64 ! nat (to_uchar ch)"

definition isbase64 :: "byte \<Rightarrow> bool" where
  "isbase64 ch \<longleftrightarrow> 0 \<le> b64_at ch"

text \<open>\<open>clear_garbage\<close> shifts the tail of the buffer left over each byte that is neither in the
  alphabet nor padding. The first argument is the scan position \<open>i\<close> already passed (as the kept
  prefix), the second the rest of the \<open>n\<close> bytes; the result is the buffer up to and with the
  terminator.\<close>

fun clear_garbage_loop :: "byte list \<Rightarrow> byte list \<Rightarrow> byte list" where
  "clear_garbage_loop kept [] = kept"
| "clear_garbage_loop kept (c # rest) =
    (if isbase64 c \<or> c = pad then clear_garbage_loop (kept @ [c]) rest
     else clear_garbage_loop kept rest)"

definition clear_garbage :: "byte list \<Rightarrow> byte list" where
  "clear_garbage inbuf = clear_garbage_loop [] inbuf @ [0]"

section \<open>Decoder\<close>

record base64_decode_context =
  ctx_i :: nat
  ctx_buf :: "byte list"

definition base64_decode_ctx_init :: "base64_decode_context \<Rightarrow> base64_decode_context" where
  "base64_decode_ctx_init ctx = ctx\<lparr>ctx_i := 0\<rparr>"

text \<open>\<open>*out++ = v\<close> guarded by \<open>*outleft\<close>: the byte list written and the room left.\<close>

definition emit :: "int \<Rightarrow> byte list \<times> nat \<Rightarrow> byte list \<times> nat" where
  "emit v st = (case st of (out, outleft) \<Rightarrow>
     if outleft \<noteq> 0 then (out @ [word_of_int v], outleft - 1) else (out, outleft))"

definition decode_4 :: "byte list \<Rightarrow> nat \<Rightarrow> byte list \<times> nat \<Rightarrow> bool \<times> byte list \<times> nat" where
  "decode_4 inp inlen st =
    (if inlen < 2 then (False, st)
     else if \<not> isbase64 (inp ! 0) \<or> \<not> isbase64 (inp ! 1) then (False, st)
     else
       let st1 = emit (push_bit 2 (b64_at (inp ! 0)) OR drop_bit 4 (b64_at (inp ! 1))) st in
       if inlen = 2 then (False, st1)
       else if inp ! 2 = pad then
         (if inlen \<noteq> 4 then (False, st1)
          else if inp ! 3 \<noteq> pad then (False, st1)
          else (True, st1))
       else if \<not> isbase64 (inp ! 2) then (False, st1)
       else
         let st2 = emit ((push_bit 4 (b64_at (inp ! 1)) AND 0xf0) OR
                         drop_bit 2 (b64_at (inp ! 2))) st1 in
         if inlen = 3 then (False, st2)
         else if inp ! 3 = pad then
           (if inlen \<noteq> 4 then (False, st2) else (True, st2))
         else if \<not> isbase64 (inp ! 3) then (False, st2)
         else (True, emit ((push_bit 6 (b64_at (inp ! 2)) AND 0xc0) OR b64_at (inp ! 3)) st2))"

text \<open>The copying loop of \<open>get_4\<close>: bytes other than newline go into \<open>buf\<close> until four are held.\<close>

fun get_4_copy :: "base64_decode_context \<Rightarrow> byte list \<Rightarrow> base64_decode_context \<times> byte list" where
  "get_4_copy ctx [] = (ctx, [])"
| "get_4_copy ctx (c # p) =
    (if c \<noteq> nl then
       let ctx' = ctx\<lparr>ctx_buf := (ctx_buf ctx)[ctx_i ctx := c], ctx_i := ctx_i ctx + 1\<rparr> in
       if ctx_i ctx' = 4 then (ctx', p) else get_4_copy ctx' p
     else get_4_copy ctx p)"

text \<open>The results: the context, the unread input, and the bytes behind the returned pointer of
  which \<open>n_non_newline\<close> are valid.\<close>

definition get_4 :: "base64_decode_context \<Rightarrow> byte list \<Rightarrow>
    base64_decode_context \<times> byte list \<times> byte list \<times> nat" where
  "get_4 ctx0 inp =
    (let ctx = (if ctx_i ctx0 = 4 then ctx0\<lparr>ctx_i := 0\<rparr> else ctx0) in
     if ctx_i ctx = 0 \<and> 4 \<le> length inp \<and> nl \<notin> set (take 4 inp)
     then (ctx, drop 4 inp, inp, 4)
     else let (ctx', p) = get_4_copy ctx inp in (ctx', p, ctx_buf ctx', ctx_i ctx'))"

text \<open>The inner loop of \<open>base64_decode_ctx\<close>: whole quadruples straight from the input. It
  stops at the first failing \<open>decode_4\<close>, with \<open>outleft_save\<close> the state before that call.\<close>

function decode_run :: "byte list \<Rightarrow> byte list \<times> nat \<Rightarrow>
    byte list \<times> (byte list \<times> nat) \<times> (byte list \<times> nat)" where
  "decode_run inp st =
    (case decode_4 inp (length inp) st of
       (True, st') \<Rightarrow> decode_run (drop 4 inp) st'
     | (False, st') \<Rightarrow> (inp, st, st'))"
  by pat_completeness auto
termination
  by (relation "measure (\<lambda>(inp, st). length inp)")
    (auto simp: decode_4_def Let_def split: if_splits)

text \<open>The outer loop. \<open>ci\<close> and \<open>flush\<close> are the locals \<open>ctx_i\<close> and \<open>flush_ctx\<close>, which the loop never
  writes; the result is the value of \<open>inlen == 0\<close> at the end, the context and the output. The C
  loop need not stop on a corrupt context (\<open>ctx->i\<close> above 4), so the result is optional.\<close>

partial_function (option) decode_loop ::
    "nat \<Rightarrow> bool \<Rightarrow> base64_decode_context option \<Rightarrow> byte list \<Rightarrow> byte list \<times> nat \<Rightarrow>
     (bool \<times> base64_decode_context option \<times> byte list \<times> nat) option" where
  "decode_loop ci flush ctx inp st =
    (let (inp1, save, st1) = (if ci = 0 \<and> \<not> flush then decode_run inp st else (inp, st, st)) in
     if inp1 = [] \<and> \<not> flush then Some (True, ctx, st1)
     else if inp1 \<noteq> [] \<and> hd inp1 = nl \<and> ctx \<noteq> None then decode_loop ci flush ctx (tl inp1) st1
     else
       let (ctx', rest, non_nl, n) =
         (case ctx of
            Some c \<Rightarrow> (let (c', rest, non_nl, n) = get_4 c inp1 in (Some c', rest, non_nl, n))
          | None \<Rightarrow> (None, inp1, inp1, length inp1)) in
       if n = 0 \<or> (n < 4 \<and> \<not> flush \<and> ctx \<noteq> None) then Some (True, ctx', save)
       else let (ok, st2) = decode_4 non_nl n save in
         if ok then decode_loop ci flush ctx' rest st2 else Some (False, ctx', st2))"

declare decode_loop.simps [code]

definition base64_decode_ctx ::
    "base64_decode_context option \<Rightarrow> byte list \<Rightarrow> nat \<Rightarrow>
     (bool \<times> base64_decode_context option \<times> byte list) option" where
  "base64_decode_ctx ctx inp outlen =
    (case ctx of
       Some c \<Rightarrow> map_option (\<lambda>(ok, ctx', out, outleft). (ok, ctx', out))
                  (decode_loop (ctx_i c) (inp = []) ctx inp ([], outlen))
     | None \<Rightarrow> map_option (\<lambda>(ok, ctx', out, outleft). (ok, ctx', out))
                  (decode_loop 0 False None inp ([], outlen)))"

text \<open>The allocating decoder: \<open>malloc\<close> answers whether the block could be allocated; the result
  is the returned flag, the context and \<open>*out\<close> (\<open>None\<close> when null) with its \<open>*outlen\<close> bytes.\<close>

definition decode_needlen :: "nat \<Rightarrow> nat" where
  "decode_needlen inlen = 3 * (inlen div 4) + 2"

definition base64_decode_alloc_ctx ::
    "(nat \<Rightarrow> bool) \<Rightarrow> base64_decode_context option \<Rightarrow> byte list \<Rightarrow>
     (bool \<times> base64_decode_context option \<times> byte list option) option" where
  "base64_decode_alloc_ctx malloc ctx inp =
    (let needlen = decode_needlen (length inp) in
     if \<not> malloc needlen then Some (True, ctx, None)
     else map_option (\<lambda>(ok, ctx', out). if \<not> ok then (False, ctx', None) else (True, ctx', Some out))
            (base64_decode_ctx ctx inp needlen))"

section \<open>Reference: RFC 4648 groups\<close>

text \<open>Three bytes are one 24-bit number, four digits in base 64; a final group of one or two bytes
  keeps two or three digits and is padded. Decoding a group of four symbols is the inverse, and
  decoding a stream splits it into groups and keeps the incomplete last one.\<close>

definition digit64 :: "int \<Rightarrow> byte" where
  "digit64 i = b64str ! nat (i mod 64)"

definition group24 :: "byte \<Rightarrow> byte \<Rightarrow> byte \<Rightarrow> int" where
  "group24 a b c = uint a * 65536 + uint b * 256 + uint c"

fun b64_spec :: "byte list \<Rightarrow> byte list" where
  "b64_spec [] = []"
| "b64_spec [a] = [digit64 (group24 a 0 0 div 262144), digit64 (group24 a 0 0 div 4096), pad, pad]"
| "b64_spec [a, b] =
     [digit64 (group24 a b 0 div 262144), digit64 (group24 a b 0 div 4096),
      digit64 (group24 a b 0 div 64), pad]"
| "b64_spec (a # b # c # r) =
     digit64 (group24 a b c div 262144) # digit64 (group24 a b c div 4096) #
     digit64 (group24 a b c div 64) # digit64 (group24 a b c) # b64_spec r"

definition value64 :: "byte \<Rightarrow> byte \<Rightarrow> byte \<Rightarrow> byte \<Rightarrow> int" where
  "value64 w x y z = B64 w * 262144 + B64 x * 4096 + B64 y * 64 + B64 z"

definition quad_spec :: "byte \<Rightarrow> byte \<Rightarrow> byte \<Rightarrow> byte \<Rightarrow> byte list option" where
  "quad_spec w x y z =
    (let valid = (\<lambda>c. c \<in> set b64str); A = b64str ! 0; byt = (\<lambda>n. word_of_int n :: byte) in
     if valid w \<and> valid x \<and> y = pad \<and> z = pad then Some [byt (value64 w x A A div 65536)]
     else if valid w \<and> valid x \<and> valid y \<and> z = pad then
       Some [byt (value64 w x y A div 65536), byt (value64 w x y A div 256 mod 256)]
     else if valid w \<and> valid x \<and> valid y \<and> valid z then
       Some [byt (value64 w x y z div 65536), byt (value64 w x y z div 256 mod 256),
             byt (value64 w x y z mod 256)]
     else None)"

fun stream_spec :: "byte list \<Rightarrow> (byte list \<times> byte list) option" where
  "stream_spec (w # x # y # z # r) =
    (case quad_spec w x y z of
       None \<Rightarrow> None
     | Some bs \<Rightarrow> map_option (\<lambda>(out, p). (bs @ out, p)) (stream_spec r))"
| "stream_spec s = Some ([], s)"

text \<open>A context is well formed when its buffer has four slots of which at most four are used;
  its pending bytes are the ones buffered for the next group (four used slots have been decoded).\<close>

definition ctx_wf :: "base64_decode_context \<Rightarrow> bool" where
  "ctx_wf c \<longleftrightarrow> length (ctx_buf c) = 4 \<and> ctx_i c \<le> 4"

definition pending :: "base64_decode_context \<Rightarrow> byte list" where
  "pending c = (if ctx_i c = 4 then [] else take (ctx_i c) (ctx_buf c))"

section \<open>The alphabet\<close>

lemma b64str_eval: "b64str = [65, 66, 67, 68, 69, 70, 71, 72, 73, 74, 75, 76, 77, 78, 79, 80, 81, 82, 83, 84, 85, 86, 87, 88,
    89, 90, 97, 98, 99, 100, 101, 102, 103, 104, 105, 106, 107, 108, 109, 110, 111, 112, 113,
    114, 115, 116, 117, 118, 119, 120, 121, 122, 48, 49, 50, 51, 52, 53, 54, 55, 56, 57, 43, 47]"
  by (simp add: b64str_def)

lemma distinct_b64str: "distinct b64str"
  by (simp add: b64str_eval)

lemma length_b64str [simp]: "length b64str = 64"
  by (simp add: b64str_eval)

lemma B64_pairs_zip: "B64_pairs = zip b64str (map int [0..<64])"
  unfolding B64_pairs_def b64str_def by (simp add: upt_rec)

lemma b64_at_eq: "b64_at c = B64 c"
proof -
  have "unat c < 256" using unsigned_less [of c, where ?'a = nat] by simp
  then show ?thesis
    by (simp add: b64_at_def b64_def to_uchar_def nat_uint_eq)
qed

lemma B64_b64str: 
  assumes "i < 64" shows "B64 (b64str ! i) = int i"
proof -
  have "map_of B64_pairs (b64str ! i) = Some (map int [0..<64] ! i)"
    unfolding B64_pairs_zip
    by (rule map_of_zip_nth) (use assms distinct_b64str in auto)
  then show ?thesis using assms by (simp add: B64_def)
qed

lemma isbase64_iff: "isbase64 c \<longleftrightarrow> c \<in> set b64str"
proof -
  have "map_of B64_pairs c = None \<longleftrightarrow> c \<notin> set b64str"
    unfolding B64_pairs_zip by (simp add: map_of_zip_is_None)
  moreover have "\<And>v. map_of B64_pairs c = Some v \<Longrightarrow> 0 \<le> v"
    unfolding B64_pairs_zip by (auto dest!: map_of_SomeD set_zip_rightD)
  ultimately show ?thesis
    by (auto simp: isbase64_def b64_at_eq B64_def split: option.splits)
qed

lemma isbase64E:
  assumes "isbase64 c" obtains i where "i < 64" "c = b64str ! i" "B64 c = int i"
  using assms B64_b64str by (auto simp: isbase64_iff in_set_conv_nth)

lemma b64sym_mod: "b64sym i = b64str ! nat (i mod 64)"
proof -
  have "i AND 63 = take_bit 6 i"
    using take_bit_eq_mask[of 6 i] by (simp add: mask_eq_exp_minus_1)
  then show ?thesis by (simp add: b64sym_def take_bit_eq_mod)
qed
lemma isbase64_b64sym [simp]: "isbase64 (b64sym i)"
  by (simp add: b64sym_mod isbase64_iff nat_less_iff)
lemma b64_at_b64sym [simp]: "b64_at (b64sym i) = i mod 64"
  by (simp add: b64sym_mod b64_at_eq B64_b64str nat_less_iff)

lemma not_isbase64 [simp]: "\<not> isbase64 pad" "\<not> isbase64 nl" "\<not> isbase64 0"
  by (simp_all add: isbase64_iff b64str_eval)

section \<open>Encoder correctness\<close>

lemma byte_bounds: "0 \<le> uint (x :: byte)" "uint x < 256"
  using uint_bounded [of x] by simp_all

lemma or_low_add:
  assumes "0 \<le> y" "y < 2 ^ k" shows "push_bit k x OR y = x * 2 ^ k + (y::int)"
proof -
  from assms have "take_bit k y = y" by (simp add: take_bit_int_eq_self)
  then have "\<not> bit y n" if "k \<le> n" for n
    using that by (metis bit_take_bit_iff linorder_not_less)
  then have "push_bit k x AND y = 0"
    by (intro bit_eqI) (auto simp: bit_simps)
  then show ?thesis by (simp add: disjunctive_add_eq_or push_bit_eq_mult)
qed
lemma group24_div:
  assumes "0 \<le> a" "0 \<le> b" "b < 256" "0 \<le> c" "c < 256"
  shows "(a * 65536 + b * 256 + c) div 262144 = (a div 4 :: int)"
    and "(a * 65536 + b * 256 + c) div 4096 = a * 16 + b div 16"
    and "(a * 65536 + b * 256 + c) div 64 = a * 1024 + b * 4 + c div 64"
  using assms by arith+
lemma mask_hi: "push_bit 4 x AND 0xf0 = 16 * (x mod 16::int)" "push_bit 6 x AND 0xc0 = 64 * (x mod 4::int)"
proof -
 have "push_bit 4 x AND 0xf0 = push_bit 4 (take_bit 4 x)"
    by (simp add: take_bit_eq_mask push_bit_and mask_eq_exp_minus_1)
 then show "push_bit 4 x AND 0xf0 = 16 * (x mod 16::int)" by (simp add: push_bit_eq_mult take_bit_eq_mod)
 have "push_bit 6 x AND 0xc0 = push_bit 6 (take_bit 2 x)"
    by (simp add: take_bit_eq_mask push_bit_and mask_eq_exp_minus_1)
 then show "push_bit 6 x AND 0xc0 = 64 * (x mod 4::int)" by (simp add: push_bit_eq_mult take_bit_eq_mod)
qed

lemma group24_symbols:
  "digit64 (group24 a b c div 262144) = b64sym (drop_bit 2 (to_uchar a))"
  "digit64 (group24 a b c div 4096) = b64sym (push_bit 4 (to_uchar a) + drop_bit 4 (to_uchar b))"
  "digit64 (group24 a b c div 64) = b64sym (push_bit 2 (to_uchar b) + drop_bit 6 (to_uchar c))"
  "digit64 (group24 a b c) = b64sym (to_uchar c)"
proof -
  note d = group24_div [OF byte_bounds(1) byte_bounds byte_bounds, of a b c]
  have "(x * 1024 + y) mod 64 = y mod 64" for x y :: int
    using mod_mult_self2 [of y 64 "x * 16"] by (simp add: algebra_simps)
  moreover have "(x * 65536 + (y * 256 + z)) mod 64 = z mod 64" for x y z :: int
    using mod_mult_self2 [of z 64 "x * 1024 + y * 4"] by (simp add: algebra_simps)
  ultimately show
    "digit64 (group24 a b c div 262144) = b64sym (drop_bit 2 (to_uchar a))"
    "digit64 (group24 a b c div 4096) = b64sym (push_bit 4 (to_uchar a) + drop_bit 4 (to_uchar b))"
    "digit64 (group24 a b c div 64) = b64sym (push_bit 2 (to_uchar b) + drop_bit 6 (to_uchar c))"
    "digit64 (group24 a b c) = b64sym (to_uchar c)"
    unfolding digit64_def b64sym_mod to_uchar_def drop_bit_eq_div push_bit_eq_mult group24_def d
    by (simp_all add: add.assoc)
qed

lemma to_uchar_0 [simp]: "to_uchar 0 = 0"
  by (simp add: to_uchar_def)

lemma base64_encode_take: "base64_encode inp outlen = take outlen (b64_spec inp @ [0])"
proof (induction inp arbitrary: outlen rule: b64_spec.induct)
  case 1
  then show ?case by (cases outlen) simp_all
next
  case (2 a)
  show ?case by (auto simp: group24_symbols take_Cons')
next
  case (3 a b)
  show ?case by (auto simp: group24_symbols take_Cons')
next
  case (4 a b c r)
  show ?case by (auto simp: group24_symbols take_Cons' 4 numeral_eq_Suc)
qed

lemma length_b64_spec: "length (b64_spec xs) = (length xs + 2) div 3 * 4"
proof (induction xs rule: b64_spec.induct)
  case (4 a b c r)
  have "(n + 3 + 2) div 3 = (n + 2) div 3 + 1" for n :: nat by presburger
  from this [of "length r"] 4 show ?case by simp
qed simp_all


section \<open>Decoder correctness\<close>

lemma B64_bounds: "c \<in> set b64str \<Longrightarrow> 0 \<le> B64 c \<and> B64 c < 64"
  by (metis isbase64E isbase64_iff of_nat_0_le_iff of_nat_less_numeral_iff)

lemma pad_notin [simp]: "61 \<notin> set b64str" "10 \<notin> set b64str" "0 \<notin> set b64str"
  using not_isbase64 unfolding isbase64_iff by simp_all

lemma group64_div:
  assumes "0 \<le> x" "x < 64" "0 \<le> y" "y < 64" "0 \<le> z" "(z::int) < 64"
  shows "(w * 262144 + x * 4096 + y * 64 + z) div 65536 = w * 4 + x div 16"
    and "(w * 262144 + x * 4096 + y * 64 + z) div 256 mod 256 = x mod 16 * 16 + y div 4"
    and "(w * 262144 + x * 4096 + y * 64 + z) mod 256 = y mod 4 * 64 + z"
proof -
  show "(w * 262144 + x * 4096 + y * 64 + z) div 65536 = w * 4 + x div 16"
    using assms by arith
  have "(w * 262144 + x * 4096 + y * 64 + z) div 256 = w * 1024 + x * 16 + y div 4"
    using assms by arith
  also have "\<dots> = (x mod 16 * 16 + y div 4) + 256 * (w * 4 + x div 16)"
    by (simp add: algebra_simps) arith
  finally have "(w * 262144 + x * 4096 + y * 64 + z) div 256 mod 256 =
      (x mod 16 * 16 + y div 4) mod 256"
    by (simp only: mod_mult_self2)
  also have "\<dots> = x mod 16 * 16 + y div 4"
  proof (rule mod_pos_pos_trivial)
    show "0 \<le> x mod 16 * 16 + y div 4" using assms by simp
    have "x mod 16 < 16" "y div 4 < 16" using assms by simp_all
    then show "x mod 16 * 16 + y div 4 < 256" by simp
  qed
  finally show "(w * 262144 + x * 4096 + y * 64 + z) div 256 mod 256 = x mod 16 * 16 + y div 4" .
  have "w * 262144 + x * 4096 + y * 64 + z = (y mod 4 * 64 + z) + 256 * (w * 1024 + x * 16 + y div 4)"
    by (simp add: algebra_simps) arith
  then have "(w * 262144 + x * 4096 + y * 64 + z) mod 256 = (y mod 4 * 64 + z) mod 256"
    by (simp only: mod_mult_self2)
  also have "\<dots> = y mod 4 * 64 + z"
  proof (rule mod_pos_pos_trivial)
    show "0 \<le> y mod 4 * 64 + z" using assms by simp
    have "y mod 4 < 4" by simp
    then show "y mod 4 * 64 + z < 256" using assms by simp
  qed
  finally show "(w * 262144 + x * 4096 + y * 64 + z) mod 256 = y mod 4 * 64 + z" .
qed

lemma symbol_bits:
  assumes "0 \<le> x" "x < 64" "0 \<le> y" "y < 64" "0 \<le> z" "(z::int) < 64"
  shows "push_bit 2 w OR drop_bit 4 x = w * 4 + x div 16"
    and "(push_bit 4 x AND 0xf0) OR drop_bit 2 y = x mod 16 * 16 + y div 4"
    and "(push_bit 6 y AND 0xc0) OR z = y mod 4 * 64 + z"
proof -
  show "push_bit 2 w OR drop_bit 4 x = w * 4 + x div 16"
    using or_low_add [of "x div 16" 2 w] assms by (simp add: drop_bit_eq_div)
  show "(push_bit 4 x AND 0xf0) OR drop_bit 2 y = x mod 16 * 16 + y div 4"
    unfolding mask_hi using or_low_add [of "y div 4" 4 "x mod 16"] assms
    by (simp add: drop_bit_eq_div push_bit_eq_mult mult.commute)
  show "(push_bit 6 y AND 0xc0) OR z = y mod 4 * 64 + z"
    unfolding mask_hi using or_low_add [of z 6 "y mod 4"] assms
    by (simp add: push_bit_eq_mult mult.commute)
qed

lemma B64_A: "B64 (b64str ! 0) = 0"
  by (simp add: B64_b64str)

lemma emit_eq: "emit v (out, left) = (out @ take left [word_of_int v], left - 1)"
  by (cases left) (simp_all add: emit_def)


lemma value64_bits:
  assumes "w \<in> set b64str" "x \<in> set b64str" "y \<in> set b64str" "z \<in> set b64str"
  shows "push_bit 2 (B64 w) OR drop_bit 4 (B64 x) = value64 w x y z div 65536"
    and "(push_bit 4 (B64 x) AND 0xf0) OR drop_bit 2 (B64 y) = value64 w x y z div 256 mod 256"
    and "(push_bit 6 (B64 y) AND 0xc0) OR B64 z = value64 w x y z mod 256"
proof -
  note b = assms(2-4) [THEN B64_bounds, THEN conjunct1] assms(2-4) [THEN B64_bounds, THEN conjunct2]
  note sb = symbol_bits [OF b(1) b(4) b(2) b(5) b(3) b(6)]
    and gd = group64_div [OF b(1) b(4) b(2) b(5) b(3) b(6)]
  show "push_bit 2 (B64 w) OR drop_bit 4 (B64 x) = value64 w x y z div 65536"
    and "(push_bit 4 (B64 x) AND 0xf0) OR drop_bit 2 (B64 y) = value64 w x y z div 256 mod 256"
    and "(push_bit 6 (B64 y) AND 0xc0) OR B64 z = value64 w x y z mod 256"
    unfolding value64_def sb gd by (rule refl)+
qed

lemma A_in [simp]: "b64str ! 0 \<in> set b64str"
  by (rule nth_mem) simp

lemma decode_4_quad:
  "decode_4 [w, x, y, z] 4 (out, left) =
    (case quad_spec w x y z of
       Some bs \<Rightarrow> (True, out @ take left bs, left - length bs)
     | None \<Rightarrow> (False, snd (decode_4 [w, x, y, z] 4 (out, left))))"
proof -
  let ?v = "\<lambda>c. c \<in> set b64str" and ?A = "b64str ! 0"
  note defs = decode_4_def quad_spec_def Let_def isbase64_iff b64_at_eq
  consider (bad) "\<not> ?v w \<or> \<not> ?v x" | (pp) "?v w" "?v x" "y = pad" "z = pad"
    | (pz) "?v w" "?v x" "y = pad" "z \<noteq> pad" | (yb) "?v w" "?v x" "y \<noteq> pad" "\<not> ?v y"
    | (zp) "?v w" "?v x" "?v y" "z = pad" | (bz) "?v w" "?v x" "?v y" "z \<noteq> pad" "\<not> ?v z"
    | (ok) "?v w" "?v x" "?v y" "?v z"
    by blast
  then show ?thesis
  proof cases
    case pp
    with value64_bits(1) [of w x ?A ?A] show ?thesis
      by (simp add: defs emit_eq)
  next
    case zp
    then have "y \<noteq> pad" by auto
    with zp value64_bits(1,2) [of w x y ?A] show ?thesis
      by (cases left) (simp_all add: defs emit_eq)
  next
    case ok
    then have "y \<noteq> pad" "z \<noteq> pad" by auto
    with ok value64_bits [of w x y z] show ?thesis
      by (simp add: defs emit_eq take_Cons' numeral_eq_Suc)
  qed (auto simp: defs)
qed

lemma decode_4_take:
  assumes "4 \<le> length inp"
  shows "decode_4 inp 4 st = decode_4 (take 4 inp) 4 st"
  using assms by (simp add: decode_4_def Let_def)

lemma decode_4_ok:
  assumes "decode_4 inp (length inp) (out, left) = (True, st')"
  obtains w x y z r bs where "inp = w # x # y # z # r" "quad_spec w x y z = Some bs"
    "st' = (out @ take left bs, left - length bs)" "nl \<notin> {w, x, y, z}"
proof -
  have len: "4 \<le> length inp"
    using assms by (auto simp: decode_4_def Let_def split: if_splits)
  then obtain w x y z r where inp: "inp = w # x # y # z # r"
    by (cases inp rule: list4_cases) auto
  have 4: "decode_4 [w, x, y, z] 4 (out, left) = (True, st')"
    using assms unfolding inp by (auto simp: decode_4_def Let_def split: if_splits)
  then obtain bs where bs: "quad_spec w x y z = Some bs"
    using decode_4_quad [of w x y z out left] by (cases "quad_spec w x y z") auto
  moreover have "nl \<notin> {w, x, y, z}"
    using bs by (auto simp: quad_spec_def Let_def split: if_splits)
  ultimately show ?thesis
    using 4 inp decode_4_quad [of w x y z out left] that by auto
qed

lemma decode_4_stop [simp]: "decode_4 [] n st = (b, st')  \<Longrightarrow> n = 0 \<Longrightarrow> st' = st \<and> \<not> b"
  by (simp add: decode_4_def)

lemma stream_spec_append:
  "stream_spec (s @ t) =
    (case stream_spec s of
       None \<Rightarrow> None
     | Some (bs, p) \<Rightarrow> map_option (\<lambda>(out, q). (bs @ out, q)) (stream_spec (p @ t)))"
  by (induction s rule: stream_spec.induct)
    (auto split: option.splits simp: option.map_comp o_def case_prod_beta option.map_id)

lemma stream_pending_short: "stream_spec s = Some (bs, p) \<Longrightarrow> length p < 4"
  by (induction s arbitrary: bs rule: stream_spec.induct) (auto split: option.splits)

declare decode_run.simps [simp del]

lemma decode_run_spec:
  assumes "decode_run inp (out, left) = (inp1, save, st1)"
  shows "\<exists>pre bs. inp = pre @ inp1 \<and> nl \<notin> set pre \<and> stream_spec pre = Some (bs, []) \<and>
     save = (out @ take left bs, left - length bs) \<and>
     decode_4 inp1 (length inp1) save = (False, st1)"
  using assms
proof (induction inp "(out, left)" arbitrary: out left rule: decode_run.induct)
  case (1 inp out left)
  obtain ok st' where Pair: "decode_4 inp (length inp) (out, left) = (ok, st')" by (rule prod.exhaust)
  show ?case
    proof (cases ok)
      case False
      with 1(2) Pair show ?thesis
        by (intro exI [of _ "[]"] exI [of _ "[]"]) (simp add: decode_run.simps [of inp])
    next
      case True
      from Pair True have ok4: "decode_4 inp (length inp) (out, left) = (True, st')" by simp
      obtain w x y z r bs where inp: "inp = w # x # y # z # r"
        and q: "quad_spec w x y z = Some bs" and st': "st' = (out @ take left bs, left - length bs)"
        and nl: "nl \<notin> {w, x, y, z}" by (rule decode_4_ok [OF ok4])
      have "decode_run r (out @ take left bs, left - length bs) = (inp1, save, st1)"
        using 1(2) ok4 decode_run.simps [of inp "(out, left)"] by (simp add: inp st')
      with 1(1) [of True "out @ take left bs" "left - length bs"] True Pair st' inp obtain pre bs' where
        "r = pre @ inp1" "nl \<notin> set pre" "stream_spec pre = Some (bs', [])"
        "save = ((out @ take left bs) @ take (left - length bs) bs', left - length bs - length bs')"
        "decode_4 inp1 (length inp1) save = (False, st1)"
        by auto
      with inp q nl show ?thesis
        by (intro exI [of _ "w # x # y # z # pre"] exI [of _ "bs @ bs'"]) (auto)
    qed
qed

lemma get_4_copy_spec:
  assumes "ctx_i c < 4" "length (ctx_buf c) = 4" "get_4_copy c inp = (c', p)"
  defines "s \<equiv> take (ctx_i c) (ctx_buf c) @ filter (\<lambda>b. b \<noteq> nl) inp"
  shows "length (ctx_buf c') = 4 \<and> ctx_i c' = min 4 (length s) \<and> take (ctx_i c') (ctx_buf c') = take 4 s \<and>
    filter (\<lambda>b. b \<noteq> nl) p = drop 4 s \<and> (inp \<noteq> [] \<longrightarrow> length p < length inp) \<and>
    (length s < 4 \<longrightarrow> p = [])"
  using assms(1-3) unfolding s_def
proof (induction c inp arbitrary: c' p rule: get_4_copy.induct)
  case (1 c)
  then show ?case by (auto simp: min_def)
next
  case (2 c b inp)
  define c1 where "c1 = c\<lparr>ctx_buf := (ctx_buf c)[ctx_i c := b], ctx_i := ctx_i c + 1\<rparr>"
  have tk: "take (Suc (ctx_i c)) ((ctx_buf c)[ctx_i c := b]) = take (ctx_i c) (ctx_buf c) @ [b]"
    using 2(3,4) by (simp add: take_Suc_conv_app_nth)
  show ?case
  proof (cases "b = nl")
    case True
    with 2(2) [of c' p] 2(3-5) show ?thesis by (cases "inp = []") auto
  next
    case nb: False
    show ?thesis
    proof (cases "ctx_i c1 = 4")
      case True
      then have "ctx_i c = 3" by (simp add: c1_def)
      then show ?thesis using 2(3-5) nb tk True by (auto simp: c1_def Let_def)
    next
      case False
      with 2(3-5) nb have "get_4_copy c1 inp = (c', p)" "ctx_i c1 < 4" "length (ctx_buf c1) = 4"
        by (auto simp: c1_def Let_def)
      with 2(1) [OF _ c1_def, of c' p] nb False tk 2(3,4) show ?thesis
        by (cases "inp = []") (auto simp: c1_def)
    qed
  qed
qed
lemma decode_4_idle:
  "decode_4 [] 0 st = (False, st)" "decode_4 (nl # t) n st = (False, st)"
  unfolding decode_4_def using not_isbase64(2) by simp_all

lemma decode_4_quad_None:
  "quad_spec w x y z = None \<Longrightarrow> \<exists>st'. decode_4 [w, x, y, z] 4 st = (False, st')"
  using decode_4_quad [of w x y z "fst st" "snd st"] by (simp del: split_paired_Ex) blast

lemma decode_4_quad_Some:
  "quad_spec w x y z = Some bs \<Longrightarrow>
   decode_4 [w, x, y, z] 4 (out, left) = (True, out @ take left bs, left - length bs)"
  using decode_4_quad [of w x y z out left] by simp

lemma get_4_spec:
  assumes "ctx_wf c" "get_4 c inp = (c', rest, non_nl, n)"
  defines "s \<equiv> pending c @ filter (\<lambda>b. b \<noteq> nl) inp"
  shows "ctx_wf c' \<and> n = min 4 (length s) \<and> take n non_nl = take 4 s \<and>
    filter (\<lambda>b. b \<noteq> nl) rest = drop 4 s \<and> (inp \<noteq> [] \<longrightarrow> length rest < length inp) \<and>
    (if length s < 4 then pending c' = s \<and> rest = [] else pending c' = [] \<and> 4 \<le> length non_nl)"
proof -
  define c0 where "c0 = (if ctx_i c = 4 then c\<lparr>ctx_i := 0\<rparr> else c)"
  have c0: "ctx_i c0 < 4" "length (ctx_buf c0) = 4" "take (ctx_i c0) (ctx_buf c0) = pending c"
    using assms(1) by (auto simp: c0_def ctx_wf_def pending_def)
  show ?thesis
  proof (cases "ctx_i c0 = 0 \<and> 4 \<le> length inp \<and> nl \<notin> set (take 4 inp)")
    case True
    then have "filter (\<lambda>b. b \<noteq> nl) inp = take 4 inp @ filter (\<lambda>b. b \<noteq> nl) (drop 4 inp)"
      by (metis append_take_drop_id filter_append filter_neq_id)
    moreover have "c' = c0" "rest = drop 4 inp" "non_nl = inp" "n = 4"
      using assms(2) True by (auto simp: get_4_def c0_def [symmetric])
    ultimately show ?thesis
      using True c0 unfolding s_def by (auto simp: ctx_wf_def pending_def)
  next
    case False
    then have "get_4_copy c0 inp = (c', rest)" "non_nl = ctx_buf c'" "n = ctx_i c'"
      using assms(2) by (auto simp: get_4_def c0_def [symmetric] split: prod.splits)
    with get_4_copy_spec [OF c0(1,2), of inp c' rest] c0(3) show ?thesis
      unfolding s_def by (auto simp: ctx_wf_def [of c'] pending_def [of c'])
  qed
qed

lemma decode_loop_spec:
  assumes "ctx_wf c" "ci = 0 \<longrightarrow> pending c = []"
  shows "case stream_spec (pending c @ filter (\<lambda>b. b \<noteq> nl) inp) of
      Some (bs, p) \<Rightarrow> \<exists>c'. decode_loop ci False (Some c) inp (out, left) =
          Some (True, Some c', out @ take left bs, left - length bs) \<and> ctx_wf c' \<and> pending c' = p
    | None \<Rightarrow> \<exists>c' st. decode_loop ci False (Some c) inp (out, left) = Some (False, Some c', st) \<and> ctx_wf c'"
  using assms
proof (induction "length inp" arbitrary: inp c out left rule: less_induct)
  case less
  obtain inp1 save st1 where run:
    "(if ci = 0 \<and> \<not> False then decode_run inp (out, left) else (inp, (out, left), (out, left))) = (inp1, save, st1)"
    by (rule prod_cases3)
  have "\<exists>pre bs. inp = pre @ inp1 \<and> nl \<notin> set pre \<and> stream_spec pre = Some (bs, []) \<and>
     save = (out @ take left bs, left - length bs) \<and> (pre \<noteq> [] \<longrightarrow> ci = 0) \<and>
     (decode_4 inp1 (length inp1) save = (False, st1) \<or> st1 = save)"
  proof (cases "ci = 0")
    case True
    with run decode_run_spec [of inp out left inp1 save st1] show ?thesis by auto
  next
    case False
    with run show ?thesis by (intro exI [of _ "[]"]) auto
  qed
  then obtain pre bs where pre: "inp = pre @ inp1" "nl \<notin> set pre" "stream_spec pre = Some (bs, [])"
     "save = (out @ take left bs, left - length bs)" "pre \<noteq> [] \<longrightarrow> ci = 0"
     "decode_4 inp1 (length inp1) save = (False, st1) \<or> st1 = save" by blast
  have pend: "pending c = [] \<or> pre = []" using less(3) pre(5) by auto
  let ?s = "pending c @ filter (\<lambda>b. b \<noteq> nl) inp1"
  have spec: "stream_spec (pending c @ filter (\<lambda>b. b \<noteq> nl) inp) =
      map_option (\<lambda>(out, q). (bs @ out, q)) (stream_spec ?s)"
  proof (cases "pre = []")
    case True
    with pre(1,3) show ?thesis by (simp add: option.map_id)
  next
    case False
    with pend have p: "pending c = []" by simp
    have "filter (\<lambda>b. b \<noteq> nl) inp = pre @ filter (\<lambda>b. b \<noteq> nl) inp1"
      by (simp add: pre(1) filter_neq_id [OF pre(2)])
    then show ?thesis
      by (simp only: p append_Nil stream_spec_append [of pre] pre(3) option.case prod.case)
  qed
  note unf = decode_loop.simps [of ci False "Some c" inp "(out, left)", unfolded run Let_def prod.case]
  show ?case
  proof (cases "inp1 = []")
    case True
    with pre(6) have "st1 = save" by (simp add: decode_4_idle) blast
    moreover have "length (pending c) < 4"
      using less.prems(1) by (auto simp: pending_def ctx_wf_def)
    then have "stream_spec (pending c) = Some ([], pending c)"
      by (cases "pending c" rule: stream_spec.cases) auto
    ultimately show ?thesis
      using True less.prems pre(4) unfolding unf spec by simp
  next
    case ne: False
    show ?thesis
    proof (cases "hd inp1 = nl")
      case True
      with ne obtain t where t: "inp1 = nl # t" by (cases inp1) auto
      with pre(6) have "st1 = save" by (simp add: decode_4_idle) blast
      then have "decode_loop ci False (Some c) inp (out, left) =
          decode_loop ci False (Some c) t (out @ take left bs, left - length bs)"
        unfolding unf using t pre(4) by simp
      moreover have "length t < length inp" using pre(1) t by simp
      from less.hyps [OF this less.prems, of "out @ take left bs" "left - length bs"]
      show ?thesis unfolding spec using t calculation by (auto split: option.splits)
    next
      case nn: False
      obtain c' rest non_nl n where g: "get_4 c inp1 = (c', rest, non_nl, n)"
        by (rule prod_cases4)
      note gs = get_4_spec [OF less.prems(1) g]
      show ?thesis
      proof (cases "length ?s < 4")
        case True
        then have "stream_spec ?s = Some ([], ?s)"
          by (cases ?s rule: stream_spec.cases) auto
        moreover have "n < 4" using gs True by simp
        ultimately show ?thesis
          unfolding unf spec using ne nn g gs True pre(4) by simp
      next
        case False
        then obtain w x y z r where s: "?s = w # x # y # z # r"
          by (cases ?s rule: list4_cases) auto
        have n: "n = 4" "pending c' = []" "ctx_wf c'" "filter (\<lambda>b. b \<noteq> nl) rest = r"
            "length rest < length inp" "take 4 non_nl = [w, x, y, z]"
          using gs False ne pre(1) unfolding s by (auto simp: numeral_eq_Suc)
        have d4: "decode_4 non_nl 4 save = decode_4 [w, x, y, z] 4 save"
          using decode_4_take [of non_nl save] gs False n(6) by simp
        show ?thesis
        proof (cases "quad_spec w x y z")
          case None
          then obtain st2 where "decode_4 non_nl 4 save = (False, st2)"
            unfolding d4 using decode_4_quad_None by blast
          with None show ?thesis
            unfolding unf spec s using ne nn g n by simp
        next
          case (Some bs')
          then have "decode_4 non_nl 4 save =
              (True, (out @ take left bs) @ take (left - length bs) bs', left - length bs - length bs')"
            unfolding d4 unfolding pre(4) by (rule decode_4_quad_Some)
          then have "decode_loop ci False (Some c) inp (out, left) =
              decode_loop ci False (Some c') rest
                (out @ take left (bs @ bs'), left - length (bs @ bs'))"
            unfolding unf using ne nn g n by simp
          with less.hyps [OF n(5,3), of "out @ take left (bs @ bs')" "left - length (bs @ bs')"] n(2,4)
          show ?thesis unfolding spec s using Some by (auto split: option.splits)
        qed
      qed
    qed
  qed
qed

lemma decode_ctx_spec:
  assumes "ctx_wf c" "inp \<noteq> []"
  shows "case stream_spec (pending c @ filter (\<lambda>b. b \<noteq> nl) inp) of
      Some (bs, p) \<Rightarrow> \<exists>c'. base64_decode_ctx (Some c) inp outlen = Some (True, Some c', take outlen bs) \<and>
          ctx_wf c' \<and> pending c' = p
    | None \<Rightarrow> \<exists>c' out. base64_decode_ctx (Some c) inp outlen = Some (False, Some c', out) \<and> ctx_wf c'"
proof -
  have "ctx_i c = 0 \<longrightarrow> pending c = []" by (simp add: pending_def)
  note loop = decode_loop_spec [OF assms(1) this, of inp "[]" outlen]
  show ?thesis
  proof (cases "stream_spec (pending c @ filter (\<lambda>b. b \<noteq> nl) inp)")
    case None
    with loop assms(2) show ?thesis by (auto simp: base64_decode_ctx_def)
  next
    case (Some r)
    with loop assms(2) show ?thesis by (cases r) (auto simp: base64_decode_ctx_def)
  qed
qed

lemma decode_4_short:
  assumes "n < 4" obtains st' where "decode_4 inp n st = (False, st')"
proof -
  from assms have "fst (decode_4 inp n st) = False"
    by (auto simp: decode_4_def Let_def)
  then show ?thesis using that by (metis prod.collapse)
qed

lemma decode_ctx_flush:
  assumes "ctx_wf c"
  shows "\<exists>c' out. base64_decode_ctx (Some c) [] outlen = Some (pending c = [], Some c', out)"
proof -
  obtain c' rest non_nl n where g: "get_4 c [] = (c', rest, non_nl, n)" by (rule prod_cases4)
  have n: "n = length (pending c)" "n < 4"
    using get_4_spec [OF assms g] assms by (auto simp: pending_def ctx_wf_def min_def split: if_splits)
  obtain st2 where "decode_4 non_nl n ([], outlen) = (False, st2)"
    using n(2) by (rule decode_4_short)
  then show ?thesis
    using n g unfolding base64_decode_ctx_def
    by (cases "n = 0"; cases st2) (auto simp: decode_loop.simps [of _ True] Let_def)
qed

lemma decode_null:
  "\<exists>ok out. base64_decode_ctx None inp outlen = Some (ok, None, out)"
proof -
  obtain inp1 save st1 where run: "decode_run inp ([], outlen) = (inp1, save, st1)" by (rule prod_cases3)
  then obtain st2 where "decode_4 inp1 (length inp1) save = (False, st2)"
    using decode_run_spec by blast
  then show ?thesis using run
    by (cases inp1) (auto simp: base64_decode_ctx_def decode_loop.simps [of 0 False None] Let_def split: prod.splits)
qed

lemma length_stream_spec: "stream_spec s = Some (bs, p) \<Longrightarrow> length bs \<le> 3 * (length s div 4)"
proof (induction s arbitrary: bs rule: stream_spec.induct)
  case (1 w x y z r)
  then obtain b1 b2 where "quad_spec w x y z = Some b1" "stream_spec r = Some (b2, p)" "bs = b1 @ b2"
    by (auto split: option.splits)
  moreover from this have "length b1 \<le> 3" by (auto simp: quad_spec_def Let_def split: if_splits)
  ultimately have "length bs \<le> 3 + 3 * (length r div 4)" using 1(1) [of b1 b2] by simp
  also have "\<dots> = 3 * (length (w # x # y # z # r) div 4)"
    using div_add_self1 [of 4 "length r"] by simp
  finally show ?case .
qed auto

lemma digit64_in [simp]: "digit64 i \<in> set b64str" "B64 (digit64 i) = i mod 64" "digit64 i \<noteq> nl"
  "digit64 i \<noteq> pad"
proof -
  show "digit64 i \<in> set b64str" by (simp add: digit64_def nat_less_iff)
  then show "digit64 i \<noteq> nl" "digit64 i \<noteq> pad" by auto
  show "B64 (digit64 i) = i mod 64" by (simp add: digit64_def B64_b64str nat_less_iff)
qed

lemma value64_digits:
  assumes "0 \<le> n" "n < 16777216"
  shows "value64 (digit64 (n div 262144)) (digit64 (n div 4096)) (digit64 (n div 64)) (digit64 n) = n"
proof -
  have d: "n div 4096 = n div 64 div 64" "n div 262144 = n div 64 div 64 div 64"
    by (simp_all flip: zdiv_zmult2_eq)
  have "n div 64 div 64 div 64 mod 64 = n div 64 div 64 div 64"
    using assms by simp
  then show ?thesis
    unfolding value64_def d using div_mult_mod_eq [of n 64] div_mult_mod_eq [of "n div 64" 64]
      div_mult_mod_eq [of "n div 64 div 64" 64] by (simp only: digit64_in)
qed

lemma group24_bounds: "0 \<le> group24 a b c" "group24 a b c < 16777216"
  using byte_bounds [of a] byte_bounds [of b] byte_bounds [of c] by (simp_all add: group24_def)

lemma group24_bytes:
  "word_of_int (group24 a b c div 65536) = a"
  "word_of_int (group24 a b c div 256 mod 256) = b"
  "word_of_int (group24 a b c mod 256) = c"
proof -
  have g: "group24 a b c = uint c + 256 * (uint b + 256 * uint a)" by (simp add: group24_def)
  have "group24 a b c div 256 = uint b + 256 * uint a"
    unfolding g using byte_bounds [of c] by (simp only: div_mult_self2)
  moreover have "group24 a b c mod 256 = uint c"
    unfolding g using byte_bounds [of c] by (simp only: mod_mult_self2 mod_pos_pos_trivial)
  moreover have "group24 a b c div 65536 = uint a"
    using byte_bounds [of b] byte_bounds [of c] unfolding group24_def by arith
  ultimately have "group24 a b c div 65536 = uint a" "group24 a b c div 256 mod 256 = uint b"
    "group24 a b c mod 256 = uint c"
    using byte_bounds [of b] by (simp_all only: mod_mult_self2 mod_pos_pos_trivial)
  then show "word_of_int (group24 a b c div 65536) = a"
    "word_of_int (group24 a b c div 256 mod 256) = b" "word_of_int (group24 a b c mod 256) = c"
    by simp_all
qed

lemma digit64_A:
  "digit64 (group24 a b 0) = b64str ! 0" "digit64 (group24 a 0 0 div 64) = b64str ! 0"
proof -
  have "group24 a b 0 = (uint a * 1024 + uint b * 4) * 64" by (simp add: group24_def)
  then show "digit64 (group24 a b 0) = b64str ! 0"
    unfolding digit64_def by (simp only: mod_mult_self2_is_0) simp
  have "group24 a 0 0 div 64 = (uint a * 16) * 64" by (simp add: group24_def)
  then show "digit64 (group24 a 0 0 div 64) = b64str ! 0"
    unfolding digit64_def by (simp only: mod_mult_self2_is_0) simp
qed

lemma stream_b64_spec: "stream_spec (b64_spec xs) = Some (xs, [])"
proof (induction xs rule: b64_spec.induct)
  case (2 a)
  from value64_digits [OF group24_bounds, of a 0 0] show ?case
    by (simp add: quad_spec_def Let_def digit64_A group24_bytes)
next
  case (3 a b)
  from value64_digits [OF group24_bounds, of a b 0] show ?case
    by (simp add: quad_spec_def Let_def digit64_A group24_bytes)
next
  case (4 a b c r)
  from value64_digits [OF group24_bounds, of a b c] 4 show ?case
    by (simp add: quad_spec_def Let_def group24_bytes)
qed simp

lemma nl_notin_b64_spec: "nl \<notin> set (b64_spec xs)"
  by (induction xs rule: b64_spec.induct) (auto simp: digit64_in(3) [symmetric])


section \<open>Properties\<close>

lemma unat_encode_outlen:
  "unat (1 + BASE64_LENGTH inlen) = (1 + (unat inlen + 2) mod 2 ^ 64 div 3 * 4) mod 2 ^ 64"
  unfolding BASE64_LENGTH_def by (simp add: unat_word_ariths unat_div mod_simps)

lemma encode_outlen_cases:
  fixes inlen :: u64
  defines "n \<equiv> unat inlen"
  defines "need \<equiv> 4 * ((n + 2) div 3) + 1"
  shows "(inlen > 1 + BASE64_LENGTH inlen) = (2 ^ 64 \<le> need)"
    and "need < 2 ^ 64 \<Longrightarrow> unat (1 + BASE64_LENGTH inlen) = need"
proof -
  define M :: nat where "M = 2 ^ 64"
  have n: "n < M" unfolding n_def M_def using unsigned_less [of inlen, where 'a = nat] by simp
  have u: "unat (1 + BASE64_LENGTH inlen) = (1 + (n + 2) mod M div 3 * 4) mod M"
    unfolding n_def M_def by (rule unat_encode_outlen)
  show small: "unat (1 + BASE64_LENGTH inlen) = need" if "need < 2 ^ 64"
  proof -
    have "n + 2 < M" using that unfolding need_def M_def by simp
    then have "(n + 2) mod M = n + 2" by simp
    then show ?thesis using that unfolding u need_def M_def [symmetric] by simp
  qed
  show "(inlen > 1 + BASE64_LENGTH inlen) = (2 ^ 64 \<le> need)"
  proof (cases "2 ^ 64 \<le> need")
    case False
    moreover have "n \<le> need" unfolding need_def by arith
    ultimately show ?thesis using small by (simp add: word_less_nat_alt n_def)
  next
    case True
    have "unat (1 + BASE64_LENGTH inlen) < n"
    proof (cases "n + 2 < M")
      case True
      then have "(n + 2) mod M = n + 2" by simp
      then have "unat (1 + BASE64_LENGTH inlen) = need mod M" unfolding u need_def by (simp add: mult.commute)
      moreover have "need < M + n" using True n unfolding need_def M_def by simp
      moreover have "need mod M = need - M"
        using \<open>2 ^ 64 \<le> need\<close> \<open>need < M + n\<close> n unfolding M_def [symmetric]
        by (simp add: mod_if)
      ultimately show ?thesis
        using \<open>2 ^ 64 \<le> need\<close> n unfolding M_def [symmetric] by simp
    next
      case False
      then have "(n + 2) mod M < 2" using n unfolding M_def by (simp add: mod_if) arith
      then have "unat (1 + BASE64_LENGTH inlen) = 1" unfolding u M_def by simp
      then show ?thesis using False unfolding M_def by simp
    qed
    with True show ?thesis by (simp add: word_less_nat_alt n_def)
  qed
qed

text \<open>The overflow test of \<open>base64_encode_alloc\<close>, made on a wrapped 64-bit length, is exact: it
  answers 0 and a null buffer exactly when the true size does not fit in \<open>size_t\<close>, reports the
  requested size when allocation fails, and otherwise returns the length of the encoding with
  the zero-terminated encoding.\<close>

theorem base64_encode_alloc_correct:
  "base64_encode_alloc malloc inp inlen =
    (let n = unat inlen; need = 4 * ((n + 2) div 3) + 1 in
     if 2 ^ 64 \<le> need then (0, None)
     else if \<not> malloc (of_nat need) then (of_nat need, None)
     else (of_nat (need - 1), Some (b64_spec (take n inp) @ [0])))"
proof -
  define n where "n = unat inlen"
  define need where "need = 4 * ((n + 2) div 3) + 1"
  note enc = encode_outlen_cases [of inlen, folded n_def, folded need_def]
  show ?thesis
  proof (cases "2 ^ 64 \<le> need")
    case True
    with enc(1) show ?thesis
      unfolding base64_encode_alloc_def Let_def n_def [symmetric] need_def [symmetric] by simp
  next
    case False
    then have u: "unat (1 + BASE64_LENGTH inlen) = need" using enc(2) by simp
    then have w: "1 + BASE64_LENGTH inlen = of_nat need" by (simp flip: u)
    have "length (b64_spec (take n inp)) < need"
      using div_le_mono [of "length (take n inp) + 2" "n + 2" 3]
      unfolding length_b64_spec need_def by simp
    then have "base64_encode (take n inp) need = b64_spec (take n inp) @ [0]"
      by (simp add: base64_encode_take)
    moreover have "of_nat need - 1 = (of_nat (need - 1) :: u64)"
      unfolding need_def by simp
    ultimately show ?thesis
      using False enc(1) unfolding base64_encode_alloc_def Let_def n_def [symmetric] need_def [symmetric] w
      using u w by simp
  qed
qed
lemmas b64_eval = base64_decode_ctx_def decode_loop.simps decode_run.simps decode_4_def isbase64_def
  b64_at_eq B64_def B64_pairs_def get_4_def emit_def Let_def

lemma decode_ctx_Some:
  assumes "ctx_wf c" "inp \<noteq> []" "stream_spec (pending c @ filter (\<lambda>b. b \<noteq> nl) inp) = Some (bs, p)"
  obtains c' where "base64_decode_ctx (Some c) inp outlen = Some (True, Some c', take outlen bs)"
    "ctx_wf c'" "pending c' = p"
  using decode_ctx_spec [OF assms(1,2), of outlen] assms(3) by auto

lemma decode_ctx_TrueD:
  assumes "ctx_wf c" "inp \<noteq> []" "base64_decode_ctx (Some c) inp outlen = Some (True, Some c', out)"
  obtains bs where "stream_spec (pending c @ filter (\<lambda>b. b \<noteq> nl) inp) = Some (bs, pending c')"
    "ctx_wf c'" "out = take outlen bs"
  using decode_ctx_spec [OF assms(1,2), of outlen] assms(3) by (auto split: option.splits)

lemma length_pending: "ctx_wf c \<Longrightarrow> length (pending c) \<le> 3"
  by (auto simp: ctx_wf_def pending_def)

lemma needlen_enough:
  assumes "stream_spec (filter (\<lambda>b. b \<noteq> nl) inp) = Some (bs, p)"
  shows "length bs \<le> decode_needlen (length inp)"
proof -
  have "length bs \<le> 3 * (length (filter (\<lambda>b. b \<noteq> nl) inp) div 4)"
    by (rule length_stream_spec [OF assms])
  also have "\<dots> \<le> 3 * (length inp div 4)" by (simp add: div_le_mono)
  finally show ?thesis by (simp add: decode_needlen_def)
qed

text \<open>C1: the encoder writes the RFC 4648 encoding of its input followed by a terminating zero, cut
  off at \<open>outlen\<close>; it therefore never writes more than \<open>outlen\<close> bytes.\<close>

theorem base64_encode_correct:
  "base64_encode inp outlen = take outlen (b64_spec inp @ [0]) \<and>
   length (base64_encode inp outlen) = min outlen ((length inp + 2) div 3 * 4 + 1)"
  by (simp add: base64_encode_take length_b64_spec min.commute)

text \<open>C2: decoding inverts encoding: any text that is the encoding of a non-empty byte string with
  newlines inserted anywhere is accepted by the allocating decoder from an empty context, which
  returns exactly the bytes and leaves nothing pending.\<close>

theorem base64_roundtrip:
  assumes "ctx_wf c" "pending c = []" "xs \<noteq> []"
    and "filter (\<lambda>b. b \<noteq> nl) wrapped = butlast (base64_encode xs ((length xs + 2) div 3 * 4 + 1))"
  shows "\<exists>c'. base64_decode_alloc_ctx (\<lambda>_. True) (Some c) wrapped = Some (True, Some c', Some xs) \<and>
    ctx_wf c' \<and> pending c' = []"
proof -
  have enc: "filter (\<lambda>b. b \<noteq> nl) wrapped = b64_spec xs"
    unfolding assms(4) base64_encode_take length_b64_spec [symmetric] by simp
  then have spec: "stream_spec (filter (\<lambda>b. b \<noteq> nl) wrapped) = Some (xs, [])"
    by (simp add: stream_b64_spec)
  have "b64_spec xs \<noteq> []" using assms(3) by (cases xs rule: b64_spec.cases) auto
  with enc have "wrapped \<noteq> []" by auto
  with spec obtain c' where "base64_decode_ctx (Some c) wrapped (decode_needlen (length wrapped)) =
      Some (True, Some c', take (decode_needlen (length wrapped)) xs)" "ctx_wf c'" "pending c' = []"
    using decode_ctx_Some [OF assms(1), of wrapped xs "[]"] assms(2) by auto
  then show ?thesis
    using needlen_enough [OF spec] by (simp add: base64_decode_alloc_ctx_def)
qed

theorem base64_roundtrip_witness:
  "\<exists>c'. base64_decode_alloc_ctx (\<lambda>_. True) (Some \<lparr>ctx_i = 0, ctx_buf = [0, 0, 0, 0]\<rparr>)
      (bytes ''TW'' @ [nl] @ bytes ''FuIQ=='' @ [nl]) = Some (True, Some c', Some (bytes ''Man!'')) \<and>
    ctx_wf c' \<and> pending c' = []"
  by (rule base64_roundtrip)
    (simp_all add: ctx_wf_def pending_def base64_encode_take group24_def digit64_def b64str_eval)



text \<open>A stream may be cut anywhere: decoding two pieces with one context, in buffers large
  enough, gives the output and the pending bytes of decoding their concatenation.\<close>

theorem base64_decode_chunks:
  assumes "ctx_wf c" "a \<noteq> []" "b \<noteq> []" "length a + 3 \<le> n1" "length b + 3 \<le> n2"
    and "base64_decode_ctx (Some c) a n1 = Some (True, Some c1, o1)"
    and "base64_decode_ctx (Some c1) b n2 = Some (True, Some c2, o2)"
  shows "\<exists>c'. base64_decode_ctx (Some c) (a @ b) (n1 + n2) = Some (True, Some c', o1 @ o2) \<and>
    pending c' = pending c2"
proof -
  let ?f = "filter (\<lambda>b. b \<noteq> nl)"
  obtain b1 where s1: "stream_spec (pending c @ ?f a) = Some (b1, pending c1)" "ctx_wf c1" "o1 = take n1 b1"
    using decode_ctx_TrueD [OF assms(1,2,6)] .
  obtain b2 where s2: "stream_spec (pending c1 @ ?f b) = Some (b2, pending c2)" "ctx_wf c2" "o2 = take n2 b2"
    using decode_ctx_TrueD [OF s1(2) assms(3,7)] .
  have len: "length (pending d @ ?f x) \<le> length x + 3" if "ctx_wf d" for d x
    using add_mono [OF length_pending [OF that] length_filter_le [of _ x]] by (simp add: add.commute)
  have "length b1 \<le> n1" "length b2 \<le> n2"
    using length_stream_spec [OF s1(1)] length_stream_spec [OF s2(1)] len [OF assms(1), of a]
      len [OF s1(2), of b] assms(4,5) by linarith+
  then have o: "o1 = b1" "o2 = b2" "take (n1 + n2) (b1 @ b2) = b1 @ b2" using s1 s2 by simp_all
  have "stream_spec (pending c @ ?f (a @ b)) = Some (b1 @ b2, pending c2)"
    using stream_spec_append [of "pending c @ ?f a" "?f b"] s1 s2 by simp
  then show ?thesis
    using decode_ctx_Some [OF assms(1), of "a @ b" "b1 @ b2" "pending c2" "n1 + n2"] assms(2) o by auto
qed

theorem base64_decode_chunks_witness:
  "\<exists>c'. base64_decode_ctx (Some \<lparr>ctx_i = 0, ctx_buf = [0, 0, 0, 0]\<rparr>) (bytes ''QU'' @ bytes ''JD'') 10 =
      Some (True, Some c', [] @ bytes ''ABC'') \<and>
    pending c' = pending \<lparr>ctx_i = 4, ctx_buf = bytes ''QUJD''\<rparr>"
  using base64_decode_chunks [of "\<lparr>ctx_i = 0, ctx_buf = [0, 0, 0, 0]\<rparr>" "bytes ''QU''" "bytes ''JD''" 5 5
      "\<lparr>ctx_i = 2, ctx_buf = bytes ''QU'' @ [0, 0]\<rparr>" "[]" "\<lparr>ctx_i = 4, ctx_buf = bytes ''QUJD''\<rparr>" "bytes ''ABC''"]
  by (simp add: ctx_wf_def b64_eval)



text \<open>Called on an empty context, the allocating decoder's buffer of \<open>3 * (inlen / 4) + 2\<close> bytes
  is large enough: the result is the complete decoding, or a failure with a null buffer.\<close>

theorem base64_decode_alloc_complete:
  assumes "ctx_wf c" "pending c = []" "inp \<noteq> []" "malloc (decode_needlen (length inp))"
  shows "case stream_spec (filter (\<lambda>b. b \<noteq> nl) inp) of
      Some (bs, p) \<Rightarrow> \<exists>c'. base64_decode_alloc_ctx malloc (Some c) inp = Some (True, Some c', Some bs) \<and> pending c' = p
    | None \<Rightarrow> \<exists>c'. base64_decode_alloc_ctx malloc (Some c) inp = Some (False, Some c', None)"
proof -
  note spec = decode_ctx_spec [OF assms(1,3), of "decode_needlen (length inp)"]
  show ?thesis
  proof (cases "stream_spec (filter (\<lambda>b. b \<noteq> nl) inp)")
    case None
    with spec assms(2,4) show ?thesis by (auto simp: base64_decode_alloc_ctx_def)
  next
    case (Some r)
    with spec assms(2,4) needlen_enough [of inp "fst r" "snd r"] show ?thesis
      by (cases r) (auto simp: base64_decode_alloc_ctx_def)
  qed
qed

theorem base64_decode_alloc_complete_witness:
  "\<exists>c'. base64_decode_alloc_ctx (\<lambda>_. True) (Some \<lparr>ctx_i = 0, ctx_buf = [0, 0, 0, 0]\<rparr>) (bytes ''TW'') =
    Some (True, Some c', Some []) \<and> pending c' = bytes ''TW''"
  using base64_decode_alloc_complete [of "\<lparr>ctx_i = 0, ctx_buf = [0, 0, 0, 0]\<rparr>" "bytes ''TW''" "\<lambda>_. True"]
  by (simp add: ctx_wf_def pending_def)

text \<open>On a context that holds bytes of an incomplete group the same size is too small: there is
  a call that reports success, leaves nothing pending and returns fewer bytes than the stream
  decodes to.\<close>

theorem base64_decode_alloc_truncates:
  "\<exists>c inp bs c' out. ctx_wf c \<and> stream_spec (pending c @ filter (\<lambda>b. b \<noteq> nl) inp) = Some (bs, []) \<and>
     base64_decode_alloc_ctx (\<lambda>_. True) (Some c) inp = Some (True, Some c', Some out) \<and>
     pending c' = [] \<and> length out < length bs"
proof -
  let ?c = "\<lparr>ctx_i = 3, ctx_buf = bytes ''QUJx''\<rparr>"
  have "quad_spec 0x51 0x55 0x4a 0x44 = Some (bytes ''ABC'')"
    by (simp add: quad_spec_def Let_def value64_def B64_def B64_pairs_def b64str_eval)
  then have "stream_spec (pending ?c @ filter (\<lambda>b. b \<noteq> nl) (bytes ''D'')) = Some (bytes ''ABC'', [])"
    by (simp add: pending_def)
  moreover have "base64_decode_alloc_ctx (\<lambda>_. True) (Some ?c) (bytes ''D'') =
      Some (True, Some \<lparr>ctx_i = 4, ctx_buf = bytes ''QUJD''\<rparr>, Some (bytes ''AB''))"
    by (simp add: b64_eval base64_decode_alloc_ctx_def decode_needlen_def)
  moreover have "ctx_wf ?c" "pending \<lparr>ctx_i = 4, ctx_buf = bytes ''QUJD''\<rparr> = []"
    "length (bytes ''AB'') < length (bytes ''ABC'')"
    by (simp_all add: ctx_wf_def pending_def)
  ultimately show ?thesis by blast
qed

text \<open>\<open>clear_garbage\<close> keeps exactly the alphabet and padding bytes, in order, and terminates the
  buffer; it needs one byte more than the input for the terminator.\<close>

theorem clear_garbage_correct:
  "clear_garbage inbuf = filter (\<lambda>c. c \<in> set b64str \<or> c = pad) inbuf @ [0] \<and>
   length (clear_garbage inbuf) \<le> length inbuf + 1"
proof -
  have "clear_garbage_loop kept rest = kept @ filter (\<lambda>c. c \<in> set b64str \<or> c = pad) rest" for kept rest
    by (induction rest arbitrary: kept) (simp_all add: isbase64_iff)
  then show ?thesis by (simp add: clear_garbage_def)
qed
end
