(* ===== verification/Ctapi_curl.thy ===== *)
theory Ctapi_curl
  imports Prelude
begin

text \<open>
  Model of \<^verbatim>\<open>c/libgs/ctapi_curl/ctapi_curl.c\<close>: the growing buffers that collect the headers and the body of
  an answer, and the options of a request. libcurl is not part of the repository. Its handle is a
  record of the options set on it; a transfer is a parameter: for the options, the sequence of calls
  of the two callbacks and the final code. Relied on is the documentation: options stay set until they
  are changed, and a callback that returns another number than it was given ends the transfer with
  \<open>CURLE_WRITE_ERROR\<close>. Allocation outcomes are parameters; an access outside a buffer is \<open>None\<close>. Messages
  on standard output are left out.
\<close>

section \<open>Growing buffers\<close>

definition BUF_SIZE :: u64 where "BUF_SIZE = 10"

record pstr_t =
  str :: "byte list option"
  len :: u64
  size :: u64

definition pstr0 :: pstr_t where "pstr0 = \<lparr>str = None, len = 0, size = 0\<rparr>"

record alloc =
  calloc_ok :: bool
  realloc_ok :: bool
  fresh :: "nat \<Rightarrow> byte"

text \<open>\<open>realloc\<close> of a buffer; the bytes beyond the old ones are whatever was there. A new size of 0, which
  would free the buffer, counts as undefined.\<close>

definition resize :: "(nat \<Rightarrow> byte) \<Rightarrow> nat \<Rightarrow> byte list \<Rightarrow> byte list" where
  "resize junk n b = take n b @ map junk [length b..<n]"

text \<open>The callbacks, which are the same for headers and data. The first two steps make room; the result
  of a failed allocation is 0.\<close>

definition recv_init :: "alloc \<Rightarrow> pstr_t \<Rightarrow> pstr_t option" where
  "recv_init a p =
    (if str p = None then (if calloc_ok a then Some \<lparr>str = Some (replicate (unat BUF_SIZE) 0), len = 0, size = BUF_SIZE\<rparr> else None)
     else Some p)"

text \<open>The new size is computed with 64 bits and stored in an \<open>unsigned int\<close>.\<close>

definition new_size :: "pstr_t \<Rightarrow> u64 \<Rightarrow> u32" where
  "new_size p n = ucast (size p * 2 + n + 1)"

definition recv_room :: "alloc \<Rightarrow> u64 \<Rightarrow> pstr_t \<Rightarrow> pstr_t option option" where
  "recv_room a n p =
    (if size p - len p < n + 1 then
       (if new_size p n = 0 then None
        else if realloc_ok a then do { b \<leftarrow> str p; Some (Some \<lparr>str = Some (resize (fresh a) (unat (new_size p n)) b), len = len p, size = ucast (new_size p n)\<rparr>) }
        else Some None)
     else Some (Some p))"

definition recive_from_http_api :: "alloc \<Rightarrow> byte list \<Rightarrow> pstr_t \<Rightarrow> (u64 \<times> pstr_t) option" where
  "recive_from_http_api a buffer p0 =
    (let n = of_nat (length buffer)
     in case recv_init a p0 of
          None \<Rightarrow> Some (0, p0)
        | Some p1 \<Rightarrow> do {
            room \<leftarrow> recv_room a n p1;
            case room of
              None \<Rightarrow> Some (0, p1)
            | Some p2 \<Rightarrow> do {
                b \<leftarrow> str p2;
                b1 \<leftarrow> memcpy b (unat (len p2)) buffer;
                b2 \<leftarrow> wr b1 (unat (len p2 + n)) 0;
                Some (n, p2\<lparr>str := Some b2, len := len p2 + n\<rparr>) } })"

section \<open>Requests\<close>

record curl =
  CURLOPT_POST :: bool
  CURLOPT_POSTFIELDS :: "string option"
  CURLOPT_CAINFO :: "string option"
  CURLOPT_SSL_VERIFYHOST :: int
  CURLOPT_SSL_VERIFYPEER :: bool
  CURLOPT_URL :: string
  CURLOPT_TIMEOUT :: nat
  CURLOPT_CONNECTTIMEOUT :: nat
  CURLOPT_COOKIESESSION :: bool
  CURLOPT_COOKIEJAR :: "string option"
  CURLOPT_COOKIEFILE :: "string option"

text \<open>\<open>ctapi_curl_create\<close>: a handle with the defaults of the library, or \<open>NULL\<close>.\<close>

definition curl_defaults :: curl where
  "curl_defaults = \<lparr>CURLOPT_POST = False, CURLOPT_POSTFIELDS = None, CURLOPT_CAINFO = None, CURLOPT_SSL_VERIFYHOST = 2,
     CURLOPT_SSL_VERIFYPEER = True, CURLOPT_URL = [], CURLOPT_TIMEOUT = 0, CURLOPT_CONNECTTIMEOUT = 0, CURLOPT_COOKIESESSION = False,
     CURLOPT_COOKIEJAR = None, CURLOPT_COOKIEFILE = None\<rparr>"

definition ctapi_curl_create :: "bool \<Rightarrow> curl option" where
  "ctapi_curl_create easy_init_ok = (if easy_init_ok then Some curl_defaults else None)"

text \<open>The options one call sets.\<close>

definition set_method :: "string \<Rightarrow> string option \<Rightarrow> curl \<Rightarrow> curl" where
  "set_method meth post_data c =
    (if same_nocase meth ''POST'' then
       (case post_data of None \<Rightarrow> c\<lparr>CURLOPT_POST := True\<rparr> | Some d \<Rightarrow> c\<lparr>CURLOPT_POST := True, CURLOPT_POSTFIELDS := Some d\<rparr>)
     else c)"

definition set_ssl :: "string \<Rightarrow> curl \<Rightarrow> curl" where
  "set_ssl url c =
    (if same_nocase (take 5 url) ''HTTPS'' then
       c\<lparr>CURLOPT_CAINFO := Some ''./cacert.pem'', CURLOPT_SSL_VERIFYHOST := 2, CURLOPT_SSL_VERIFYPEER := True\<rparr>
     else c)"

definition set_cookies :: "string option \<Rightarrow> string option \<Rightarrow> curl \<Rightarrow> curl" where
  "set_cookies save_cookie_fs send_cookie_fs c =
    (let c1 = (case save_cookie_fs of None \<Rightarrow> c | Some f \<Rightarrow> c\<lparr>CURLOPT_COOKIESESSION := True, CURLOPT_COOKIEJAR := Some f\<rparr>)
     in case send_cookie_fs of None \<Rightarrow> c1 | Some f \<Rightarrow> c1\<lparr>CURLOPT_COOKIEFILE := Some f\<rparr>)"

datatype callback = Header "byte list" | Data "byte list"

record curl_result_string =
  headers :: pstr_t
  data :: pstr_t

definition CURLE_OK :: int where "CURLE_OK = 0"
definition CURLE_WRITE_ERROR :: int where "CURLE_WRITE_ERROR = 23"

text \<open>\<open>curl_easy_perform\<close>: the callbacks in their order, one allocation outcome for each.\<close>

fun perform :: "(callback \<times> alloc) list \<Rightarrow> int \<Rightarrow> curl_result_string \<Rightarrow> (int \<times> curl_result_string) option" where
  "perform [] code r = Some (code, r)"
| "perform ((Header b, a) # cs) code r =
    Option.bind (recive_from_http_api a b (headers r))
      (\<lambda>(n, p). if n \<noteq> of_nat (length b) then Some (CURLE_WRITE_ERROR, r\<lparr>headers := p\<rparr>) else perform cs code (r\<lparr>headers := p\<rparr>))"
| "perform ((Data b, a) # cs) code r =
    Option.bind (recive_from_http_api a b (data r))
      (\<lambda>(n, p). if n \<noteq> of_nat (length b) then Some (CURLE_WRITE_ERROR, r\<lparr>data := p\<rparr>) else perform cs code (r\<lparr>data := p\<rparr>))"

text \<open>\<open>ctapi_curl_post\<close>: the \<open>int\<close> it returns, the handle, the result and the error text (cut to
  \<open>error_size\<close>). \<open>transfer\<close> is what the library does for the options, \<open>strerror\<close> its texts.\<close>

definition ctapi_curl_post ::
  "(curl \<Rightarrow> (callback \<times> alloc) list \<times> int) \<Rightarrow> (int \<Rightarrow> string) \<Rightarrow> curl \<Rightarrow> string \<Rightarrow> string \<Rightarrow> string option \<Rightarrow> string option \<Rightarrow> string option \<Rightarrow>
    nat \<Rightarrow> nat \<Rightarrow> string \<Rightarrow> nat \<Rightarrow> (int \<times> curl \<times> curl_result_string \<times> string) option" where
  "ctapi_curl_post transfer strerror curl url meth post_data save_cookie_fs send_cookie_fs connect_timeout timeout err error_size = do {
     let c1 = (set_ssl url (set_method meth post_data curl))\<lparr>CURLOPT_URL := url, CURLOPT_TIMEOUT := timeout, CURLOPT_CONNECTTIMEOUT := connect_timeout\<rparr>;
     let c2 = set_cookies save_cookie_fs send_cookie_fs c1;
     let (cs, code) = transfer c2;
     (ret, r) \<leftarrow> perform cs code \<lparr>headers = pstr0, data = pstr0\<rparr>;
     let err' = (if ret \<noteq> CURLE_OK \<and> 0 < error_size
       then take (error_size - 1) (''curl_easy_perform() failed:'' @ strerror ret @ '', url:'' @ url) else err);
     Some (sint (ucast (len (headers r) + len (data r)) :: u32), c2, r, err') }"

text \<open>\<open>ctapi_curl_free\<close>, with the buffers it releases.\<close>

definition ctapi_curl_free :: "curl_result_string \<Rightarrow> byte list list \<times> curl_result_string" where
  "ctapi_curl_free r =
    ((case str (headers r) of None \<Rightarrow> [] | Some b \<Rightarrow> [b]) @ (case str (data r) of None \<Rightarrow> [] | Some b \<Rightarrow> [b]),
     \<lparr>headers = \<lparr>str = None, len = 0, size = 0\<rparr>, data = \<lparr>str = None, len = 0, size = 0\<rparr>\<rparr>)"

section \<open>Well-formed buffers\<close>

text \<open>A buffer is absent and empty, or holds its text with a terminator and has the size it says.\<close>

definition pstr_ok :: "pstr_t \<Rightarrow> bool" where
  "pstr_ok p \<longleftrightarrow> (case str p of None \<Rightarrow> len p = 0 \<and> size p = 0 | Some b \<Rightarrow> length b = unat (size p) \<and> unat (len p) < length b \<and> b ! unat (len p) = 0)"

definition pstr_text :: "pstr_t \<Rightarrow> byte list" where
  "pstr_text p = (case str p of None \<Rightarrow> [] | Some b \<Rightarrow> take (unat (len p)) b)"

text \<open>The size stays below three times the length (and the first ten bytes).\<close>

definition pstr_small :: "pstr_t \<Rightarrow> bool" where
  "pstr_small p \<longleftrightarrow> unat (size p) \<le> 3 * unat (len p) + 10"

lemma pstr_text_length: "pstr_ok p \<Longrightarrow> length (pstr_text p) = unat (len p)"
  by (auto simp: pstr_ok_def pstr_text_def split: option.splits)

lemma pstr0_ok [simp]: "pstr_ok pstr0" "pstr_text pstr0 = []" "pstr_small pstr0"
  by (simp_all add: pstr0_def pstr_ok_def pstr_text_def pstr_small_def)

lemma unat_add_64: "unat x + unat y < 2 ^ 64 \<Longrightarrow> unat (x + y :: u64) = unat x + unat y"
  by (simp add: unat_word_ariths)

lemma room_step:
  assumes "str p = Some b" "pstr_ok p"
    and "n < 2 ^ 32"
  shows "size p - len p < of_nat n + 1 \<longleftrightarrow> unat (size p) < unat (len p) + n + 1"
proof -
  have le: "unat (len p) < unat (size p)" using assms by (simp add: pstr_ok_def)
  have n: "unat (of_nat n + 1 :: u64) = n + 1" using assms(3) by (simp add: unat_word_ariths unat_of_nat take_bit_eq_mod)
  have "unat (size p - len p) = unat (size p) - unat (len p)" using le by (simp add: unat_sub word_le_nat_alt)
  then show ?thesis using n le by (simp add: word_less_nat_alt) linarith
qed

lemma new_size_small:
  assumes "2 * unat (size p) + n + 1 < 2 ^ 32"
  shows "unat (new_size p (of_nat n)) = 2 * unat (size p) + n + 1"
proof -
  have "unat (size p * 2 + of_nat n + 1 :: u64) = 2 * unat (size p) + n + 1"
    using assms by (simp add: unat_word_ariths unat_of_nat take_bit_eq_mod mod_add_left_eq mod_add_right_eq mult.commute)
  then show ?thesis using assms by (simp add: new_size_def unsigned_ucast_eq take_bit_nat_eq_self_iff)
qed

text \<open>Copying when there is room.\<close>

lemma recv_copy:
  assumes "length b0 = unat (size p)" "unat (len p) + length buffer < length b0" "str p = Some b0"
  shows "\<exists>b1 b2. memcpy b0 (unat (len p)) buffer = Some b1 \<and> wr b1 (unat (len p + of_nat (length buffer))) 0 = Some b2 \<and>
    pstr_ok (p\<lparr>str := Some b2, len := len p + of_nat (length buffer)\<rparr>) \<and>
    pstr_text (p\<lparr>str := Some b2, len := len p + of_nat (length buffer)\<rparr>) = take (unat (len p)) b0 @ buffer \<and>
    unat (len p + of_nat (length buffer)) = unat (len p) + length buffer"
proof -
  have "length b0 < 2 ^ 64" using assms(1) unsigned_less [of "size p", where ?'a = nat] by simp
  then have l: "unat (len p + of_nat (length buffer)) = unat (len p) + length buffer"
    using assms(2) by (simp add: unat_word_ariths unat_of_nat take_bit_eq_mod)
  let ?b1 = "take (unat (len p)) b0 @ buffer @ drop (unat (len p) + length buffer) b0"
  have "memcpy b0 (unat (len p)) buffer = Some ?b1" using assms(2) by (simp add: memcpy_def)
  moreover have "wr ?b1 (unat (len p) + length buffer) 0 = Some (?b1[unat (len p) + length buffer := 0])" using assms(2) by simp
  ultimately show ?thesis using l assms
    by (intro exI [of _ ?b1] exI [of _ "?b1[unat (len p) + length buffer := 0]"]) (simp add: pstr_ok_def pstr_text_def)
qed

lemma recv_init_ok:
  assumes "pstr_ok p" "pstr_small p" "recv_init a p = Some p1"
  shows "pstr_ok p1 \<and> pstr_small p1 \<and> pstr_text p1 = pstr_text p \<and> len p1 = len p \<and> str p1 \<noteq> None"
proof (cases "str p")
  case None
  then show ?thesis using assms
    by (auto simp: recv_init_def pstr_ok_def pstr_small_def pstr_text_def BUF_SIZE_def split: if_splits)
qed (use assms in \<open>simp add: recv_init_def\<close>)

lemma length_resize: "length b \<le> n \<Longrightarrow> length (resize junk n b) = n"
  by (simp add: resize_def)

lemma take_resize: "k \<le> length b \<Longrightarrow> length b \<le> n \<Longrightarrow> take k (resize junk n b) = take k b"
  by (simp add: resize_def)

text \<open>The three outcomes of a callback on a buffer that exists: the bytes fit, the buffer grows, or it
  grows to less than it needs.\<close>

lemma recv_fits:
  assumes "str p = Some b0" "pstr_ok p" "unat (len p) + length b < unat (size p)" "length b < 2 ^ 32"
  shows "\<exists>p'. recive_from_http_api a b p = Some (of_nat (length b), p') \<and> pstr_ok p' \<and> str p' \<noteq> None \<and> size p' = size p \<and>
    unat (len p') = unat (len p) + length b \<and> pstr_text p' = pstr_text p @ b"
proof -
  have r: "recv_init a p = Some p" "recv_room a (of_nat (length b)) p = Some (Some p)"
    using assms room_step [OF assms(1,2,4)] by (simp_all add: recv_init_def recv_room_def)
  have l: "length b0 = unat (size p)" "unat (len p) + length b < length b0" using assms by (simp_all add: pstr_ok_def)
  obtain b1 b2 where "memcpy b0 (unat (len p)) b = Some b1" "wr b1 (unat (len p + of_nat (length b))) 0 = Some b2"
    "pstr_ok (p\<lparr>str := Some b2, len := len p + of_nat (length b)\<rparr>)"
    "pstr_text (p\<lparr>str := Some b2, len := len p + of_nat (length b)\<rparr>) = take (unat (len p)) b0 @ b"
    "unat (len p + of_nat (length b)) = unat (len p) + length b" using recv_copy [OF l assms(1)] by blast
  then show ?thesis using r assms(1) by (simp add: recive_from_http_api_def Let_def pstr_text_def)
qed

lemma recv_grow_room:
  assumes "str p = Some b0" "pstr_ok p" "unat (size p) \<le> unat (len p) + length b" "length b < 2 ^ 32" "realloc_ok a" "new_size p (of_nat (length b)) \<noteq> 0"
  shows "recv_init a p = Some p" "recv_room a (of_nat (length b)) p =
    Some (Some \<lparr>str = Some (resize (fresh a) (unat (new_size p (of_nat (length b)))) b0), len = len p, size = ucast (new_size p (of_nat (length b)))\<rparr>)"
  using assms room_step [OF assms(1,2,4)] by (simp_all add: recv_init_def recv_room_def)

lemma recv_grow:
  assumes "str p = Some b0" "pstr_ok p" "unat (size p) \<le> unat (len p) + length b" "2 * unat (size p) + length b + 1 < 2 ^ 32" "realloc_ok a"
  shows "\<exists>p'. recive_from_http_api a b p = Some (of_nat (length b), p') \<and> pstr_ok p' \<and> str p' \<noteq> None \<and> unat (size p') = 2 * unat (size p) + length b + 1 \<and>
    unat (len p') = unat (len p) + length b \<and> pstr_text p' = pstr_text p @ b"
proof -
  note ns = new_size_small [OF assms(4)]
  let ?b0 = "resize (fresh a) (unat (new_size p (of_nat (length b)))) b0"
  let ?p2 = "\<lparr>str = Some ?b0, len = len p, size = ucast (new_size p (of_nat (length b)))\<rparr> :: pstr_t"
  have "new_size p (of_nat (length b)) \<noteq> 0" using ns by (metis add_is_0 unat_0 zero_neq_one)
  then have r: "recv_init a p = Some p" "recv_room a (of_nat (length b)) p = Some (Some ?p2)"
    using recv_grow_room [OF assms(1-3) _ assms(5)] assms(4) by simp_all
  have b0: "length b0 = unat (size p)" "unat (len p) < length b0" using assms(1,2) by (simp_all add: pstr_ok_def)
  have ge: "length b0 \<le> unat (new_size p (of_nat (length b)))" using ns b0 by simp
  have sz: "unat (size ?p2) = 2 * unat (size p) + length b + 1" using ns assms(4) by (simp add: unsigned_ucast_eq take_bit_nat_eq_self_iff)
  have l2: "length ?b0 = unat (size ?p2)" "unat (len ?p2) + length b < length ?b0" using length_resize [OF ge] ns sz b0 by simp_all
  obtain b1 b2 where c: "memcpy ?b0 (unat (len ?p2)) b = Some b1" "wr b1 (unat (len ?p2 + of_nat (length b))) 0 = Some b2"
    "pstr_ok (?p2\<lparr>str := Some b2, len := len ?p2 + of_nat (length b)\<rparr>)"
    "pstr_text (?p2\<lparr>str := Some b2, len := len ?p2 + of_nat (length b)\<rparr>) = take (unat (len ?p2)) ?b0 @ b"
    "unat (len ?p2 + of_nat (length b)) = unat (len ?p2) + length b"
    using recv_copy [OF l2, of] by auto
  have "take (unat (len p)) ?b0 = pstr_text p" using take_resize [OF _ ge, of "unat (len p)"] b0 assms(1) by (simp add: pstr_text_def)
  then show ?thesis using r c sz by (simp add: recive_from_http_api_def Let_def)
qed

lemma recv_overrun:
  assumes "str p = Some b0" "pstr_ok p" "unat (size p) \<le> unat (len p) + length b" "length b < 2 ^ 32" "realloc_ok a"
    and "unat (new_size p (of_nat (length b))) < unat (len p) + length b"
  shows "recive_from_http_api a b p = None"
proof (cases "new_size p (of_nat (length b)) = 0")
  case True
  then show ?thesis using assms room_step [OF assms(1,2,4)] by (simp add: recive_from_http_api_def recv_init_def recv_room_def Let_def)
next
  case False
  let ?b0 = "resize (fresh a) (unat (new_size p (of_nat (length b)))) b0"
  have "length ?b0 \<le> unat (new_size p (of_nat (length b)))" by (simp add: resize_def)
  then have "memcpy ?b0 (unat (len p)) b = None" using assms(6) by (simp add: memcpy_def)
  then show ?thesis using recv_grow_room [OF assms(1-5) False] by (simp add: recive_from_http_api_def Let_def)
qed

lemma recv_started: "recv_init a p = Some p1 \<Longrightarrow> recive_from_http_api a b p = recive_from_http_api a b p1"
  by (auto simp: recive_from_http_api_def recv_init_def Let_def split: if_splits)

lemma recive_ok:
  assumes "pstr_ok p" "pstr_small p" "3 * (unat (len p) + length b) + 11 < 2 ^ 32"
  shows "\<exists>n p'. recive_from_http_api a b p = Some (n, p') \<and> pstr_ok p' \<and> pstr_small p' \<and>
    (n = of_nat (length b) \<and> pstr_text p' = pstr_text p @ b \<or> n = 0 \<and> pstr_text p' = pstr_text p \<and> \<not> (calloc_ok a \<and> realloc_ok a))"
proof (cases "recv_init a p")
  case None
  then have "\<not> calloc_ok a" by (auto simp: recv_init_def split: if_splits)
  then show ?thesis using None assms(1,2) by (auto simp: recive_from_http_api_def)
next
  case (Some p1)
  note p1 = recv_init_ok [OF assms(1,2) Some]
  then obtain b0 where b0: "str p1 = Some b0" by blast
  have ok: "pstr_ok p1" "pstr_text p1 = pstr_text p" "unat (len p1) = unat (len p)" "unat (size p1) \<le> 3 * unat (len p) + 10"
    using p1 by (auto simp: pstr_small_def)
  have nb: "length b < 2 ^ 32" using assms(3) by simp
  show ?thesis
  proof (cases "unat (len p1) + length b < unat (size p1)")
    case True
    then show ?thesis using recv_fits [OF b0 ok(1) True nb, of a] ok recv_started [OF Some] by (auto simp: pstr_small_def)
  next
    case False
    have small: "2 * unat (size p1) + length b + 1 < 2 ^ 32" and le: "unat (size p1) \<le> unat (len p1) + length b"
      using False assms(3) ok(3,4) by simp_all
    show ?thesis
    proof (cases "realloc_ok a")
      case True
      obtain p' where "recive_from_http_api a b p1 = Some (of_nat (length b), p')" "pstr_ok p'" "unat (size p') = 2 * unat (size p1) + length b + 1"
        "unat (len p') = unat (len p1) + length b" "pstr_text p' = pstr_text p1 @ b" using recv_grow [OF b0 ok(1) le small True] by blast
      then show ?thesis using ok le recv_started [OF Some] by (auto simp: pstr_small_def)
    next
      case re: False
      have "new_size p1 (of_nat (length b)) \<noteq> 0" using new_size_small [OF small] by (metis add_is_0 unat_0 zero_neq_one)
      then have "recv_room a (of_nat (length b)) p1 = Some None" using le re room_step [OF b0 ok(1) nb] by (simp add: recv_room_def)
      then show ?thesis using Some p1 re by (auto simp: recive_from_http_api_def Let_def)
    qed
  qed
qed

section \<open>Transfers\<close>

fun header_bytes :: "(callback \<times> alloc) list \<Rightarrow> byte list" where
  "header_bytes [] = []"
| "header_bytes ((Header b, _) # cs) = b @ header_bytes cs"
| "header_bytes ((Data b, _) # cs) = header_bytes cs"

fun data_bytes :: "(callback \<times> alloc) list \<Rightarrow> byte list" where
  "data_bytes [] = []"
| "data_bytes ((Header b, _) # cs) = data_bytes cs"
| "data_bytes ((Data b, _) # cs) = b @ data_bytes cs"

definition result_ok :: "curl_result_string \<Rightarrow> bool" where
  "result_ok r \<longleftrightarrow> pstr_ok (headers r) \<and> pstr_small (headers r) \<and> pstr_ok (data r) \<and> pstr_small (data r)"

definition fits :: "nat \<Rightarrow> bool" where
  "fits n \<longleftrightarrow> 3 * n + 11 < 2 ^ 32"

text \<open>The first \<open>k\<close> callbacks have been taken; the transfer ends early only when memory does.\<close>

lemma perform_ok:
  assumes "result_ok r" "fits (length (pstr_text (headers r)) + length (header_bytes cs))" "fits (length (pstr_text (data r)) + length (data_bytes cs))"
  shows "\<exists>ret r' k. perform cs code r = Some (ret, r') \<and> result_ok r' \<and> k \<le> length cs \<and>
    pstr_text (headers r') = pstr_text (headers r) @ header_bytes (take k cs) \<and> pstr_text (data r') = pstr_text (data r) @ data_bytes (take k cs) \<and>
    (k = length cs \<and> ret = code \<or> ret = CURLE_WRITE_ERROR \<and> (\<exists>(c, a) \<in> set cs. \<not> (calloc_ok a \<and> realloc_ok a)))"
  using assms
proof (induction cs arbitrary: r)
  case (Cons ca cs)
  obtain c a where ca: "ca = (c, a)" by (cases ca)
  show ?case
  proof (cases c)
    case (Header b)
    have "3 * (unat (len (headers r)) + length b) + 11 < 2 ^ 32"
      using Cons.prems ca Header by (simp add: fits_def result_ok_def pstr_text_length)
    then obtain n p where p: "recive_from_http_api a b (headers r) = Some (n, p)" "pstr_ok p" "pstr_small p"
      "n = of_nat (length b) \<and> pstr_text p = pstr_text (headers r) @ b \<or> n = 0 \<and> pstr_text p = pstr_text (headers r) \<and> \<not> (calloc_ok a \<and> realloc_ok a)"
      using recive_ok Cons.prems(1) unfolding result_ok_def by blast
    let ?r = "r\<lparr>headers := p\<rparr>"
    have sel: "headers ?r = p" "data ?r = data r" by simp_all
    have ok: "result_ok ?r" using p(2,3) Cons.prems(1) by (simp add: result_ok_def)
    show ?thesis
    proof (cases "n = of_nat (length b)")
      case False
      then show ?thesis using p ok ca Header
        by (intro exI [of _ CURLE_WRITE_ERROR] exI [of _ ?r] exI [of _ 0]) (auto simp: split_beta)
    next
      case True
      have "length b < 2 ^ 32" using \<open>3 * (unat (len (headers r)) + length b) + 11 < 2 ^ 32\<close> by simp
      then have "n = 0 \<Longrightarrow> b = []" using True by (simp add: word_unat_eq_iff unat_of_nat take_bit_eq_mod)
      then have t: "pstr_text p = pstr_text (headers r) @ b" using p(4) by auto
      have f: "fits (length (pstr_text (headers ?r)) + length (header_bytes cs))" "fits (length (pstr_text (data ?r)) + length (data_bytes cs))"
        using Cons.prems(2,3) ca Header t by (simp_all add: add.assoc)
      obtain ret r' k where ih: "perform cs code ?r = Some (ret, r')" "result_ok r'" "k \<le> length cs"
        "pstr_text (headers r') = pstr_text p @ header_bytes (take k cs)" "pstr_text (data r') = pstr_text (data r) @ data_bytes (take k cs)"
        "k = length cs \<and> ret = code \<or> ret = CURLE_WRITE_ERROR \<and> (\<exists>(c, a) \<in> set cs. \<not> (calloc_ok a \<and> realloc_ok a))"
        using Cons.IH [OF ok f, unfolded sel] by blast
      then show ?thesis using p(1) t True ca Header
        by (intro exI [of _ ret] exI [of _ r'] exI [of _ "Suc k"]) auto
    qed
  next
    case (Data b)
    have "3 * (unat (len (data r)) + length b) + 11 < 2 ^ 32"
      using Cons.prems ca Data by (simp add: fits_def result_ok_def pstr_text_length)
    then obtain n p where p: "recive_from_http_api a b (data r) = Some (n, p)" "pstr_ok p" "pstr_small p"
      "n = of_nat (length b) \<and> pstr_text p = pstr_text (data r) @ b \<or> n = 0 \<and> pstr_text p = pstr_text (data r) \<and> \<not> (calloc_ok a \<and> realloc_ok a)"
      using recive_ok Cons.prems(1) unfolding result_ok_def by blast
    let ?r = "r\<lparr>data := p\<rparr>"
    have sel: "data ?r = p" "headers ?r = headers r" by simp_all
    have ok: "result_ok ?r" using p(2,3) Cons.prems(1) by (simp add: result_ok_def)
    show ?thesis
    proof (cases "n = of_nat (length b)")
      case False
      then show ?thesis using p ok ca Data
        by (intro exI [of _ CURLE_WRITE_ERROR] exI [of _ ?r] exI [of _ 0]) (auto simp: split_beta)
    next
      case True
      have "length b < 2 ^ 32" using \<open>3 * (unat (len (data r)) + length b) + 11 < 2 ^ 32\<close> by simp
      then have "n = 0 \<Longrightarrow> b = []" using True by (simp add: word_unat_eq_iff unat_of_nat take_bit_eq_mod)
      then have t: "pstr_text p = pstr_text (data r) @ b" using p(4) by auto
      have f: "fits (length (pstr_text (headers ?r)) + length (header_bytes cs))" "fits (length (pstr_text (data ?r)) + length (data_bytes cs))"
        using Cons.prems(2,3) ca Data t by (simp_all add: add.assoc)
      obtain ret r' k where ih: "perform cs code ?r = Some (ret, r')" "result_ok r'" "k \<le> length cs"
        "pstr_text (headers r') = pstr_text (headers r) @ header_bytes (take k cs)" "pstr_text (data r') = pstr_text p @ data_bytes (take k cs)"
        "k = length cs \<and> ret = code \<or> ret = CURLE_WRITE_ERROR \<and> (\<exists>(c, a) \<in> set cs. \<not> (calloc_ok a \<and> realloc_ok a))"
        using Cons.IH [OF ok f, unfolded sel] by blast
      then show ?thesis using p(1) t True ca Data
        by (intro exI [of _ ret] exI [of _ r'] exI [of _ "Suc k"]) auto
    qed
  qed
qed simp


section \<open>Properties\<close>

text \<open>C36: a request collects the answer. For answers of up to 1.4 GB each, whatever memory does, no access
  leaves a buffer; both buffers are terminated and hold a beginning of what the library delivered, in
  order, all of it unless memory ran out. The result is the number of bytes collected, as an \<open>int\<close>, also
  when the transfer failed: it is not 0 for a transfer that fails after some bytes.\<close>

theorem curl_post_collects:
  assumes "transfer (set_cookies save send ((set_ssl url (set_method meth pd c))\<lparr>CURLOPT_URL := url, CURLOPT_TIMEOUT := tmo, CURLOPT_CONNECTTIMEOUT := ctmo\<rparr>)) = (cs, code)"
    and "length (header_bytes cs) \<le> 1400000000" "length (data_bytes cs) \<le> 1400000000"
  shows "\<exists>v c' r err' k. ctapi_curl_post transfer strerror c url meth pd save send ctmo tmo err esz = Some (v, c', r, err') \<and>
    pstr_text (headers r) = header_bytes (take k cs) \<and> pstr_text (data r) = data_bytes (take k cs) \<and> pstr_ok (headers r) \<and> pstr_ok (data r) \<and>
    ((\<forall>(_, a) \<in> set cs. calloc_ok a \<and> realloc_ok a) \<longrightarrow> take k cs = cs \<and> (code = CURLE_OK \<longrightarrow> err' = err)) \<and>
    (length (pstr_text (headers r)) + length (pstr_text (data r)) < 2 ^ 31 \<longrightarrow> v = int (length (pstr_text (headers r)) + length (pstr_text (data r))))"
proof -
  have f: "fits (length (pstr_text (headers \<lparr>headers = pstr0, data = pstr0\<rparr>)) + length (header_bytes cs))"
    "fits (length (pstr_text (data \<lparr>headers = pstr0, data = pstr0\<rparr>)) + length (data_bytes cs))" using assms(2,3) by (simp_all add: fits_def)
  have ok: "result_ok \<lparr>headers = pstr0, data = pstr0\<rparr>" by (simp add: result_ok_def)
  have sel: "headers \<lparr>headers = pstr0, data = pstr0\<rparr> = pstr0" "data \<lparr>headers = pstr0, data = pstr0\<rparr> = pstr0" by simp_all
  obtain ret r k where p: "perform cs code \<lparr>headers = pstr0, data = pstr0\<rparr> = Some (ret, r)" "result_ok r" "k \<le> length cs"
    "pstr_text (headers r) = header_bytes (take k cs)" "pstr_text (data r) = data_bytes (take k cs)"
    "k = length cs \<and> ret = code \<or> ret = CURLE_WRITE_ERROR \<and> (\<exists>(c, a) \<in> set cs. \<not> (calloc_ok a \<and> realloc_ok a))"
    using perform_ok [OF ok f, of code, unfolded sel pstr0_ok append_Nil] by blast
  let ?n = "length (pstr_text (headers r)) + length (pstr_text (data r))"
  let ?err = "if ret \<noteq> CURLE_OK \<and> 0 < esz then take (esz - 1) (''curl_easy_perform() failed:'' @ strerror ret @ '', url:'' @ url) else err"
  have "sint (ucast (len (headers r) + len (data r)) :: u32) = int ?n" if "?n < 2 ^ 31"
  proof -
    have n: "unat (len (headers r)) + unat (len (data r)) = ?n" using p(2) by (simp add: result_ok_def pstr_text_length)
    then have "unat (len (headers r) + len (data r)) = ?n" using that by (simp add: unat_add_64)
    moreover have "take_bit 32 ?n = ?n" using that by (intro take_bit_nat_eq_self) simp
    ultimately have "uint (ucast (len (headers r) + len (data r)) :: u32) = int ?n"
      by (simp only: uint_nat unsigned_ucast_eq) simp
    then show ?thesis unfolding sint_uint using that by (simp only:) (simp add: signed_take_bit_int_eq_self_iff)
  qed
  moreover have "ctapi_curl_post transfer strerror c url meth pd save send ctmo tmo err esz = Some (sint (ucast (len (headers r) + len (data r)) :: u32),
      set_cookies save send ((set_ssl url (set_method meth pd c))\<lparr>CURLOPT_URL := url, CURLOPT_TIMEOUT := tmo, CURLOPT_CONNECTTIMEOUT := ctmo\<rparr>), r, ?err)"
    using assms(1) p(1) by (simp add: ctapi_curl_post_def)
  ultimately show ?thesis using p(2-6) unfolding result_ok_def by (intro exI conjI) auto
qed

text \<open>Chunks of 16384 bytes, the largest libcurl delivers: the sizes the buffer takes.\<close>

definition chunk_size :: "nat \<Rightarrow> nat" where
  "chunk_size i = 2 ^ i * 32790 - 16385"

lemma chunk_size_Suc: "chunk_size (Suc i) = 2 * chunk_size i + 16385"
proof -
  have "16385 \<le> 2 ^ i * (32790 :: nat)" by (rule order_trans [of _ "1 * 32790"]) (auto intro: mult_le_mono1)
  then show ?thesis by (simp add: chunk_size_def)
qed

lemma chunk_size_mono: "i \<le> j \<Longrightarrow> chunk_size i \<le> chunk_size j"
  by (induction rule: inc_induct) (simp_all add: chunk_size_Suc)

lemma chunk_size_16: "chunk_size 16 = 2148909055"
  by (simp add: chunk_size_def)

lemma chunk_step:
  assumes "pstr_ok p" "str p \<noteq> None" "unat (size p) = chunk_size i" "i \<le> 16" "length b = 16384" "realloc_ok a"
  shows "recive_from_http_api a b p = None \<or>
    (\<exists>p' j. recive_from_http_api a b p = Some (of_nat (length b), p') \<and> pstr_ok p' \<and> str p' \<noteq> None \<and> unat (size p') = chunk_size j \<and> j \<le> 16 \<and>
      unat (len p') = unat (len p) + 16384)"
proof -
  obtain b0 where b0: "str p = Some b0" using assms(2) by blast
  have lt: "unat (len p) < unat (size p)" using assms(1) b0 by (simp add: pstr_ok_def)
  consider "unat (len p) + length b < unat (size p)" | "unat (size p) \<le> unat (len p) + length b" "i < 16" | "unat (size p) \<le> unat (len p) + length b" "i = 16"
    using assms(4) by linarith
  then show ?thesis
  proof cases
    case 1
    have nb: "length b < 2 ^ 32" using assms(5) by simp
    show ?thesis using recv_fits [OF b0 assms(1) 1 nb, of a] assms(3-5) by auto
  next
    case 2
    have "chunk_size (Suc i) \<le> chunk_size 16" using 2(2) by (intro chunk_size_mono) simp
    then have "2 * unat (size p) + length b + 1 < 2 ^ 32" using assms(3,5) by (simp add: chunk_size_Suc chunk_size_16)
    from recv_grow [OF b0 assms(1) 2(1) this assms(6)] show ?thesis
      using assms(3,5) 2(2) chunk_size_Suc [of i] by (auto intro!: exI [of _ "Suc i"])
  next
    case 3
    have s: "unat (size p) = 2148909055" using assms(3) 3(2) chunk_size_16 by simp
    have "unat (size p * 2 + of_nat (length b) + 1 :: u64) = 4297834495"
      using s assms(5) by (simp add: unat_word_ariths unat_of_nat take_bit_eq_mod)
    then have "unat (new_size p (of_nat (length b))) = 2867199"
      by (simp add: new_size_def unsigned_ucast_eq take_bit_eq_mod)
    then show ?thesis using recv_overrun [OF b0 assms(1) 3(1) _ assms(6)] assms(5) s lt 3(1) by simp
  qed
qed

lemma chunks_overrun:
  assumes "pstr_ok (data r)" "str (data r) \<noteq> None" "unat (size (data r)) = chunk_size i" "i \<le> 16" "realloc_ok a"
    and "\<forall>b \<in> set bs. length b = 16384" "2148909055 \<le> unat (len (data r)) + 16384 * length bs"
  shows "perform (map (\<lambda>b. (Data b, a)) bs) code r = None"
  using assms
proof (induction bs arbitrary: r i)
  case Nil
  have "unat (len (data r)) < chunk_size 16" using Nil(1-4) chunk_size_mono [of i 16] by (auto simp: pstr_ok_def)
  then show ?case using Nil(7) by (simp add: chunk_size_16)
next
  case (Cons b bs)
  have b: "length b = 16384" using Cons.prems(6) by simp
  from chunk_step [OF Cons.prems(1-4) b Cons.prems(5)] show ?case
  proof
    assume "\<exists>p' j. recive_from_http_api a b (data r) = Some (of_nat (length b), p') \<and> pstr_ok p' \<and> str p' \<noteq> None \<and> unat (size p') = chunk_size j \<and> j \<le> 16 \<and>
      unat (len p') = unat (len (data r)) + 16384"
    then obtain p' j where p': "recive_from_http_api a b (data r) = Some (of_nat (length b), p')" "pstr_ok p'" "str p' \<noteq> None" "unat (size p') = chunk_size j" "j \<le> 16"
      "unat (len p') = unat (len (data r)) + 16384" by blast
    have "perform (map (\<lambda>b. (Data b, a)) bs) code (r\<lparr>data := p'\<rparr>) = None"
      using p'(2-6) Cons.prems(5-7) by (intro Cons.IH [of _ j]) auto
    then show ?thesis using p'(1) by simp
  qed simp
qed

text \<open>A body of more than 2148925439 bytes that arrives in chunks of 16384 bytes overruns its buffer
  although every allocation succeeds: the doubled size does not fit the \<open>unsigned int\<close> it is kept in,
  so that the buffer is made smaller than what is copied.\<close>

theorem curl_body_overruns:
  assumes "\<forall>b \<in> set bs. length b = 16384" "131160 \<le> length bs" "calloc_ok a" "realloc_ok a"
  shows "perform (map (\<lambda>b. (Data b, a)) bs) code \<lparr>headers = pstr0, data = pstr0\<rparr> = None"
proof -
  obtain b bs' where bs: "bs = b # bs'" "length b = 16384" using assms(1,2) by (cases bs) auto
  let ?p1 = "\<lparr>str = Some (replicate 10 0), len = 0, size = 10\<rparr> :: pstr_t"
  have i: "recv_init a pstr0 = Some ?p1" using assms(3) by (simp add: recv_init_def pstr0_def BUF_SIZE_def)
  have g: "str ?p1 = Some (replicate 10 0)" "pstr_ok ?p1" "unat (size ?p1) \<le> unat (len ?p1) + length b" "2 * unat (size ?p1) + length b + 1 < 2 ^ 32"
    using bs(2) by (simp_all add: pstr_ok_def)
  from recv_grow [OF g assms(4)] obtain p where p: "recive_from_http_api a b pstr0 = Some (of_nat (length b), p)" "pstr_ok p" "str p \<noteq> None"
    "unat (size p) = 16405" "unat (len p) = 16384" using recv_started [OF i] bs(2) by auto
  have "perform (map (\<lambda>b. (Data b, a)) bs') code \<lparr>headers = pstr0, data = p\<rparr> = None"
    using p assms bs by (intro chunks_overrun [of _ 0]) (auto simp: chunk_size_def)
  then show ?thesis using p(1) bs(1) by simp
qed

text \<open>The options of a POST stay set on the handle: a later request with another method still posts its
  data.\<close>

lemma curl_post_sticky:
  assumes "same_nocase m1 ''POST''" "\<not> same_nocase m2 ''POST''"
  shows "set_method m2 pd2 (set_method m1 (Some d) c) = c\<lparr>CURLOPT_POST := True, CURLOPT_POSTFIELDS := Some d\<rparr>"
  using assms by (simp add: set_method_def)

text \<open>Freeing a result releases each of its buffers once and leaves empty ones.\<close>

lemma curl_free_empty: "pstr_ok (headers (snd (ctapi_curl_free r))) \<and> pstr_ok (data (snd (ctapi_curl_free r))) \<and> fst (ctapi_curl_free (snd (ctapi_curl_free r))) = []"
  by (simp add: ctapi_curl_free_def pstr_ok_def)

section \<open>Examples\<close>

definition mem_ok :: alloc where
  "mem_ok = \<lparr>calloc_ok = True, realloc_ok = True, fresh = (\<lambda>_. 0)\<rparr>"

theorem curl_post_collects_witness:
  "\<exists>c' r err'. ctapi_curl_post (\<lambda>c. (if CURLOPT_URL c = ''http://h/'' then [(Header [72, 10], mem_ok), (Data [104, 105], mem_ok), (Data [33], mem_ok)] else [], 0))
      (\<lambda>_. []) curl_defaults ''http://h/'' ''GET'' None None None 5 5 ''-'' 10 = Some (5, c', r, err') \<and> pstr_text (data r) = [104, 105, 33] \<and> err' = ''-''"
proof -
  let ?cs = "[(Header [72, 10], mem_ok), (Data [104, 105], mem_ok), (Data [33], mem_ok)]"
  let ?t = "\<lambda>c. (if CURLOPT_URL c = ''http://h/'' then ?cs else [], 0)"
  have t: "?t (set_cookies None None ((set_ssl ''http://h/'' (set_method ''GET'' None curl_defaults))\<lparr>CURLOPT_URL := ''http://h/'', CURLOPT_TIMEOUT := 5, CURLOPT_CONNECTTIMEOUT := 5\<rparr>)) = (?cs, 0)"
    by (simp add: set_cookies_def)
  have b: "length (header_bytes ?cs) \<le> 1400000000" "length (data_bytes ?cs) \<le> 1400000000" by simp_all
  from curl_post_collects [where transfer = ?t, OF t b, of "\<lambda>_. []" "''-''" 10]
  obtain v c' r err' k where "ctapi_curl_post ?t (\<lambda>_. []) curl_defaults ''http://h/'' ''GET'' None None None 5 5 ''-'' 10 = Some (v, c', r, err')"
    "pstr_text (headers r) = header_bytes (take k ?cs)" "pstr_text (data r) = data_bytes (take k ?cs)" "take k ?cs = ?cs" "err' = ''-''"
    "length (pstr_text (headers r)) + length (pstr_text (data r)) < 2 ^ 31 \<longrightarrow> v = int (length (pstr_text (headers r)) + length (pstr_text (data r)))"
    by (auto simp: mem_ok_def CURLE_OK_def)
  then show ?thesis by auto
qed

theorem curl_body_overruns_witness:
  "perform (map (\<lambda>b. (Data b, mem_ok)) (replicate 131160 (replicate 16384 65))) 0 \<lparr>headers = pstr0, data = pstr0\<rparr> = None"
  by (rule curl_body_overruns) (simp_all add: mem_ok_def)

end
