(* ===== verification/Ctapi_mc.thy ===== *)
theory Ctapi_mc
  imports Prelude
begin

text \<open>
  Model of \<^verbatim>\<open>c/libgs/ctapi_mc/ctapi_mc.c\<close>: setting, getting and deleting one key of a memcached server, with
  a client handle that each function creates and frees. libmemcached is not part of the repository: its
  calls are a parameter over the state of the server. A C string is the list of its bytes before the
  terminator; passing a length beyond a string is undefined, \<open>None\<close>. Log messages are left out.
\<close>

section \<open>The client library\<close>

datatype memcached_return = MEMCACHED_SUCCESS | MEMCACHED_NOTFOUND | MEMCACHED_CONNECTION_FAILURE | MEMCACHED_OTHER

record 's memcached =
  server_list_append :: "byte list \<Rightarrow> int \<Rightarrow> memcached_return"
  server_push :: "byte list \<Rightarrow> int \<Rightarrow> memcached_return"
  memc_set :: "byte list \<Rightarrow> byte list \<Rightarrow> int \<Rightarrow> 's \<Rightarrow> memcached_return \<times> 's"
  memc_get :: "byte list \<Rightarrow> 's \<Rightarrow> memcached_return \<times> byte list option"
  memc_delete :: "byte list \<Rightarrow> 's \<Rightarrow> memcached_return \<times> 's"

section \<open>Operations\<close>

text \<open>The length of the value is kept in a \<open>char\<close>, and the library gets it as a \<open>size_t\<close>: the sign is extended.\<close>

definition value_len :: "byte list \<Rightarrow> u64" where
  "value_len v = scast (word_of_nat (length v) :: byte)"

definition set_mc :: "'s memcached \<Rightarrow> byte list \<Rightarrow> int \<Rightarrow> byte list \<Rightarrow> byte list \<Rightarrow> int \<Rightarrow> 's \<Rightarrow> (int \<times> 's) option" where
  "set_mc L mc_ip mc_port mc_key mc_value expiration s =
    (if server_list_append L mc_ip mc_port = MEMCACHED_SUCCESS \<and> server_push L mc_ip mc_port = MEMCACHED_SUCCESS then do {
       v \<leftarrow> rd_block (mc_value @ [0]) 0 (unat (value_len mc_value));
       case memc_set L mc_key v expiration s of (mrc, s') \<Rightarrow>
         Some (case mrc of MEMCACHED_SUCCESS \<Rightarrow> 0 | MEMCACHED_NOTFOUND \<Rightarrow> 1 | MEMCACHED_CONNECTION_FAILURE \<Rightarrow> 2 | MEMCACHED_OTHER \<Rightarrow> 3, s') }
     else Some (3, s))"

definition get_mc :: "'s memcached \<Rightarrow> byte list \<Rightarrow> int \<Rightarrow> byte list \<Rightarrow> 's \<Rightarrow> byte list option \<times> int" where
  "get_mc L mc_ip mc_port mc_key s =
    (if server_list_append L mc_ip mc_port = MEMCACHED_SUCCESS \<and> server_push L mc_ip mc_port = MEMCACHED_SUCCESS then
       (case memc_get L mc_key s of (mrc, result) \<Rightarrow>
         (result, case mrc of MEMCACHED_SUCCESS \<Rightarrow> 0 | MEMCACHED_NOTFOUND \<Rightarrow> 1 | MEMCACHED_CONNECTION_FAILURE \<Rightarrow> 2 | MEMCACHED_OTHER \<Rightarrow> 3))
     else (None, 2))"

definition delete_mc :: "'s memcached \<Rightarrow> byte list \<Rightarrow> int \<Rightarrow> byte list \<Rightarrow> 's \<Rightarrow> int \<times> 's" where
  "delete_mc L mc_ip mc_port mc_key s =
    (if server_list_append L mc_ip mc_port = MEMCACHED_SUCCESS \<and> server_push L mc_ip mc_port = MEMCACHED_SUCCESS then
       (case memc_delete L mc_key s of (mrc, s') \<Rightarrow>
         (case mrc of MEMCACHED_SUCCESS \<Rightarrow> 0 | MEMCACHED_NOTFOUND \<Rightarrow> 1 | _ \<Rightarrow> 2, s'))
     else (1, s))"

section \<open>Properties\<close>

text \<open>What the documentation of libmemcached promises: a successful set is seen by the next get, and a
  successful delete too.\<close>

definition good_server :: "'s memcached \<Rightarrow> bool" where
  "good_server L \<longleftrightarrow>
    (\<forall>k v e s s'. memc_set L k v e s = (MEMCACHED_SUCCESS, s') \<longrightarrow> memc_get L k s' = (MEMCACHED_SUCCESS, Some v)) \<and>
    (\<forall>k s s'. memc_delete L k s = (MEMCACHED_SUCCESS, s') \<longrightarrow> memc_get L k s' = (MEMCACHED_NOTFOUND, None))"

lemma value_len_cases: "unat (value_len v) = (if length v mod 256 < 128 then length v mod 256 else length v mod 256 + (2 ^ 64 - 256))"
proof -
  obtain n m where n: "n = length v mod 256" and m_def: "m = int n" by blast
  have m: "0 \<le> m" "m < 256" by (simp_all add: m_def n)
  have "uint (word_of_nat (length v) :: byte) = m" by (simp add: uint_nat unat_of_nat take_bit_eq_mod m_def n)
  then have s: "sint (word_of_nat (length v) :: byte) = signed_take_bit 7 m" by (simp add: sint_uint)
  have "signed_take_bit 7 m = (if m < 128 then m else m - 256)"
  proof (cases "m < 128")
    case True
    then show ?thesis using m by (simp add: signed_take_bit_int_eq_self)
  next
    case False
    have "take_bit (Suc 7) m = take_bit (Suc 7) (m - 256)" by (simp add: take_bit_eq_mod)
    then have "signed_take_bit 7 m = signed_take_bit 7 (m - 256)" by (simp only: signed_take_bit_eq_iff_take_bit_eq)
    then show ?thesis using False m by (simp add: signed_take_bit_int_eq_self)
  qed
  then have "uint (value_len v) = take_bit 64 (if m < 128 then m else m - 256)"
    unfolding value_len_def scast_eq s by (simp add: uint_word_of_int_eq)
  also have "\<dots> = (if m < 128 then m else m + (2 ^ 64 - 256))"
  proof (cases "m < 128")
    case False
    have "(m - 256) mod 2 ^ 64 = (m + (2 ^ 64 - 256)) mod 2 ^ 64" using mod_add_self2 [of "m - 256" "2 ^ 64"] by (simp add: algebra_simps)
    then show ?thesis using False m by (simp add: take_bit_eq_mod)
  qed (use m in \<open>simp add: take_bit_eq_mod\<close>)
  finally have "unat (value_len v) = nat (if m < 128 then m else m + (2 ^ 64 - 256))" by (simp only: unat_eq_nat_uint)
  then have "unat (value_len v) = (if n < 128 then n else n + (2 ^ 64 - 256))" by (simp add: m_def nat_add_distrib)
  then show ?thesis unfolding n .
qed


text \<open>A server that cannot be reached is reported as 3 by \<open>set_mc\<close>, as 2 by \<open>get_mc\<close> and as 1, which
  means that the key was not found, by \<open>delete_mc\<close>.\<close>

lemma mc_unreachable:
  assumes "server_list_append L ip p \<noteq> MEMCACHED_SUCCESS \<or> server_push L ip p \<noteq> MEMCACHED_SUCCESS"
  shows "set_mc L ip p k v e s = Some (3, s) \<and> get_mc L ip p k s = (None, 2) \<and> delete_mc L ip p k s = (1, s)"
  using assms by (auto simp: set_mc_def get_mc_def delete_mc_def)

section \<open>Examples\<close>

text \<open>A server that keeps a map.\<close>

definition map_server :: "(byte list \<Rightarrow> byte list option) memcached" where
  "map_server = \<lparr>server_list_append = (\<lambda>_ _. MEMCACHED_SUCCESS), server_push = (\<lambda>_ _. MEMCACHED_SUCCESS),
     memc_set = (\<lambda>k v _ s. (MEMCACHED_SUCCESS, s(k \<mapsto> v))),
     memc_get = (\<lambda>k s. case s k of None \<Rightarrow> (MEMCACHED_NOTFOUND, None) | Some v \<Rightarrow> (MEMCACHED_SUCCESS, Some v)),
     memc_delete = (\<lambda>k s. if s k = None then (MEMCACHED_NOTFOUND, s) else (MEMCACHED_SUCCESS, s(k := None)))\<rparr>"


end
