(* ===== verification/Ctapi_mysql.thy ===== *)
theory Ctapi_mysql
  imports Prelude
begin

text \<open>
  Model of \<^verbatim>\<open>c/libgs/ctapi_mysql/ctapi_mysql.c\<close>: a connection handle that reconnects when the server has
  gone away. The MySQL client library is not part of the repository: it is a state of open connection
  objects, of the statements sent and of the last error number, whose answers are a parameter (one
  \<open>answer\<close> per call). What is relied on is the documentation: a call on a closed or null connection is
  undefined (\<open>None\<close>), \<open>mysql_close (NULL)\<close> does nothing, a failed call sets the error number. The error
  numbers are parameters too. Messages on standard output are left out.
\<close>

section \<open>The client library\<close>

record conn_info =
  ci_timeout :: u32
  ci_charset :: string
  ci_target :: "(string \<times> string \<times> string \<times> string \<times> u32) option"
  ci_autocommit :: bool

record answer =
  an_init :: bool
  an_ret :: int
  an_connect :: bool
  an_errno :: int
  an_result :: "nat option"

record lib =
  conns :: "nat \<rightharpoonup> conn_info"
  next_conn :: nat
  clock :: nat
  answers :: "nat \<Rightarrow> answer"
  stmts :: "(nat \<times> string \<times> int) list"
  last_errno :: int
  ER_ERROR_FIRST :: int
  ER_ERROR_LAST :: int
  CR_SERVER_GONE_ERROR :: int
  CR_SERVER_LOST :: int

definition tick :: "lib \<Rightarrow> answer \<times> lib" where
  "tick l = (answers l (clock l), l\<lparr>clock := clock l + 1\<rparr>)"

definition mysql_init :: "lib \<Rightarrow> nat option \<times> lib" where
  "mysql_init l =
    (case tick l of (a, l1) \<Rightarrow>
       if an_init a then
         (Some (next_conn l1), l1\<lparr>conns := (conns l1)(next_conn l1 \<mapsto> \<lparr>ci_timeout = 0, ci_charset = [], ci_target = None, ci_autocommit = True\<rparr>),
            next_conn := next_conn l1 + 1\<rparr>)
       else (None, l1))"

definition mysql_close :: "nat option \<Rightarrow> lib \<Rightarrow> lib option" where
  "mysql_close m l =
    (case m of None \<Rightarrow> Some l | Some i \<Rightarrow> if i \<in> dom (conns l) then Some (l\<lparr>conns := (conns l)(i := None)\<rparr>) else None)"

text \<open>A call on a connection: its answer, and the information it changes.\<close>

definition on_conn :: "nat option \<Rightarrow> (answer \<Rightarrow> conn_info \<Rightarrow> conn_info) \<Rightarrow> lib \<Rightarrow> (answer \<times> lib) option" where
  "on_conn m f l = do {
     i \<leftarrow> m;
     c \<leftarrow> conns l i;
     case tick l of (a, l1) \<Rightarrow> Some (a, l1\<lparr>conns := (conns l1)(i \<mapsto> f a c)\<rparr>) }"

text \<open>\<open>mysql_real_query\<close> sends the first \<open>sql_len\<close> bytes; an error number other than 0 is a failure.\<close>

definition mysql_real_query :: "nat option \<Rightarrow> string \<Rightarrow> int \<Rightarrow> lib \<Rightarrow> (bool \<times> lib) option" where
  "mysql_real_query m sql sql_len l = do {
     (a, l1) \<leftarrow> on_conn m (\<lambda>_ c. c) l;
     if 0 \<le> sql_len \<and> nat sql_len \<le> length sql + 1 then
       Some (an_errno a \<noteq> 0, l1\<lparr>stmts := stmts l1 @ [(the m, take (nat sql_len) (sql @ [CHR 0x00]), an_errno a)], last_errno := an_errno a\<rparr>)
     else None }"

definition mysql_store_result :: "nat option \<Rightarrow> lib \<Rightarrow> (nat option \<times> lib) option" where
  "mysql_store_result m l = do {
     (a, l1) \<leftarrow> on_conn m (\<lambda>_ c. c) l;
     Some (an_result a, l1\<lparr>last_errno := an_errno a\<rparr>) }"

definition mysql_errno :: "nat option \<Rightarrow> lib \<Rightarrow> (int \<times> lib) option" where
  "mysql_errno m l = do { i \<leftarrow> m; _ \<leftarrow> conns l i; Some (last_errno l, l) }"

section \<open>The handle\<close>

definition MYSQL_CONN_NAME_LEN :: nat where "MYSQL_CONN_NAME_LEN = 128"
definition MYSQL_CONN_TIMEOUT :: u32 where "MYSQL_CONN_TIMEOUT = 3"
definition MYSQL_CHARSET_NAME :: string where "MYSQL_CHARSET_NAME = ''utf8''"
definition MYSQL_CONN_RETRY :: u32 where "MYSQL_CONN_RETRY = 1"

record MYSQL_CONN =
  msp :: "nat option"
  db_host :: string
  db_user :: string
  db_pass :: string
  db_name :: string
  db_port :: u32
  db_conn_timeout :: u32

text \<open>\<open>_mysql_conn\<close> on a handle that is not null (every caller has tested that). A failure before
  \<open>handle->msp\<close> is assigned leaves the handle's pointer as it was.\<close>

definition mysql_conn :: "MYSQL_CONN \<Rightarrow> lib \<Rightarrow> (int \<times> MYSQL_CONN \<times> lib) option" where
  "mysql_conn h l0 =
    (let timeout = (if db_conn_timeout h > 0 then db_conn_timeout h else MYSQL_CONN_TIMEOUT)
     in case mysql_init l0 of
          (None, l1) \<Rightarrow> Some (-1, h, l1)
        | (Some i, l1) \<Rightarrow> do {
            (a2, l2) \<leftarrow> on_conn (Some i) (\<lambda>a c. if an_ret a = 0 then c\<lparr>ci_timeout := timeout\<rparr> else c) l1;
            if an_ret a2 \<noteq> 0 then do { l3 \<leftarrow> mysql_close (Some i) l2; Some (-1, h, l3) }
            else do {
              (a3, l3) \<leftarrow> on_conn (Some i) (\<lambda>a c. if an_ret a = 0 then c\<lparr>ci_charset := MYSQL_CHARSET_NAME\<rparr> else c) l2;
              if an_ret a3 \<noteq> 0 then do { l4 \<leftarrow> mysql_close (Some i) l3; Some (-1, h, l4) }
              else do {
                let h1 = h\<lparr>msp := Some i\<rparr>;
                (a4, l4) \<leftarrow> on_conn (msp h1)
                  (\<lambda>a c. if an_connect a then c\<lparr>ci_target := Some (db_host h1, db_user h1, db_pass h1, db_name h1, db_port h1)\<rparr> else c) l3;
                if \<not> an_connect a4 then do { l5 \<leftarrow> mysql_close (msp h1) l4; Some (-2, h1\<lparr>msp := None\<rparr>, l5) }
                else do { (a5, l5) \<leftarrow> on_conn (msp h1) (\<lambda>a c. c\<lparr>ci_autocommit := True\<rparr>) l4; Some (0, h1, l5) } } } })"

definition mysql_handle_init ::
  "string option \<Rightarrow> string option \<Rightarrow> string option \<Rightarrow> string option \<Rightarrow> u32 \<Rightarrow> u32 \<Rightarrow> bool \<Rightarrow> lib \<Rightarrow> (MYSQL_CONN option \<times> lib) option" where
  "mysql_handle_init host user pass name port conn_timeout calloc_ok l =
    (case (host, user, pass, name) of
       (Some ho, Some us, Some pa, Some na) \<Rightarrow>
         if \<not> calloc_ok then Some (None, l)
         else do {
           (r, h, l1) \<leftarrow> mysql_conn \<lparr>msp = None, db_host = take MYSQL_CONN_NAME_LEN ho, db_user = take MYSQL_CONN_NAME_LEN us,
             db_pass = take MYSQL_CONN_NAME_LEN pa, db_name = take MYSQL_CONN_NAME_LEN na, db_port = port, db_conn_timeout = conn_timeout\<rparr> l;
           Some (if r \<noteq> 0 then None else Some h, l1) }
     | _ \<Rightarrow> Some (None, l))"

text \<open>The loop of \<open>_mysql_query\<close>: at most one reconnection. Leaving it with \<open>break\<close> returns 0, also when the
  connection is lost.\<close>

function query_loop :: "MYSQL_CONN \<Rightarrow> string \<Rightarrow> int \<Rightarrow> u32 \<Rightarrow> bool \<Rightarrow> lib \<Rightarrow> (int \<times> MYSQL_CONN \<times> lib) option" where
  "query_loop h sql_string sql_len options retry_flag l = do {
     (failed, l1) \<leftarrow> mysql_real_query (msp h) sql_string sql_len l;
     if failed then do {
       (err, l2) \<leftarrow> mysql_errno (msp h) l1;
       if ER_ERROR_FIRST l \<le> err \<and> err \<le> ER_ERROR_LAST l then Some (err, h, l2)
       else if err = CR_SERVER_GONE_ERROR l \<or> err = CR_SERVER_LOST l then
         (if retry_flag \<or> options AND MYSQL_CONN_RETRY \<noteq> MYSQL_CONN_RETRY then Some (0, h, l2)
          else do {
            l3 \<leftarrow> mysql_close (msp h) l2;
            (r, h', l4) \<leftarrow> mysql_conn h l3;
            if r \<noteq> 0 then Some (-1, h'\<lparr>msp := None\<rparr>, l4)
            else query_loop h' sql_string sql_len options True l4 })
       else Some (-1, h, l2) }
     else Some (0, h, l1) }"
  by pat_completeness auto
termination by (relation "measure (\<lambda>(_, _, _, _, flag, _). if flag then 0 else 1)") auto

text \<open>Every operation first reconnects a handle without a connection.\<close>

definition reconnect :: "MYSQL_CONN \<Rightarrow> lib \<Rightarrow> (int \<times> MYSQL_CONN \<times> lib) option" where
  "reconnect h l = (if msp h = None then mysql_conn h l else Some (0, h, l))"

definition ct_mysql_query :: "MYSQL_CONN option \<Rightarrow> string option \<Rightarrow> int \<Rightarrow> u32 \<Rightarrow> lib \<Rightarrow> (int \<times> MYSQL_CONN option \<times> lib) option" where
  "ct_mysql_query handle sql_string sql_len options l =
    (case (handle, sql_string) of
       (Some h, Some sql) \<Rightarrow> do {
         (r, h1, l1) \<leftarrow> reconnect h l;
         if r \<noteq> 0 then Some (-1, Some h1, l1)
         else do { (v, h2, l2) \<leftarrow> query_loop h1 sql sql_len options False l1; Some (v, Some h2, l2) } }
     | _ \<Rightarrow> Some (-1, handle, l))"

function store_loop :: "MYSQL_CONN \<Rightarrow> u32 \<Rightarrow> bool \<Rightarrow> lib \<Rightarrow> (nat option \<times> MYSQL_CONN \<times> lib) option" where
  "store_loop h options retry_flag l =
    (if msp h = None then Some (None, h, l)
     else do {
       (res, l1) \<leftarrow> mysql_store_result (msp h) l;
       if res \<noteq> None then Some (res, h, l1)
       else do {
         (err, l2) \<leftarrow> mysql_errno (msp h) l1;
         if ER_ERROR_FIRST l \<le> err \<and> err \<le> ER_ERROR_LAST l then Some (None, h, l2)
         else if err = CR_SERVER_GONE_ERROR l \<or> err = CR_SERVER_LOST l then
           (if retry_flag \<or> options AND MYSQL_CONN_RETRY \<noteq> MYSQL_CONN_RETRY then Some (None, h, l2)
            else do {
              l3 \<leftarrow> mysql_close (msp h) l2;
              (r, h', l4) \<leftarrow> mysql_conn h l3;
              if r \<noteq> 0 then Some (None, h'\<lparr>msp := None\<rparr>, l4)
              else store_loop h' options True l4 })
         else Some (None, h, l2) } })"
  by pat_completeness auto
termination by (relation "measure (\<lambda>(_, _, flag, _). if flag then 0 else 1)") auto

definition ct_mysql_store_result :: "MYSQL_CONN option \<Rightarrow> u32 \<Rightarrow> lib \<Rightarrow> (nat option \<times> MYSQL_CONN option \<times> lib) option" where
  "ct_mysql_store_result handle options l =
    (case handle of
       None \<Rightarrow> Some (None, None, l)
     | Some h \<Rightarrow> do {
         (r, h1, l1) \<leftarrow> reconnect h l;
         if r \<noteq> 0 then Some (None, Some h1, l1)
         else do { (v, h2, l2) \<leftarrow> store_loop h1 options False l1; Some (v, Some h2, l2) } })"

text \<open>\<open>_mysql_options\<close> (with an argument that may be null) and \<open>_mysql_set_server_option\<close>, which both ignore
  the answer of the library.\<close>

definition mysql_setting :: "MYSQL_CONN \<Rightarrow> lib \<Rightarrow> (int \<times> MYSQL_CONN option \<times> lib) option" where
  "mysql_setting h l = do {
     (r, h1, l1) \<leftarrow> reconnect h l;
     if r \<noteq> 0 then Some (-2, Some h1, l1)
     else if msp h1 \<noteq> None then do { (a, l2) \<leftarrow> on_conn (msp h1) (\<lambda>_ c. c) l1; Some (0, Some h1, l2) }
     else Some (-2, Some h1, l1) }"

definition mysql_handle_options :: "MYSQL_CONN option \<Rightarrow> string option \<Rightarrow> lib \<Rightarrow> (int \<times> MYSQL_CONN option \<times> lib) option" where
  "mysql_handle_options handle arg l =
    (case (handle, arg) of (Some h, Some _) \<Rightarrow> mysql_setting h l | _ \<Rightarrow> Some (-1, handle, l))"

definition mysql_set_server_option :: "MYSQL_CONN option \<Rightarrow> lib \<Rightarrow> (int \<times> MYSQL_CONN option \<times> lib) option" where
  "mysql_set_server_option handle l = (case handle of Some h \<Rightarrow> mysql_setting h l | None \<Rightarrow> Some (-1, None, l))"

definition mysql_destroy :: "MYSQL_CONN option \<Rightarrow> lib \<Rightarrow> (int \<times> lib) option" where
  "mysql_destroy handle l =
    (case handle of None \<Rightarrow> Some (-1, l) | Some h \<Rightarrow> do { l1 \<leftarrow> mysql_close (msp h) l; Some (0, l1) })"

definition ct_mysql_connect ::
  "string option \<Rightarrow> u32 \<Rightarrow> string option \<Rightarrow> string option \<Rightarrow> string option \<Rightarrow> u32 \<Rightarrow> bool \<Rightarrow> lib \<Rightarrow> (MYSQL_CONN option \<times> lib) option" where
  "ct_mysql_connect host port user pass name conn_timeout calloc_ok l = mysql_handle_init host user pass name port conn_timeout calloc_ok l"

definition ct_mysql_disconnect :: "MYSQL_CONN option \<Rightarrow> lib \<Rightarrow> lib option" where
  "ct_mysql_disconnect mydb l = (if mydb \<noteq> None then map_option snd (mysql_destroy mydb l) else Some l)"

declare query_loop.simps [simp del] store_loop.simps [simp del]

section \<open>The handle and its connection\<close>

text \<open>The connection a handle asks for, and the invariant: beside the connections \<open>B\<close> of others exactly
  the one the handle points to is open, with the handle's settings; without one none is open.\<close>

definition conn_of :: "MYSQL_CONN \<Rightarrow> conn_info" where
  "conn_of h = \<lparr>ci_timeout = (if db_conn_timeout h > 0 then db_conn_timeout h else MYSQL_CONN_TIMEOUT), ci_charset = MYSQL_CHARSET_NAME,
     ci_target = Some (db_host h, db_user h, db_pass h, db_name h, db_port h), ci_autocommit = True\<rparr>"

definition held :: "(nat \<rightharpoonup> conn_info) \<Rightarrow> MYSQL_CONN \<Rightarrow> lib \<Rightarrow> bool" where
  "held B h l \<longleftrightarrow> dom B \<subseteq> {..<next_conn l} \<and>
    (case msp h of None \<Rightarrow> conns l = B | Some i \<Rightarrow> i < next_conn l \<and> B i = None \<and> conns l = B(i \<mapsto> conn_of h))"

text \<open>The handle's settings and the numbers of the library never change.\<close>

definition same_lib :: "lib \<Rightarrow> lib \<Rightarrow> bool" where
  "same_lib l l' \<longleftrightarrow> answers l' = answers l \<and> ER_ERROR_FIRST l' = ER_ERROR_FIRST l \<and> ER_ERROR_LAST l' = ER_ERROR_LAST l \<and>
    CR_SERVER_GONE_ERROR l' = CR_SERVER_GONE_ERROR l \<and> CR_SERVER_LOST l' = CR_SERVER_LOST l"

definition settings :: "MYSQL_CONN \<Rightarrow> MYSQL_CONN" where
  "settings h = h\<lparr>msp := None\<rparr>"

lemma settings_msp [simp]: "settings (h\<lparr>msp := m\<rparr>) = settings h"
  by (simp add: settings_def)

lemma conn_of_settings: "settings h = settings h' \<Longrightarrow> conn_of h = conn_of h'"
  by (cases h; cases h') (simp add: settings_def conn_of_def)

lemma conn_of_msp [simp]: "conn_of (h\<lparr>msp := m\<rparr>) = conn_of h"
  by (rule conn_of_settings) simp

lemma same_lib_refl [simp]: "same_lib l l"
  by (simp add: same_lib_def)

lemma same_lib_trans: "same_lib l l1 \<Longrightarrow> same_lib l1 l2 \<Longrightarrow> same_lib l l2"
  by (simp add: same_lib_def)

lemma mysql_conn_spec:
  assumes "conns l = B" "dom B \<subseteq> {..<next_conn l}"
  obtains r h' l' where "mysql_conn h l = Some (r, h', l')" "same_lib l l'" "stmts l' = stmts l" "settings h' = settings h"
    "r = 0 \<longrightarrow> held B h' l' \<and> msp h' \<noteq> None" "r \<noteq> 0 \<longrightarrow> held B (h'\<lparr>msp := None\<rparr>) l' \<and> (msp h = None \<longrightarrow> msp h' = None)"
proof -
  have "B (next_conn l) = None" using assms(2) by auto
  then have B: "B(next_conn l := None) = B" by auto
  have sub: "dom B \<subseteq> {..<Suc (next_conn l)}" using assms(2) by auto
  have "\<exists>r h' l'. mysql_conn h l = Some (r, h', l') \<and> same_lib l l' \<and> stmts l' = stmts l \<and> settings h' = settings h \<and>
      (r = 0 \<longrightarrow> held B h' l' \<and> msp h' \<noteq> None) \<and> (r \<noteq> 0 \<longrightarrow> held B (h'\<lparr>msp := None\<rparr>) l' \<and> (msp h = None \<longrightarrow> msp h' = None))"
    using assms B sub \<open>B (next_conn l) = None\<close>
    by (auto simp: mysql_conn_def mysql_init_def tick_def on_conn_def mysql_close_def Let_def same_lib_def held_def conn_of_def
        split: option.splits)
  then show thesis by (elim exE conjE) (rule that)
qed

lemma held_close:
  assumes "held B h l" "msp h = Some i"
  shows "\<exists>l'. mysql_close (msp h) l = Some l' \<and> conns l' = B \<and> dom B \<subseteq> {..<next_conn l'} \<and> same_lib l l' \<and> stmts l' = stmts l"
proof -
  have "B(i := None) = B" using assms by (auto simp: held_def)
  then show ?thesis using assms by (auto simp: held_def mysql_close_def same_lib_def)
qed

lemma held_on_conn:
  assumes "held B h l" "msp h = Some i"
  shows "on_conn (msp h) (\<lambda>_ c. c) l = Some (answers l (clock l), l\<lparr>clock := clock l + 1\<rparr>)"
proof -
  have "(conns l)(i \<mapsto> conn_of h) = conns l" using assms by (simp add: held_def)
  then show ?thesis using assms by (simp add: on_conn_def tick_def held_def)
qed

lemma held_frame: "held B h l \<Longrightarrow> conns l' = conns l \<Longrightarrow> next_conn l' = next_conn l \<Longrightarrow> held B h l'"
  by (simp add: held_def split: option.splits)

lemma reconnect_spec:
  assumes "held B h l"
  obtains r h' l' where "reconnect h l = Some (r, h', l')" "same_lib l l'" "stmts l' = stmts l" "settings h' = settings h" "held B h' l'"
    "r = 0 \<longleftrightarrow> msp h' \<noteq> None" "msp h \<noteq> None \<Longrightarrow> r = 0 \<and> h' = h \<and> l' = l"
proof (cases "msp h")
  case None
  then have "conns l = B" "dom B \<subseteq> {..<next_conn l}" using assms by (auto simp: held_def)
  then obtain r h' l' where c: "mysql_conn h l = Some (r, h', l')" "same_lib l l'" "stmts l' = stmts l" "settings h' = settings h"
    "r = 0 \<longrightarrow> held B h' l' \<and> msp h' \<noteq> None" "r \<noteq> 0 \<longrightarrow> held B (h'\<lparr>msp := None\<rparr>) l' \<and> (msp h = None \<longrightarrow> msp h' = None)"
    by (rule mysql_conn_spec [where h = h])
  have n: "h'\<lparr>msp := None\<rparr> = h'" if "r \<noteq> 0" using c(6) None that by simp
  then show ?thesis using c None n by (intro that [of r h' l']) (auto simp: reconnect_def)
next
  case (Some i)
  then show ?thesis using assms by (intro that [of 0 h l]) (auto simp: reconnect_def)
qed

section \<open>Queries\<close>

text \<open>The value for a statement whose error number is \<open>e\<close> when there is no (further) reconnection.\<close>

definition lost :: "lib \<Rightarrow> int \<Rightarrow> bool" where
  "lost l e \<longleftrightarrow> e \<noteq> 0 \<and> \<not> (ER_ERROR_FIRST l \<le> e \<and> e \<le> ER_ERROR_LAST l) \<and> (e = CR_SERVER_GONE_ERROR l \<or> e = CR_SERVER_LOST l)"

definition verdict :: "lib \<Rightarrow> int \<Rightarrow> int" where
  "verdict l e = (if e = 0 then 0 else if ER_ERROR_FIRST l \<le> e \<and> e \<le> ER_ERROR_LAST l then e else if lost l e then 0 else -1)"

definition retries :: "u32 \<Rightarrow> bool" where
  "retries options \<longleftrightarrow> options AND MYSQL_CONN_RETRY = MYSQL_CONN_RETRY"

lemma same_lib_verdict: "same_lib l l' \<Longrightarrow> verdict l' = verdict l \<and> lost l' = lost l"
  by (auto simp: same_lib_def verdict_def lost_def fun_eq_iff)

text \<open>What \<open>query_loop\<close> returns for the error numbers of the statements it sends.\<close>

fun query_value :: "lib \<Rightarrow> bool \<Rightarrow> int list \<Rightarrow> int" where
  "query_value l again [e] = (if again \<and> lost l e then -1 else verdict l e)"
| "query_value l again [_, e] = verdict l e"
| "query_value l again _ = -1"

lemma query_stop:
  assumes "held B h l" "msp h = Some i" "0 \<le> len" "nat len \<le> length sql + 1" "e = an_errno (answers l (clock l))" "\<not> lost l e \<or> flag \<or> \<not> retries opts"
  shows "\<exists>l'. query_loop h sql len opts flag l = Some (verdict l e, h, l') \<and> same_lib l l' \<and> held B h l' \<and>
    stmts l' = stmts l @ [(i, take (nat len) (sql @ [CHR 0x00]), e)]"
proof -
  let ?l = "l\<lparr>clock := clock l + 1, stmts := stmts l @ [(i, take (nat len) (sql @ [CHR 0x00]), e)], last_errno := e\<rparr>"
  have q: "mysql_real_query (Some i) sql len l = Some (e \<noteq> 0, ?l)"
    using held_on_conn [OF assms(1,2)] assms(2-5) by (simp add: mysql_real_query_def)
  have "mysql_errno (Some i) ?l = Some (e, ?l)" using assms(1,2) by (simp add: mysql_errno_def held_def)
  then have "query_loop h sql len opts flag l = Some (verdict l e, h, ?l)"
    using q assms(2,6) by (subst query_loop.simps) (auto simp: verdict_def lost_def retries_def)
  then show ?thesis using held_frame [OF assms(1), of ?l] by (auto simp: same_lib_def)
qed

lemma query_again:
  assumes "held B h l" "msp h = Some i" "0 \<le> len" "nat len \<le> length sql + 1" "e = an_errno (answers l (clock l))" "lost l e" "retries opts"
  shows "\<exists>l3 r h' l4. same_lib l l3 \<and> conns l3 = B \<and> dom B \<subseteq> {..<next_conn l3} \<and> stmts l3 = stmts l @ [(i, take (nat len) (sql @ [CHR 0x00]), e)] \<and>
    mysql_conn h l3 = Some (r, h', l4) \<and> query_loop h sql len opts False l = (if r \<noteq> 0 then Some (-1, h'\<lparr>msp := None\<rparr>, l4) else query_loop h' sql len opts True l4)"
proof -
  let ?l = "l\<lparr>clock := clock l + 1, stmts := stmts l @ [(i, take (nat len) (sql @ [CHR 0x00]), e)], last_errno := e\<rparr>"
  have q: "mysql_real_query (Some i) sql len l = Some (e \<noteq> 0, ?l)"
    using held_on_conn [OF assms(1,2)] assms(2-5) by (simp add: mysql_real_query_def)
  have en: "mysql_errno (Some i) ?l = Some (e, ?l)" using assms(1,2) by (simp add: mysql_errno_def held_def)
  have "held B h ?l" using held_frame [OF assms(1), of ?l] by simp
  then obtain l3 where l3: "mysql_close (msp h) ?l = Some l3" "conns l3 = B" "dom B \<subseteq> {..<next_conn l3}" "same_lib ?l l3" "stmts l3 = stmts ?l"
    using held_close assms(2) by blast
  obtain r h' l4 where c: "mysql_conn h l3 = Some (r, h', l4)" using mysql_conn_spec [OF l3(2,3)] by blast
  have "query_loop h sql len opts False l = (if r \<noteq> 0 then Some (-1, h'\<lparr>msp := None\<rparr>, l4) else query_loop h' sql len opts True l4)"
    using q en l3(1) c assms(2,6,7) by (subst query_loop.simps) (auto simp: lost_def retries_def)
  then show ?thesis using l3 c by (auto simp: same_lib_def)
qed

lemma query_loop_spec:
  assumes "held B h l" "msp h \<noteq> None" "0 \<le> len" "nat len \<le> length sql + 1" "t = take (nat len) (sql @ [CHR 0x00])"
  shows "\<exists>v h' l' ws. query_loop h sql len opts False l = Some (v, h', l') \<and> same_lib l l' \<and> held B h' l' \<and> settings h' = settings h \<and>
    stmts l' = stmts l @ ws \<and> (\<forall>w \<in> set ws. fst (snd w) = t) \<and>
    length ws \<in> {1, 2} \<and> (length ws = 2 \<longrightarrow> retries opts \<and> lost l (snd (snd (ws ! 0)))) \<and> v = query_value l (retries opts) (map (snd \<circ> snd) ws)"
proof -
  obtain i where i: "msp h = Some i" using assms(2) by blast
  define e where e: "e = an_errno (answers l (clock l))"
  show ?thesis
  proof (cases "lost l e \<and> retries opts")
    case False
    then obtain l' where "query_loop h sql len opts False l = Some (verdict l e, h, l')" "same_lib l l'" "held B h l'"
      "stmts l' = stmts l @ [(i, t, e)]" using query_stop [OF assms(1) i assms(3,4) e] assms(5) by blast
    then show ?thesis using False
      by (intro exI [of _ "verdict l e"] exI [of _ h] exI [of _ l'] exI [of _ "[(i, t, e)]"]) auto
  next
    case True
    then obtain l3 r h' l4 where s: "same_lib l l3" "conns l3 = B" "dom B \<subseteq> {..<next_conn l3}"
      "stmts l3 = stmts l @ [(i, t, e)]" "mysql_conn h l3 = Some (r, h', l4)"
      "query_loop h sql len opts False l = (if r \<noteq> 0 then Some (-1, h'\<lparr>msp := None\<rparr>, l4) else query_loop h' sql len opts True l4)"
      using query_again [OF assms(1) i assms(3,4) e, of opts] assms(5) by blast
    have c: "same_lib l3 l4" "stmts l4 = stmts l3" "settings h' = settings h" "r = 0 \<Longrightarrow> held B h' l4 \<and> msp h' \<noteq> None" "r \<noteq> 0 \<Longrightarrow> held B (h'\<lparr>msp := None\<rparr>) l4"
      using mysql_conn_spec [OF s(2,3), of h] s(5) by (metis Pair_inject option.inject)+
    have l4: "same_lib l l4" using s(1) c(1) same_lib_trans by blast
    show ?thesis
    proof (cases "r = 0")
      case False
      then show ?thesis using s c l4 True
        by (intro exI [of _ "-1"] exI [of _ "h'\<lparr>msp := None\<rparr>"] exI [of _ l4] exI [of _ "[(i, t, e)]"]) auto
    next
      case r: True
      then obtain i' where i': "msp h' = Some i'" "held B h' l4" using c(4) by auto
      define e' where e': "e' = an_errno (answers l4 (clock l4))"
      obtain l' where "query_loop h' sql len opts True l4 = Some (verdict l4 e', h', l')" "same_lib l4 l'" "held B h' l'"
        "stmts l' = stmts l4 @ [(i', t, e')]"
        using query_stop [OF i'(2,1) assms(3,4) e', of True opts] assms(5) by blast
      moreover have "same_lib l l'" using same_lib_trans [OF l4 calculation(2)] .
      moreover have "stmts l' = stmts l @ [(i, t, e), (i', t, e')]" using calculation(4) s(4) c(2) by simp
      moreover have "settings h' = settings h" by (rule c(3))
      moreover have "verdict l4 e' = query_value l (retries opts) (map (snd \<circ> snd) [(i, t, e), (i', t, e')])" using same_lib_verdict [OF l4] by simp
      ultimately show ?thesis using s(6) r True
        by (intro exI [of _ "verdict l4 e'"] exI [of _ h'] exI [of _ l'] exI [of _ "[(i, t, e), (i', t, e')]"]) simp
    qed
  qed
qed


section \<open>Results and settings\<close>

lemma store_stop:
  assumes "held B h l" "msp h = Some i" "res = an_result (answers l (clock l))" "e = an_errno (answers l (clock l))"
    and "res \<noteq> None \<or> ER_ERROR_FIRST l \<le> e \<and> e \<le> ER_ERROR_LAST l \<or> e \<noteq> CR_SERVER_GONE_ERROR l \<and> e \<noteq> CR_SERVER_LOST l \<or> flag \<or> \<not> retries opts"
  shows "\<exists>l'. store_loop h opts flag l = Some (res, h, l') \<and> same_lib l l' \<and> held B h l' \<and> stmts l' = stmts l"
proof -
  let ?l = "l\<lparr>clock := clock l + 1, last_errno := e\<rparr>"
  have q: "mysql_store_result (Some i) l = Some (res, ?l)"
    using held_on_conn [OF assms(1,2)] assms(2-4) by (simp add: mysql_store_result_def)
  have "mysql_errno (Some i) ?l = Some (e, ?l)" using assms(1,2) by (simp add: mysql_errno_def held_def)
  then have "store_loop h opts flag l = Some (res, h, ?l)"
    using q assms(2,5) by (subst store_loop.simps) (auto simp: retries_def)
  then show ?thesis using held_frame [OF assms(1), of ?l] by (auto simp: same_lib_def)
qed

lemma store_again:
  assumes "held B h l" "msp h = Some i" "an_result (answers l (clock l)) = None" "e = an_errno (answers l (clock l))"
    and "\<not> (ER_ERROR_FIRST l \<le> e \<and> e \<le> ER_ERROR_LAST l)" "e = CR_SERVER_GONE_ERROR l \<or> e = CR_SERVER_LOST l" "retries opts"
  shows "\<exists>l3 r h' l4. same_lib l l3 \<and> conns l3 = B \<and> dom B \<subseteq> {..<next_conn l3} \<and> stmts l3 = stmts l \<and>
    mysql_conn h l3 = Some (r, h', l4) \<and> store_loop h opts False l = (if r \<noteq> 0 then Some (None, h'\<lparr>msp := None\<rparr>, l4) else store_loop h' opts True l4)"
proof -
  let ?l = "l\<lparr>clock := clock l + 1, last_errno := e\<rparr>"
  have q: "mysql_store_result (Some i) l = Some (None, ?l)"
    using held_on_conn [OF assms(1,2)] assms(2-4) by (simp add: mysql_store_result_def)
  have en: "mysql_errno (Some i) ?l = Some (e, ?l)" using assms(1,2) by (simp add: mysql_errno_def held_def)
  have "held B h ?l" using held_frame [OF assms(1), of ?l] by simp
  then obtain l3 where l3: "mysql_close (msp h) ?l = Some l3" "conns l3 = B" "dom B \<subseteq> {..<next_conn l3}" "same_lib ?l l3" "stmts l3 = stmts ?l"
    using held_close assms(2) by blast
  obtain r h' l4 where c: "mysql_conn h l3 = Some (r, h', l4)" using mysql_conn_spec [OF l3(2,3)] by blast
  have "store_loop h opts False l = (if r \<noteq> 0 then Some (None, h'\<lparr>msp := None\<rparr>, l4) else store_loop h' opts True l4)"
    using q en l3(1) c assms(2,5-7) by (subst store_loop.simps) (auto simp: retries_def)
  then show ?thesis using l3 c by (auto simp: same_lib_def)
qed

lemma store_loop_spec:
  assumes "held B h l" "msp h \<noteq> None"
  shows "\<exists>v h' l'. store_loop h opts False l = Some (v, h', l') \<and> same_lib l l' \<and> held B h' l' \<and> settings h' = settings h \<and> stmts l' = stmts l"
proof -
  obtain i where i: "msp h = Some i" using assms(2) by blast
  define e res where e: "e = an_errno (answers l (clock l))" and res: "res = an_result (answers l (clock l))"
  show ?thesis
  proof (cases "res \<noteq> None \<or> ER_ERROR_FIRST l \<le> e \<and> e \<le> ER_ERROR_LAST l \<or> e \<noteq> CR_SERVER_GONE_ERROR l \<and> e \<noteq> CR_SERVER_LOST l \<or> \<not> retries opts")
    case True
    then show ?thesis using store_stop [OF assms(1) i res e, of False opts] by blast
  next
    case False
    then obtain l3 r h' l4 where s: "same_lib l l3" "conns l3 = B" "dom B \<subseteq> {..<next_conn l3}" "stmts l3 = stmts l" "mysql_conn h l3 = Some (r, h', l4)"
      "store_loop h opts False l = (if r \<noteq> 0 then Some (None, h'\<lparr>msp := None\<rparr>, l4) else store_loop h' opts True l4)"
      using store_again [OF assms(1) i _ e, of opts] res by blast
    have c: "same_lib l3 l4" "stmts l4 = stmts l3" "settings h' = settings h" "r = 0 \<Longrightarrow> held B h' l4 \<and> msp h' \<noteq> None" "r \<noteq> 0 \<Longrightarrow> held B (h'\<lparr>msp := None\<rparr>) l4"
      using mysql_conn_spec [OF s(2,3), of h] s(5) by (metis Pair_inject option.inject)+
    have l4: "same_lib l l4" using s(1) c(1) same_lib_trans by blast
    show ?thesis
    proof (cases "r = 0")
      case False
      then show ?thesis using s c l4 by (intro exI [of _ None] exI [of _ "h'\<lparr>msp := None\<rparr>"] exI [of _ l4]) auto
    next
      case r: True
      then obtain i' where i': "msp h' = Some i'" "held B h' l4" using c(4) by auto
      obtain v l' where "store_loop h' opts True l4 = Some (v, h', l')" "same_lib l4 l'" "held B h' l'" "stmts l' = stmts l4"
        using store_stop [OF i'(2,1) refl refl, of True opts] by blast
      moreover have "same_lib l l'" using same_lib_trans [OF l4 calculation(2)] .
      ultimately show ?thesis using s(4,6) c(2,3) r by (intro exI [of _ v] exI [of _ h'] exI [of _ l']) simp
    qed
  qed
qed

lemma mysql_setting_spec:
  assumes "held B h l"
  shows "\<exists>v h' l'. mysql_setting h l = Some (v, Some h', l') \<and> same_lib l l' \<and> held B h' l' \<and> settings h' = settings h \<and> stmts l' = stmts l"
proof -
  obtain r h1 l1 where r: "reconnect h l = Some (r, h1, l1)" "same_lib l l1" "stmts l1 = stmts l" "settings h1 = settings h" "held B h1 l1"
    "r = 0 \<longleftrightarrow> msp h1 \<noteq> None" by (rule reconnect_spec [OF assms]) blast
  show ?thesis
  proof (cases "msp h1")
    case None
    then show ?thesis using r by (auto simp: mysql_setting_def)
  next
    case (Some i)
    have o: "on_conn (msp h1) (\<lambda>_ c. c) l1 = Some (answers l1 (clock l1), l1\<lparr>clock := clock l1 + 1\<rparr>)" by (rule held_on_conn [OF r(5) Some])
    have "held B h1 (l1\<lparr>clock := clock l1 + 1\<rparr>)" using held_frame [OF r(5)] by simp
    then show ?thesis using r Some o by (auto simp: mysql_setting_def same_lib_def)
  qed
qed

section \<open>Histories\<close>

datatype mysql_op = Query string int u32 | Store_result u32 | Options string | Set_server_option

definition valid_op :: "mysql_op \<Rightarrow> bool" where
  "valid_op x \<longleftrightarrow> (case x of Query sql len _ \<Rightarrow> 0 \<le> len \<and> nat len \<le> length sql + 1 | _ \<Rightarrow> True)"

definition mysql_exec :: "mysql_op \<Rightarrow> MYSQL_CONN option \<times> lib \<Rightarrow> (MYSQL_CONN option \<times> lib) option" where
  "mysql_exec x s =
    (case x of
       Query sql len opts \<Rightarrow> map_option snd (ct_mysql_query (fst s) (Some sql) len opts (snd s))
     | Store_result opts \<Rightarrow> map_option snd (ct_mysql_store_result (fst s) opts (snd s))
     | Options arg \<Rightarrow> map_option snd (mysql_handle_options (fst s) (Some arg) (snd s))
     | Set_server_option \<Rightarrow> map_option snd (mysql_set_server_option (fst s) (snd s)))"

primrec mysql_run :: "mysql_op list \<Rightarrow> MYSQL_CONN option \<times> lib \<Rightarrow> (MYSQL_CONN option \<times> lib) option" where
  "mysql_run [] s = Some s"
| "mysql_run (x # xs) s = Option.bind (mysql_exec x s) (mysql_run xs)"

lemma same_lib_value: "same_lib l l' \<Longrightarrow> query_value l' a es = query_value l a es"
  by (induction l' a es rule: query_value.induct) (simp_all add: same_lib_verdict)

lemma ct_mysql_query_spec:
  assumes "held B h l" "0 \<le> len" "nat len \<le> length sql + 1" "t = take (nat len) (sql @ [CHR 0x00])"
  shows "\<exists>v h' l' ws. ct_mysql_query (Some h) (Some sql) len opts l = Some (v, Some h', l') \<and> same_lib l l' \<and> held B h' l' \<and> settings h' = settings h \<and>
    stmts l' = stmts l @ ws \<and> (\<forall>w \<in> set ws. fst (snd w) = t) \<and> length ws \<le> 2 \<and> (length ws = 2 \<longrightarrow> retries opts \<and> lost l (snd (snd (ws ! 0)))) \<and>
    v = query_value l (retries opts) (map (snd \<circ> snd) ws) \<and> (ws = [] \<longrightarrow> msp h = None)"
proof -
  obtain r h1 l1 where r: "reconnect h l = Some (r, h1, l1)" "same_lib l l1" "stmts l1 = stmts l" "settings h1 = settings h" "held B h1 l1"
    "r = 0 \<longleftrightarrow> msp h1 \<noteq> None" "r \<noteq> 0 \<longrightarrow> msp h = None"
    by (rule reconnect_spec [OF assms(1)]) (rule that, assumption+, blast)
  show ?thesis
  proof (cases "r = 0")
    case False
    then show ?thesis using r by (intro exI [of _ "-1"] exI [of _ h1] exI [of _ l1] exI [of _ "[]"]) (auto simp: ct_mysql_query_def)
  next
    case True
    then obtain v h' l' ws where q: "query_loop h1 sql len opts False l1 = Some (v, h', l')" "same_lib l1 l'" "held B h' l'" "settings h' = settings h1"
      "stmts l' = stmts l1 @ ws" "\<forall>w \<in> set ws. fst (snd w) = t" "length ws \<in> {1, 2}" "length ws = 2 \<longrightarrow> retries opts \<and> lost l1 (snd (snd (ws ! 0)))"
      "v = query_value l1 (retries opts) (map (snd \<circ> snd) ws)"
      using query_loop_spec [OF r(5) _ assms(2-4), of opts] r(6) by blast
    then show ?thesis using r True same_lib_value [OF r(2)] same_lib_trans [OF r(2) q(2)] same_lib_verdict [OF r(2)]
      by (intro exI [of _ v] exI [of _ h'] exI [of _ l'] exI [of _ ws]) (auto simp: ct_mysql_query_def)
  qed
qed

lemma ct_mysql_store_spec:
  assumes "held B h l"
  shows "\<exists>v h' l'. ct_mysql_store_result (Some h) opts l = Some (v, Some h', l') \<and> same_lib l l' \<and> held B h' l' \<and> settings h' = settings h \<and> stmts l' = stmts l"
proof -
  obtain r h1 l1 where r: "reconnect h l = Some (r, h1, l1)" "same_lib l l1" "stmts l1 = stmts l" "settings h1 = settings h" "held B h1 l1"
    "r = 0 \<longleftrightarrow> msp h1 \<noteq> None" by (rule reconnect_spec [OF assms(1)]) blast
  show ?thesis
  proof (cases "r = 0")
    case False
    then show ?thesis using r by (auto simp: ct_mysql_store_result_def)
  next
    case True
    then obtain v h' l' where q: "store_loop h1 opts False l1 = Some (v, h', l')" "same_lib l1 l'" "held B h' l'" "settings h' = settings h1" "stmts l' = stmts l1"
      using store_loop_spec [OF r(5), of opts] r(6) by blast
    then show ?thesis using r True same_lib_trans [OF r(2) q(2)] by (auto simp: ct_mysql_store_result_def)
  qed
qed

lemma mysql_exec_spec:
  assumes "held B h l" "valid_op x"
  shows "\<exists>h' l'. mysql_exec x (Some h, l) = Some (Some h', l') \<and> held B h' l' \<and> settings h' = settings h"
proof (cases x)
  case (Query sql len opts)
  have v: "0 \<le> len" "nat len \<le> length sql + 1" using assms(2) Query by (simp_all add: valid_op_def)
  show ?thesis using ct_mysql_query_spec [OF assms(1) v refl, of opts] Query by (auto simp: mysql_exec_def)
next
  case (Store_result opts)
  then show ?thesis using ct_mysql_store_spec [OF assms(1), of opts] by (auto simp: mysql_exec_def)
qed (use mysql_setting_spec [OF assms(1)] in \<open>auto simp: mysql_exec_def mysql_handle_options_def mysql_set_server_option_def\<close>)

lemma mysql_run_spec:
  assumes "held B h l" "\<forall>x \<in> set xs. valid_op x"
  shows "\<exists>h' l'. mysql_run xs (Some h, l) = Some (Some h', l') \<and> held B h' l' \<and> settings h' = settings h"
  using assms
proof (induction xs arbitrary: h l)
  case (Cons x xs)
  then obtain h1 l1 where "mysql_exec x (Some h, l) = Some (Some h1, l1)" "held B h1 l1" "settings h1 = settings h"
    using mysql_exec_spec [of B h l x] by auto
  then show ?case using Cons.IH [of h1 l1] Cons.prems(2) by auto
qed simp

lemma disconnect_spec:
  assumes "held B h l"
  shows "\<exists>l'. ct_mysql_disconnect (Some h) l = Some l' \<and> conns l' = B"
proof (cases "msp h")
  case None
  then show ?thesis using assms by (auto simp: ct_mysql_disconnect_def mysql_destroy_def mysql_close_def held_def)
next
  case (Some i)
  then show ?thesis using held_close [OF assms Some] by (auto simp: ct_mysql_disconnect_def mysql_destroy_def)
qed

lemma connect_spec:
  assumes "conns l = B" "dom B \<subseteq> {..<next_conn l}"
  shows "\<exists>hd l1. ct_mysql_connect (Some ho) port (Some us) (Some pa) (Some na) tmo calloc_ok l = Some (hd, l1) \<and>
    (case hd of None \<Rightarrow> conns l1 = B
     | Some h \<Rightarrow> held B h l1 \<and> msp h \<noteq> None \<and> settings h = \<lparr>msp = None, db_host = take 128 ho, db_user = take 128 us, db_pass = take 128 pa, db_name = take 128 na,
         db_port = port, db_conn_timeout = tmo\<rparr>)"
proof (cases calloc_ok)
  case True
  let ?h = "\<lparr>msp = None, db_host = take 128 ho, db_user = take 128 us, db_pass = take 128 pa, db_name = take 128 na, db_port = port, db_conn_timeout = tmo\<rparr>"
  obtain r h' l' where c: "mysql_conn ?h l = Some (r, h', l')" "settings h' = settings ?h" "r = 0 \<longrightarrow> held B h' l' \<and> msp h' \<noteq> None"
    "r \<noteq> 0 \<longrightarrow> held B (h'\<lparr>msp := None\<rparr>) l' \<and> (msp ?h = None \<longrightarrow> msp h' = None)"
    by (rule mysql_conn_spec [OF assms, of ?h]) (rule that)
  then show ?thesis using True by (auto simp: ct_mysql_connect_def mysql_handle_init_def MYSQL_CONN_NAME_LEN_def held_def settings_def)
qed (use assms in \<open>simp add: ct_mysql_connect_def mysql_handle_init_def\<close>)

section \<open>Properties\<close>

text \<open>C35: whatever the client library and the server answer, a handle is created, used and destroyed
  without a call on a closed connection. A failed \<open>ct_mysql_connect\<close> leaves no connection behind. After
  any operations the handle is null-pointed and nothing is open for it, or exactly one connection is, made
  with the (cut) settings the caller gave; \<open>ct_mysql_disconnect\<close> closes it. The connections \<open>B\<close> of
  others are never touched.\<close>

theorem mysql_handle_wf:
  assumes "conns l = B" "dom B \<subseteq> {..<next_conn l}"
  shows "\<exists>hd l1. ct_mysql_connect (Some ho) port (Some us) (Some pa) (Some na) tmo calloc_ok l = Some (hd, l1) \<and>
    (case hd of None \<Rightarrow> conns l1 = B
     | Some h \<Rightarrow> (\<forall>xs. (\<forall>x \<in> set xs. valid_op x) \<longrightarrow> (\<exists>h2 l2 l3. mysql_run xs (Some h, l1) = Some (Some h2, l2) \<and>
         (case msp h2 of None \<Rightarrow> conns l2 = B
          | Some i \<Rightarrow> B i = None \<and> conns l2 = B(i \<mapsto> \<lparr>ci_timeout = (if tmo = 0 then 3 else tmo), ci_charset = ''utf8'',
              ci_target = Some (take 128 ho, take 128 us, take 128 pa, take 128 na, port), ci_autocommit = True\<rparr>)) \<and>
         ct_mysql_disconnect (Some h2) l2 = Some l3 \<and> conns l3 = B)))"
proof -
  let ?s = "\<lparr>msp = None, db_host = take 128 ho, db_user = take 128 us, db_pass = take 128 pa, db_name = take 128 na, db_port = port, db_conn_timeout = tmo\<rparr>"
  obtain hd l1 where c: "ct_mysql_connect (Some ho) port (Some us) (Some pa) (Some na) tmo calloc_ok l = Some (hd, l1)"
    "case hd of None \<Rightarrow> conns l1 = B | Some h \<Rightarrow> held B h l1 \<and> msp h \<noteq> None \<and> settings h = ?s"
    using connect_spec [OF assms] by blast
  have run: "\<exists>h2 l2 l3. mysql_run xs (Some h, l1) = Some (Some h2, l2) \<and>
         (case msp h2 of None \<Rightarrow> conns l2 = B
          | Some i \<Rightarrow> B i = None \<and> conns l2 = B(i \<mapsto> \<lparr>ci_timeout = (if tmo = 0 then 3 else tmo), ci_charset = ''utf8'',
              ci_target = Some (take 128 ho, take 128 us, take 128 pa, take 128 na, port), ci_autocommit = True\<rparr>)) \<and>
         ct_mysql_disconnect (Some h2) l2 = Some l3 \<and> conns l3 = B" if h: "hd = Some h" and xs: "\<forall>x \<in> set xs. valid_op x" for h xs
  proof -
    have "held B h l1" "settings h = ?s" using c(2) h by simp_all
    then obtain h2 l2 where r: "mysql_run xs (Some h, l1) = Some (Some h2, l2)" "held B h2 l2" "settings h2 = ?s"
      using mysql_run_spec [OF _ xs, of B h l1] by auto
    obtain l3 where "ct_mysql_disconnect (Some h2) l2 = Some l3" "conns l3 = B" using disconnect_spec [OF r(2)] by blast
    moreover have "conn_of h2 = conn_of ?s" using r(3) by (intro conn_of_settings) (simp add: settings_def)
    ultimately show ?thesis using r(1,2)
      by (auto simp: held_def conn_of_def MYSQL_CONN_TIMEOUT_def MYSQL_CHARSET_NAME_def word_gt_0 split: option.splits)
  qed
  show ?thesis
  proof (cases hd)
    case None
    then show ?thesis using c by (intro exI [of _ hd] exI [of _ l1]) simp
  next
    case (Some h)
    have "\<forall>xs. (\<forall>x \<in> set xs. valid_op x) \<longrightarrow> (\<exists>h2 l2 l3. mysql_run xs (Some h, l1) = Some (Some h2, l2) \<and>
         (case msp h2 of None \<Rightarrow> conns l2 = B
          | Some i \<Rightarrow> B i = None \<and> conns l2 = B(i \<mapsto> \<lparr>ci_timeout = (if tmo = 0 then 3 else tmo), ci_charset = ''utf8'',
              ci_target = Some (take 128 ho, take 128 us, take 128 pa, take 128 na, port), ci_autocommit = True\<rparr>)) \<and>
         ct_mysql_disconnect (Some h2) l2 = Some l3 \<and> conns l3 = B)" using run [OF Some] by blast
    then show ?thesis unfolding c(1) Some by simp
  qed
qed

text \<open>What \<open>ct_mysql_query\<close> returns. It sends the statement once, and a second time only if the caller
  asked for a retry and the connection was lost; the result is 0 for success, the number of a server
  error, -1 for other errors and for a failed reconnection. A statement whose connection is lost for
  good (or without the retry option) also gives 0, although the server has not confirmed it.\<close>

theorem mysql_query_value:
  assumes "held B h l" "0 \<le> len" "nat len \<le> length sql" "i = msp h"
  shows "\<exists>v h' l' ws. ct_mysql_query (Some h) (Some sql) len opts l = Some (v, Some h', l') \<and> held B h' l' \<and> settings h' = settings h \<and>
    stmts l' = stmts l @ ws \<and> (\<forall>w \<in> set ws. fst (snd w) = take (nat len) sql) \<and> length ws \<le> 2 \<and> (i \<noteq> None \<longrightarrow> ws \<noteq> []) \<and>
    (length ws = 2 \<longrightarrow> opts AND 1 = 1 \<and> lost l (snd (snd (ws ! 0)))) \<and>
    (ws = [] \<longrightarrow> v = -1) \<and>
    (ws \<noteq> [] \<longrightarrow> (let e = snd (snd (last ws)) in
       if e = 0 then v = 0
       else if ER_ERROR_FIRST l \<le> e \<and> e \<le> ER_ERROR_LAST l then v = e
       else if lost l e then v = (if length ws = 1 \<and> opts AND 1 = 1 then -1 else 0)
       else v = -1))"
proof -
  have len: "nat len \<le> length sql + 1" using assms(3) by simp
  obtain v h' l' ws where q: "ct_mysql_query (Some h) (Some sql) len opts l = Some (v, Some h', l')" "held B h' l'" "settings h' = settings h"
    "stmts l' = stmts l @ ws" "\<forall>w \<in> set ws. fst (snd w) = take (nat len) sql" "length ws \<le> 2"
    "length ws = 2 \<longrightarrow> retries opts \<and> lost l (snd (snd (ws ! 0)))" "v = query_value l (retries opts) (map (snd \<circ> snd) ws)" "ws = [] \<longrightarrow> msp h = None"
    using ct_mysql_query_spec [OF assms(1,2) len refl, of opts] assms(3) by auto
  have r: "retries opts \<longleftrightarrow> opts AND 1 = 1" by (simp add: retries_def MYSQL_CONN_RETRY_def)
  consider "ws = []" | a where "ws = [a]" | a b where "ws = [a, b]"
    using q(6) by (cases ws; cases "tl ws"; cases "tl (tl ws)") auto
  then have "(ws = [] \<longrightarrow> v = -1) \<and>
    (ws \<noteq> [] \<longrightarrow> (let e = snd (snd (last ws)) in
       if e = 0 then v = 0
       else if ER_ERROR_FIRST l \<le> e \<and> e \<le> ER_ERROR_LAST l then v = e
       else if lost l e then v = (if length ws = 1 \<and> opts AND 1 = 1 then -1 else 0)
       else v = -1))"
    by cases (use q(7,8) r in \<open>auto simp: verdict_def lost_def Let_def\<close>)
  then show ?thesis using q r assms(4) by (intro exI [of _ v] exI [of _ h'] exI [of _ l'] exI [of _ ws]) auto
qed

section \<open>Examples\<close>

text \<open>A library that always connects; the server goes away (2006) during the first statement.\<close>

definition gone_lib :: lib where
  "gone_lib = \<lparr>conns = Map.empty, next_conn = 0, clock = 0,
     answers = (\<lambda>n. \<lparr>an_init = True, an_ret = 0, an_connect = True, an_errno = (if n = 5 then 2006 else 0), an_result = Some 7\<rparr>),
     stmts = [], last_errno = 0, ER_ERROR_FIRST = 1000, ER_ERROR_LAST = 1880, CR_SERVER_GONE_ERROR = 2006, CR_SERVER_LOST = 2013\<rparr>"

theorem mysql_handle_wf_witness:
  "\<exists>h l1 h2 l2 l3. ct_mysql_connect (Some ''db'') 3306 (Some ''u'') (Some ''p'') (Some ''n'') 0 True gone_lib = Some (Some h, l1) \<and>
    mysql_run [Query ''SELECT 1'' 8 1, Store_result 1] (Some h, l1) = Some (Some h2, l2) \<and>
    ct_mysql_disconnect (Some h2) l2 = Some l3 \<and> conns l3 = Map.empty"
proof -
  have "conns gone_lib = Map.empty" "dom Map.empty \<subseteq> {..<next_conn gone_lib}" by (simp_all add: gone_lib_def)
  note wf = mysql_handle_wf [OF this, of "''db''" 3306 "''u''" "''p''" "''n''" 0 True]
  obtain h l1 where c: "ct_mysql_connect (Some ''db'') 3306 (Some ''u'') (Some ''p'') (Some ''n'') 0 True gone_lib = Some (Some h, l1)"
    by (simp add: ct_mysql_connect_def mysql_handle_init_def mysql_conn_def mysql_init_def tick_def on_conn_def gone_lib_def Let_def)
  have run: "\<forall>xs. (\<forall>x \<in> set xs. valid_op x) \<longrightarrow> (\<exists>h2 l2 l3. mysql_run xs (Some h, l1) = Some (Some h2, l2) \<and>
      ct_mysql_disconnect (Some h2) l2 = Some l3 \<and> conns l3 = Map.empty)"
    using wf unfolding c by (fastforce simp del: split_paired_Ex)
  have "\<forall>x \<in> set [Query ''SELECT 1'' 8 1, Store_result 1]. valid_op x" by (simp add: valid_op_def)
  then show ?thesis using c run by blast
qed

theorem mysql_query_value_witness:
  "\<exists>h l h' l'. msp h = Some 0 \<and> ct_mysql_query (Some h) (Some ''DELETE'') 6 0 l = Some (0, Some h', l') \<and> stmts l' = [(0, ''DELETE'', 2006)]"
proof -
  let ?h = "\<lparr>msp = Some 0, db_host = ''db'', db_user = ''u'', db_pass = ''p'', db_name = ''n'', db_port = 3306, db_conn_timeout = 0\<rparr>"
  let ?l = "gone_lib\<lparr>conns := [0 \<mapsto> conn_of ?h], next_conn := 1, clock := 5\<rparr>"
  have "held Map.empty ?h ?l" by (simp add: held_def)
  from mysql_query_value [OF this, of 6 "''DELETE''" "Some 0" 0]
  obtain v h' l' ws where q: "ct_mysql_query (Some ?h) (Some ''DELETE'') 6 0 ?l = Some (v, Some h', l')" "stmts l' = ws" "length ws = 1"
    by (auto simp: gone_lib_def numeral_2_eq_2 le_Suc_eq length_Suc_conv)
  have "ct_mysql_query (Some ?h) (Some ''DELETE'') 6 0 ?l = Some (0, Some ?h, ?l\<lparr>clock := 6, stmts := [(0, ''DELETE'', 2006)], last_errno := 2006\<rparr>)"
    by (simp add: ct_mysql_query_def reconnect_def query_loop.simps mysql_real_query_def on_conn_def tick_def mysql_errno_def gone_lib_def
      MYSQL_CONN_RETRY_def)
  then have "v = 0" "stmts l' = [(0, ''DELETE'', 2006)]" using q(1) by auto
  then show ?thesis using q(1) by (intro exI [of _ ?h] exI [of _ ?l] exI [of _ h'] exI [of _ l']) simp
qed

end
