(* ===== verification/Ctcrypt.thy ===== *)
theory Ctcrypt
  imports Prelude
begin

text \<open>
  Model of \<^verbatim>\<open>c/libgs/ctcrypt/ctcrypt.c\<close>: digests as hexadecimal text. OpenSSL is not part of the
  repository: whether its calls succeed and the digests they compute are parameters. Relied on is the
  documented length of a digest. The output buffer is a list of bytes and its size a \<open>size_t\<close>; the sizes
  passed to \<open>snprintf\<close> wrap as in C, and an access outside a buffer is undefined behaviour, \<open>None\<close>.
\<close>

section \<open>Hexadecimal output\<close>

text \<open>\<open>%x\<close> of a number below 16, and \<open>%02x\<close> of a byte.\<close>

definition x_digit :: "byte \<Rightarrow> byte" where
  "x_digit v = (if v < 10 then 48 + v else 87 + v)"

definition nibbles :: "byte \<Rightarrow> byte list" where
  "nibbles b = [x_digit (drop_bit 4 b AND 0xf), x_digit (b AND 0xf)]"

text \<open>\<open>snprintf (pout + pout_len, out_str_size - pout_len, ...)\<close> of a text, and the loop that adds the length
  of each text to \<open>pout_len\<close>, whether it was written or not.\<close>

definition snprintf_at :: "byte list \<Rightarrow> nat \<Rightarrow> u64 \<Rightarrow> byte list \<Rightarrow> byte list option" where
  "snprintf_at out pout_len n s = (if n = 0 then Some out else memcpy out pout_len (take (unat n - 1) s @ [0]))"

fun hex_loop :: "byte list list \<Rightarrow> nat \<Rightarrow> u64 \<Rightarrow> byte list \<Rightarrow> byte list option" where
  "hex_loop [] pout_len out_size out = Some out"
| "hex_loop (s # ss) pout_len out_size out = do {
     out' \<leftarrow> snprintf_at out pout_len (out_size - of_nat pout_len) s;
     hex_loop ss (pout_len + length s) out_size out' }"

section \<open>MD5 and SHA-1\<close>

record digest_lib =
  d_init :: bool
  d_update :: bool
  d_final :: "byte list \<Rightarrow> byte list option"

text \<open>The digits are printed one by one, for every half of a byte.\<close>

definition digits :: "byte list \<Rightarrow> byte list list" where
  "digits hash_ret = map (\<lambda>c. [c]) (concat (map nibbles hash_ret))"

definition ct_digest :: "digest_lib \<Rightarrow> byte list \<Rightarrow> byte list \<Rightarrow> u64 \<Rightarrow> (int \<times> byte list) option" where
  "ct_digest L data out_str out_str_size =
    (if \<not> d_init L \<or> \<not> d_update L then Some (1, out_str)
     else (case d_final L data of
         None \<Rightarrow> Some (1, out_str)
       | Some hash_ret \<Rightarrow> map_option (Pair 0) (hex_loop (digits hash_ret) 0 out_str_size out_str)))"

definition ct_md5 :: "digest_lib \<Rightarrow> byte list \<Rightarrow> nat \<Rightarrow> byte list \<Rightarrow> u64 \<Rightarrow> (int \<times> byte list) option" where
  "ct_md5 L in_str in_str_len out_str out_str_size = do {
     c \<leftarrow> rd in_str 0;
     if c = 0 \<or> in_str_len = 0 then Some (1, out_str)
     else do { data \<leftarrow> rd_block in_str 0 in_str_len; ct_digest L data out_str out_str_size } }"

definition ct_sha1 :: "digest_lib \<Rightarrow> byte list \<Rightarrow> nat \<Rightarrow> byte list \<Rightarrow> u64 \<Rightarrow> (int \<times> byte list) option" where
  "ct_sha1 L in_str in_str_len out_str out_str_size = do {
     data \<leftarrow> rd_block in_str 0 in_str_len;
     ct_digest L data out_str out_str_size }"

section \<open>HMAC\<close>

datatype evp_md = MD_null | MD2 | MD4 | MD5 | SHA | SHA1 | DSS | DSS1 | ECDSA | SHA224 | SHA256 | SHA384 | SHA512 | RIPEMD160 | WHIRLPOOL

definition evp_names :: "(string \<times> evp_md) list" where
  "evp_names = [(''md2'', MD2), (''md4'', MD4), (''md5'', MD5), (''sha'', SHA), (''sha1'', SHA1), (''dss'', DSS), (''dss1'', DSS1),
     (''ecdsa'', ECDSA), (''sha224'', SHA224), (''sha256'', SHA256), (''sha384'', SHA384), (''sha512'', SHA512),
     (''ripemd160'', RIPEMD160), (''whirlpool'', WHIRLPOOL)]"

fun evp_lookup :: "(string \<times> evp_md) list \<Rightarrow> string \<Rightarrow> evp_md option" where
  "evp_lookup [] algo = None"
| "evp_lookup ((n, e) # ns) algo = (if same_nocase algo n then Some e else evp_lookup ns algo)"

text \<open>The chain of comparisons; a name that is not in it leaves \<open>evp_md\<close> uninitialised (\<open>None\<close>).\<close>

definition evp_of :: "string option \<Rightarrow> evp_md option" where
  "evp_of algo = (case algo of None \<Rightarrow> Some MD_null | Some a \<Rightarrow> evp_lookup evp_names a)"

record hmac_lib =
  h_init :: "evp_md \<Rightarrow> byte list \<Rightarrow> bool"
  h_update :: bool
  h_final :: "evp_md \<Rightarrow> byte list \<Rightarrow> byte list \<Rightarrow> byte list option"

text \<open>\<open>hash_ret\<close> has 20 bytes; \<open>HMAC_Final\<close> writes the whole digest into it and sets its length.\<close>

definition ct_hash_hmac :: "hmac_lib \<Rightarrow> string option \<Rightarrow> byte list \<Rightarrow> nat \<Rightarrow> byte list \<Rightarrow> nat \<Rightarrow> byte list \<Rightarrow> u64 \<Rightarrow> (int \<times> byte list) option" where
  "ct_hash_hmac L algo data data_len key key_len out_data out_data_size = do {
     md \<leftarrow> evp_of algo;
     k \<leftarrow> rd_block key 0 key_len;
     if \<not> h_init L md k then Some (1, out_data)
     else do {
       d \<leftarrow> rd_block data 0 data_len;
       if \<not> h_update L then Some (1, out_data)
       else (case h_final L md k d of
           None \<Rightarrow> Some (1, out_data)
         | Some dig \<Rightarrow> do {
             hash_ret \<leftarrow> memcpy (replicate 20 0) 0 dig;
             out' \<leftarrow> hex_loop (map nibbles (take (length dig) hash_ret)) 0 out_data_size out_data;
             Some (0, out') }) } }"

section \<open>The output buffer\<close>

text \<open>The texts all have the same length \<open>w\<close>. They fit, or they are cut, or one of them starts beyond the
  buffer, where the size passed to \<open>snprintf\<close> has wrapped.\<close>

lemma unat_room: "k \<le> unat n \<Longrightarrow> unat (n - of_nat k :: u64) = unat n - k"
  by (metis le_unat_uoi unat_sub word_le_nat_alt)

lemma hex_loop_fits:
  assumes "length pre = k" "length (pre @ b) = unat n" "k + length (concat ss) < unat n"
  shows "hex_loop ss k n (pre @ b) = Some (pre @ concat ss @ (if ss = [] then b else 0 # drop (length (concat ss) + 1) b))"
  using assms
proof (induction ss arbitrary: k pre b)
  case (Cons s ss)
  have "unat (n - of_nat k) = unat n - k" using Cons.prems by (intro unat_room) simp
  moreover from this have "n - of_nat k \<noteq> 0" using Cons.prems(3) by (metis add_lessD1 diff_is_0_eq leD unat_0)
  ultimately have "snprintf_at (pre @ b) k (n - of_nat k) s = Some ((pre @ s) @ 0 # drop (length s + 1) b)"
    using Cons.prems by (simp add: snprintf_at_def memcpy_def)
  then show ?case using Cons.prems Cons.IH [of "pre @ s" "k + length s" "0 # drop (length s + 1) b"] by (simp add: add.commute)
qed simp

lemma hex_loop_overrun:
  assumes "\<forall>s \<in> set ss. length s = w" "0 < w" "length out = unat n" "ss \<noteq> []" "unat n < k + (length ss - 1) * w" "k + length ss * w < 2 ^ 63" "unat n < 2 ^ 63"
  shows "hex_loop ss k n out = None"
  using assms
proof (induction ss arbitrary: k out)
  case (Cons s ss)
  show ?case
  proof (cases "k \<le> unat n")
    case True
    then have "ss \<noteq> []" using Cons.prems(5) by auto
    then have "hex_loop ss (k + length s) n out' = None" if "length out' = unat n" for out'
      using Cons.prems that by (intro Cons.IH) (auto simp: algebra_simps neq_Nil_conv)
    moreover have "length out' = unat n" if "snprintf_at out k (n - of_nat k) s = Some out'" for out'
      using that Cons.prems(3) by (auto simp: snprintf_at_def split: if_splits dest: memcpy_length)
    ultimately show ?thesis by (cases "snprintf_at out k (n - of_nat k) s") auto
  next
    case False
    have k: "unat (of_nat k :: u64) = k" using Cons.prems(6) by (simp add: unat_of_nat take_bit_nat_eq_self_iff)
    have "n - of_nat k \<noteq> 0" using False k by auto
    then have "snprintf_at out k (n - of_nat k) s = None" using False Cons.prems(3) by (simp add: snprintf_at_def memcpy_def)
    then show ?thesis by simp
  qed
qed simp

lemma hex_loop_cut:
  assumes "\<forall>s \<in> set ss. length s = w" "0 < w" "length pre = k" "length (pre @ b) = unat n" "k + (length ss - 1) * w \<le> unat n" "unat n \<le> k + length (concat ss)" "k < unat n"
  shows "hex_loop ss k n (pre @ b) = Some (pre @ take (unat n - k - 1) (concat ss) @ [0])"
  using assms
proof (induction ss arbitrary: k pre b)
  case (Cons s ss)
  have u: "unat (n - of_nat k) = unat n - k" using Cons.prems by (intro unat_room) simp
  then have nz: "n - of_nat k \<noteq> 0" using Cons.prems(7) by (metis diff_is_0_eq leD unat_0)
  show ?case
  proof (cases "k + w < unat n")
    case True
    have "snprintf_at (pre @ b) k (n - of_nat k) s = Some ((pre @ s) @ 0 # drop (w + 1) b)"
      using u nz Cons.prems True by (simp add: snprintf_at_def memcpy_def)
    moreover have "hex_loop ss (k + w) n ((pre @ s) @ 0 # drop (w + 1) b) = Some ((pre @ s) @ take (unat n - (k + w) - 1) (concat ss) @ [0])"
      using Cons.prems True by (intro Cons.IH) (auto simp: neq_Nil_conv split: nat_diff_split)
    ultimately show ?thesis using Cons.prems True by (simp add: diff_commute)
  next
    case False
    have "snprintf_at (pre @ b) k (n - of_nat k) s = Some (pre @ take (unat n - k - 1) s @ [0])"
      using u nz Cons.prems False by (simp add: snprintf_at_def memcpy_def)
    moreover have "hex_loop ss (k + w) n out = Some out" for out
    proof (cases ss)
      case two: (Cons s' ss')
      have "k + w + length ss' * w \<le> unat n" using Cons.prems(5) two by simp
      then have "k + w = unat n" "length ss' * w = 0" using False by linarith+
      then show ?thesis using two \<open>0 < w\<close> by (simp add: snprintf_at_def of_nat_unat)
    qed simp
    ultimately show ?thesis using Cons.prems False by simp
  qed
qed simp

section \<open>The text of a digest\<close>

definition hex_text :: "byte list \<Rightarrow> byte list" where
  "hex_text d = concat (map nibbles d)"

definition x_value :: "byte \<Rightarrow> byte" where
  "x_value c = (if c < 58 then c - 48 else c - 87)"

fun parse_hex :: "byte list \<Rightarrow> byte list" where
  "parse_hex (a # b # r) = (push_bit 4 (x_value a) OR x_value b) # parse_hex r"
| "parse_hex _ = []"

lemma x_value_digit: "v < 16 \<Longrightarrow> x_value (x_digit v) = v"
proof -
  have "\<forall>n \<in> {0..<16}. x_value (x_digit (word_of_nat n)) = word_of_nat n" by code_simp
  moreover assume "v < 16"
  then have "unat v \<in> {0..<16}" by (simp add: word_less_nat_alt)
  ultimately have "x_value (x_digit (word_of_nat (unat v))) = word_of_nat (unat v)" by blast
  then show ?thesis by simp
qed

lemma low_nibble: "(w :: byte) AND 15 < 16"
  using word_and_le1 [of w 15] by (simp add: word_le_less_eq order_le_less_trans)

lemma join_nibbles: "push_bit 4 (drop_bit 4 (b :: byte) AND 15) OR (b AND 15) = b"
proof -
  have m: "(15 :: byte) = mask 4" by (simp add: mask_eq_exp_minus_1)
  show ?thesis unfolding m by (rule bit_word_eqI) (auto simp: bit_simps)
qed

lemma parse_hex_text: "parse_hex (hex_text d) = d"
  by (induction d) (simp_all add: hex_text_def nibbles_def x_value_digit low_nibble join_nibbles del: push_bit_and)

lemma length_hex_text: "length (hex_text d) = 2 * length d"
  by (induction d) (simp_all add: hex_text_def nibbles_def)

lemma concat_digits: "concat (digits d) = hex_text d"
  by (simp add: digits_def hex_text_def)

lemma length_digits: "length (digits d) = 2 * length d"
  using length_hex_text [of d] by (simp add: digits_def hex_text_def)

lemma digits_single: "\<forall>s \<in> set (digits d). length s = 1"
  by (simp add: digits_def)

definition good_digest :: "digest_lib \<Rightarrow> byte list \<Rightarrow> byte list \<Rightarrow> bool" where
  "good_digest L data dig \<longleftrightarrow> d_init L \<and> d_update L \<and> d_final L data = Some dig"

lemma ct_digest_exact:
  assumes "good_digest L data dig" "dig \<noteq> []" "length dig \<le> 64" "length out = unat sz" "unat sz < 2 ^ 63"
  shows "ct_digest L data out sz =
    (if unat sz + 2 \<le> 2 * length dig then None
     else Some (0, if 2 * length dig < unat sz then hex_text dig @ 0 # drop (2 * length dig + 1) out else take (unat sz - 1) (hex_text dig) @ [0]))"
proof -
  note len = length_digits [of dig] digits_single [of dig] concat_digits [of dig] length_hex_text [of dig]
  have ne: "digits dig \<noteq> []" using len(1) assms(2) by auto
  have d: "ct_digest L data out sz = map_option (Pair 0) (hex_loop (digits dig) 0 sz ([] @ out))"
    using assms(1) by (simp add: ct_digest_def good_digest_def)
  consider (fits) "2 * length dig < unat sz" | (cut) "unat sz \<le> 2 * length dig" "2 * length dig < unat sz + 2" | (over) "unat sz + 2 \<le> 2 * length dig"
    by linarith
  then show ?thesis
  proof cases
    case fits
    have "hex_loop (digits dig) 0 sz ([] @ out) = Some ([] @ concat (digits dig) @ (if digits dig = [] then out else 0 # drop (length (concat (digits dig)) + 1) out))"
      by (rule hex_loop_fits) (use fits len assms(4) in simp_all)
    then show ?thesis unfolding d using fits len ne by simp
  next
    case cut
    have "0 < unat sz" using cut assms(2) by (cases dig) auto
    then have "hex_loop (digits dig) 0 sz ([] @ out) = Some ([] @ take (unat sz - 0 - 1) (concat (digits dig)) @ [0])"
      by (intro hex_loop_cut [where w = 1]) (use cut len assms(4) in simp_all)
    then show ?thesis unfolding d using cut len by simp
  next
    case over
    have "hex_loop (digits dig) 0 sz ([] @ out) = None"
      by (rule hex_loop_overrun [where w = 1]) (use over len ne assms(3-5) in simp_all)
    then show ?thesis unfolding d using over by simp
  qed
qed

section \<open>Properties\<close>

text \<open>C37: \<open>ct_md5\<close> on text that does not begin with a zero byte. With at least 33 bytes of room the output is
  the text of the digest with a terminator, and the text determines the digest. With 31 or 32 bytes it
  is cut, and with fewer the size passed to \<open>snprintf\<close> wraps and the buffer is overrun.\<close>

theorem ct_md5_exact:
  assumes "good_digest L (take n (c # cs)) dig" "length dig = 16" "c \<noteq> 0" "0 < n" "n \<le> length (c # cs)" "length out = unat sz" "unat sz < 2 ^ 63"
  shows "ct_md5 L (c # cs) n out sz =
    (if unat sz \<le> 30 then None
     else Some (0, if 33 \<le> unat sz then hex_text dig @ 0 # drop 33 out else take (unat sz - 1) (hex_text dig) @ [0])) \<and>
    parse_hex (hex_text dig) = dig"
proof -
  have "dig \<noteq> []" "length dig \<le> 64" using assms(2) by auto
  from ct_digest_exact [OF assms(1) this assms(6,7)] show ?thesis
    using assms(2-5) by (auto simp: ct_md5_def rd_block_def parse_hex_text)
qed

lemma ct_sha1_exact:
  assumes "good_digest L (take n s) dig" "length dig = 20" "n \<le> length s" "length out = unat sz" "unat sz < 2 ^ 63"
  shows "ct_sha1 L s n out sz =
    (if unat sz \<le> 38 then None
     else Some (0, if 41 \<le> unat sz then hex_text dig @ 0 # drop 41 out else take (unat sz - 1) (hex_text dig) @ [0]))"
proof -
  have "dig \<noteq> []" "length dig \<le> 64" using assms(2) by auto
  from ct_digest_exact [OF assms(1) this assms(4,5)] show ?thesis
    using assms(2,3) by (auto simp: ct_sha1_def rd_block_def)
qed

text \<open>Data that begin with a zero byte are refused, whatever follows.\<close>

lemma ct_md5_zero: "ct_md5 L (0 # cs) n out sz = Some (1, out)"
  by (simp add: ct_md5_def)

text \<open>The documented lengths of the digests.\<close>

fun md_size :: "evp_md \<Rightarrow> nat" where
  "md_size MD_null = 0" | "md_size MD2 = 16" | "md_size MD4 = 16" | "md_size MD5 = 16" | "md_size SHA = 20" | "md_size SHA1 = 20"
| "md_size DSS = 20" | "md_size DSS1 = 20" | "md_size ECDSA = 20" | "md_size SHA224 = 28" | "md_size SHA256 = 32" | "md_size SHA384 = 48"
| "md_size SHA512 = 64" | "md_size RIPEMD160 = 20" | "md_size WHIRLPOOL = 64"

definition good_hmac :: "hmac_lib \<Rightarrow> byte list \<Rightarrow> byte list \<Rightarrow> bool" where
  "good_hmac L key data \<longleftrightarrow> h_update L \<and> (\<forall>md. h_init L md key \<and> (\<exists>dig. h_final L md key data = Some dig \<and> length dig = md_size md))"

text \<open>C38: \<open>ct_hash_hmac\<close> with room for 40 digits and a terminator. The algorithms with digests of at most
  20 bytes give the text of the digest. Five of the documented algorithms overrun the 20 bytes of
  \<open>hash_ret\<close>, and an unknown name uses an uninitialised pointer.\<close>

theorem ct_hash_hmac_exact:
  assumes "good_hmac L (take kn key) (take n data)" "kn \<le> length key" "n \<le> length data" "length out = unat sz" "41 \<le> unat sz" "unat sz < 2 ^ 63"
  shows "case evp_of algo of
     None \<Rightarrow> ct_hash_hmac L algo data n key kn out sz = None
   | Some md \<Rightarrow> (if md \<in> {SHA224, SHA256, SHA384, SHA512, WHIRLPOOL} then ct_hash_hmac L algo data n key kn out sz = None
       else (\<exists>dig out'. h_final L md (take kn key) (take n data) = Some dig \<and> ct_hash_hmac L algo data n key kn out sz = Some (0, out') \<and>
         take (2 * length dig) out' = hex_text dig \<and> (md = MD_null \<and> out' = out \<or> out' ! (2 * length dig) = 0) \<and> length out' = length out))"
proof (cases "evp_of algo")
  case None
  then show ?thesis by (simp add: ct_hash_hmac_def)
next
  case (Some md)
  obtain dig where dig: "h_final L md (take kn key) (take n data) = Some dig" "length dig = md_size md" using assms(1) by (auto simp: good_hmac_def)
  have c: "ct_hash_hmac L algo data n key kn out sz =
      do { hash_ret \<leftarrow> memcpy (replicate 20 0) 0 dig; out' \<leftarrow> hex_loop (map nibbles (take (length dig) hash_ret)) 0 sz out; Some (0, out') }"
    using Some assms(1-3) dig(1) by (simp add: ct_hash_hmac_def rd_block_def good_hmac_def)
  show ?thesis
  proof (cases "length dig \<le> 20")
    case True
    have s: "md \<notin> {SHA224, SHA256, SHA384, SHA512, WHIRLPOOL}" using True dig(2) by auto
    have l: "length (concat (map nibbles dig)) = 2 * length dig" using length_hex_text [of dig] by (simp add: hex_text_def)
    have "hex_loop (map nibbles dig) 0 sz ([] @ out) = Some ([] @ concat (map nibbles dig) @
        (if map nibbles dig = [] then out else 0 # drop (length (concat (map nibbles dig)) + 1) out))"
      by (rule hex_loop_fits) (use True assms(4,5) l in simp_all)
    moreover have "memcpy (replicate 20 0) 0 dig = Some (dig @ replicate (20 - length dig) 0)" using True by (simp add: memcpy_def)
    ultimately have r: "ct_hash_hmac L algo data n key kn out sz = Some (0, hex_text dig @ (if dig = [] then out else 0 # drop (2 * length dig + 1) out))"
      using c l by (simp add: hex_text_def)
    have m: "dig = [] \<Longrightarrow> md = MD_null" using dig(2) by (cases md) auto
    show ?thesis using Some s dig(1) r m length_hex_text [of dig] True assms(4,5)
      by (auto simp: nth_append)
  next
    case False
    then have "md \<in> {SHA224, SHA256, SHA384, SHA512, WHIRLPOOL}" using dig(2) by (cases md) auto
    moreover have "memcpy (replicate 20 0) 0 dig = None" using False by (simp add: memcpy_def)
    ultimately show ?thesis using Some c by simp
  qed
qed

section \<open>Examples\<close>

definition zero_digests :: "nat \<Rightarrow> digest_lib" where
  "zero_digests n = \<lparr>d_init = True, d_update = True, d_final = (\<lambda>_. Some (replicate n 0xab))\<rparr>"

definition zero_hmac :: hmac_lib where
  "zero_hmac = \<lparr>h_init = (\<lambda>_ _. True), h_update = True, h_final = (\<lambda>md _ _. Some (replicate (md_size md) 0))\<rparr>"

theorem ct_md5_exact_witness:
  "ct_md5 (zero_digests 16) [104, 105] 2 (replicate 30 7) 30 = None \<and>
    (\<exists>out'. ct_md5 (zero_digests 16) [104, 105] 2 (replicate 40 7) 40 = Some (0, out') \<and> take 2 out' = [97, 98])"
proof -
  have g: "good_digest (zero_digests 16) (take 2 [104, 105]) (replicate 16 0xab)" by (simp add: good_digest_def zero_digests_def)
  have "take 2 (hex_text (replicate 16 0xab)) = [97, 98]" "length (hex_text (replicate 16 0xab)) = 32" by code_simp+
  then show ?thesis
    using ct_md5_exact [OF g, of "replicate 30 7" 30] ct_md5_exact [OF g, of "replicate 40 7" 40] by simp
qed

theorem ct_hash_hmac_exact_witness:
  "ct_hash_hmac zero_hmac (Some ''SHA256'') [104, 105] 2 [1] 1 (replicate 100 7) 100 = None \<and>
    (\<exists>out'. ct_hash_hmac zero_hmac (Some ''sha1'') [104, 105] 2 [1] 1 (replicate 100 7) 100 = Some (0, out'))"
proof -
  have g: "good_hmac zero_hmac (take 1 [1]) (take 2 [104, 105])" by (simp add: good_hmac_def zero_hmac_def)
  have e: "evp_of (Some ''SHA256'') = Some SHA256" "evp_of (Some ''sha1'') = Some SHA1" by code_simp+
  show ?thesis using ct_hash_hmac_exact [OF g, of "replicate 100 7" 100 "Some ''SHA256''"] ct_hash_hmac_exact [OF g, of "replicate 100 7" 100 "Some ''sha1''"] e
    by auto
qed

end
