(* ===== verification/Cthash.thy ===== *)
theory Cthash
  imports Prelude
begin

text \<open>
  Model of \<^verbatim>\<open>c/libgs/cthash/cthash.c\<close>: ten string hashes on \<open>unsigned int\<close>, the 16-bit checksum
  \<open>CRC_hash\<close> and the table-driven \<open>CRC32_hash\<close>. A string is the list of its bytes before the
  terminator. Plain \<open>char\<close> values are sign extended (\<open>schar\<close>); \<open>simple_hash\<close> reads
  \<open>unsigned char\<close>. All arithmetic wraps at its C width.
\<close>

unbundle bit_operations_syntax

section \<open>String hashes\<close>

definition simple_hash :: "byte list \<Rightarrow> u32" where
  "simple_hash str = foldl (\<lambda>hash p. 31 * hash + ucast p) 0 str AND 0x7FFFFFFF"

definition SDBM_hash :: "byte list \<Rightarrow> u32" where
  "SDBM_hash str =
    foldl (\<lambda>hash c. schar c + push_bit 6 hash + push_bit 16 hash - hash) 0 str AND 0x7FFFFFFF"

fun RS_loop :: "u32 \<Rightarrow> u32 \<Rightarrow> byte list \<Rightarrow> u32" where
  "RS_loop hash a [] = hash"
| "RS_loop hash a (c # str) = RS_loop (hash * a + schar c) (a * 378551) str"

definition RS_hash :: "byte list \<Rightarrow> u32" where
  "RS_hash str = RS_loop 0 63689 str AND 0x7FFFFFFF"

definition JS_hash :: "byte list \<Rightarrow> u32" where
  "JS_hash str =
    foldl (\<lambda>hash c. hash XOR (push_bit 5 hash + schar c + drop_bit 2 hash)) 1315423911 str
      AND 0x7FFFFFFF"

definition PJW_bits :: nat where
  "PJW_bits = 4 * 8"

definition PJW_three_quarters :: nat where
  "PJW_three_quarters = PJW_bits * 3 div 4"

definition PJW_one_eighth :: nat where
  "PJW_one_eighth = PJW_three_quarters div 8"

definition PJW_high_bits :: u32 where
  "PJW_high_bits = push_bit (PJW_bits - PJW_one_eighth) 0xFFFFFFFF"

definition PJW_step :: "u32 \<Rightarrow> byte \<Rightarrow> u32" where
  "PJW_step hash0 c =
    (let hash = push_bit PJW_one_eighth hash0 + schar c;
         test = hash AND PJW_high_bits
     in if test \<noteq> 0 then (hash XOR drop_bit PJW_three_quarters test) AND NOT PJW_high_bits
        else hash)"

definition PJW_hash :: "byte list \<Rightarrow> u32" where
  "PJW_hash str = foldl PJW_step 0 str AND 0x7FFFFFFF"

definition ELF_step :: "u32 \<Rightarrow> byte \<Rightarrow> u32" where
  "ELF_step hash0 c =
    (let hash = push_bit 4 hash0 + schar c;
         x = hash AND 0xF0000000
     in if x \<noteq> 0 then (hash XOR drop_bit 24 x) AND NOT x else hash)"

definition ELF_hash :: "byte list \<Rightarrow> u32" where
  "ELF_hash str = foldl ELF_step 0 str AND 0x7FFFFFFF"

definition BKDR_hash :: "byte list \<Rightarrow> u32" where
  "BKDR_hash str = foldl (\<lambda>hash c. hash * 131 + schar c) 0 str AND 0x7FFFFFFF"

definition DJB_hash :: "byte list \<Rightarrow> u32" where
  "DJB_hash str = foldl (\<lambda>hash c. hash + (push_bit 5 hash + schar c)) 5381 str AND 0x7FFFFFFF"

fun AP_loop :: "nat \<Rightarrow> u32 \<Rightarrow> byte list \<Rightarrow> u32" where
  "AP_loop i hash [] = hash"
| "AP_loop i hash (c # str) =
    AP_loop (i + 1)
      (if even i then hash XOR (push_bit 7 hash XOR schar c XOR drop_bit 3 hash)
       else hash XOR NOT (push_bit 11 hash XOR schar c XOR drop_bit 5 hash)) str"

definition AP_hash :: "byte list \<Rightarrow> u32" where
  "AP_hash str = AP_loop 0 0 str AND 0x7FFFFFFF"

section \<open>The 16-bit checksum\<close>

text \<open>The string is read through an \<open>unsigned short *\<close>, low byte first.\<close>

fun CRC_sum :: "byte list \<Rightarrow> u64 \<Rightarrow> u64" where
  "CRC_sum (lo # hi # w) acc = CRC_sum w (acc + (ucast lo + push_bit 8 (ucast hi)))"
| "CRC_sum [c] acc = acc + ucast c"
| "CRC_sum [] acc = acc"

definition CRC_hash :: "byte list \<Rightarrow> u32" where
  "CRC_hash str =
    (let acc = CRC_sum str 0;
         sum1 = drop_bit 16 acc + (acc AND 0xFFFF);
         sum2 = sum1 + drop_bit 16 sum1;
         answer = (ucast (NOT sum2) :: u16)
     in ucast answer AND 0xFFFFFFFF)"

section \<open>CRC-32\<close>

definition crc32_tab :: "u64 list" where
  "crc32_tab =
    [
     0x00000000, 0x77073096, 0xee0e612c, 0x990951ba, 0x076dc419, 0x706af48f,
     0xe963a535, 0x9e6495a3, 0x0edb8832, 0x79dcb8a4, 0xe0d5e91e, 0x97d2d988,
     0x09b64c2b, 0x7eb17cbd, 0xe7b82d07, 0x90bf1d91, 0x1db71064, 0x6ab020f2,
     0xf3b97148, 0x84be41de, 0x1adad47d, 0x6ddde4eb, 0xf4d4b551, 0x83d385c7,
     0x136c9856, 0x646ba8c0, 0xfd62f97a, 0x8a65c9ec, 0x14015c4f, 0x63066cd9,
     0xfa0f3d63, 0x8d080df5, 0x3b6e20c8, 0x4c69105e, 0xd56041e4, 0xa2677172,
     0x3c03e4d1, 0x4b04d447, 0xd20d85fd, 0xa50ab56b, 0x35b5a8fa, 0x42b2986c,
     0xdbbbc9d6, 0xacbcf940, 0x32d86ce3, 0x45df5c75, 0xdcd60dcf, 0xabd13d59,
     0x26d930ac, 0x51de003a, 0xc8d75180, 0xbfd06116, 0x21b4f4b5, 0x56b3c423,
     0xcfba9599, 0xb8bda50f, 0x2802b89e, 0x5f058808, 0xc60cd9b2, 0xb10be924,
     0x2f6f7c87, 0x58684c11, 0xc1611dab, 0xb6662d3d, 0x76dc4190, 0x01db7106,
     0x98d220bc, 0xefd5102a, 0x71b18589, 0x06b6b51f, 0x9fbfe4a5, 0xe8b8d433,
     0x7807c9a2, 0x0f00f934, 0x9609a88e, 0xe10e9818, 0x7f6a0dbb, 0x086d3d2d,
     0x91646c97, 0xe6635c01, 0x6b6b51f4, 0x1c6c6162, 0x856530d8, 0xf262004e,
     0x6c0695ed, 0x1b01a57b, 0x8208f4c1, 0xf50fc457, 0x65b0d9c6, 0x12b7e950,
     0x8bbeb8ea, 0xfcb9887c, 0x62dd1ddf, 0x15da2d49, 0x8cd37cf3, 0xfbd44c65,
     0x4db26158, 0x3ab551ce, 0xa3bc0074, 0xd4bb30e2, 0x4adfa541, 0x3dd895d7,
     0xa4d1c46d, 0xd3d6f4fb, 0x4369e96a, 0x346ed9fc, 0xad678846, 0xda60b8d0,
     0x44042d73, 0x33031de5, 0xaa0a4c5f, 0xdd0d7cc9, 0x5005713c, 0x270241aa,
     0xbe0b1010, 0xc90c2086, 0x5768b525, 0x206f85b3, 0xb966d409, 0xce61e49f,
     0x5edef90e, 0x29d9c998, 0xb0d09822, 0xc7d7a8b4, 0x59b33d17, 0x2eb40d81,
     0xb7bd5c3b, 0xc0ba6cad, 0xedb88320, 0x9abfb3b6, 0x03b6e20c, 0x74b1d29a,
     0xead54739, 0x9dd277af, 0x04db2615, 0x73dc1683, 0xe3630b12, 0x94643b84,
     0x0d6d6a3e, 0x7a6a5aa8, 0xe40ecf0b, 0x9309ff9d, 0x0a00ae27, 0x7d079eb1,
     0xf00f9344, 0x8708a3d2, 0x1e01f268, 0x6906c2fe, 0xf762575d, 0x806567cb,
     0x196c3671, 0x6e6b06e7, 0xfed41b76, 0x89d32be0, 0x10da7a5a, 0x67dd4acc,
     0xf9b9df6f, 0x8ebeeff9, 0x17b7be43, 0x60b08ed5, 0xd6d6a3e8, 0xa1d1937e,
     0x38d8c2c4, 0x4fdff252, 0xd1bb67f1, 0xa6bc5767, 0x3fb506dd, 0x48b2364b,
     0xd80d2bda, 0xaf0a1b4c, 0x36034af6, 0x41047a60, 0xdf60efc3, 0xa867df55,
     0x316e8eef, 0x4669be79, 0xcb61b38c, 0xbc66831a, 0x256fd2a0, 0x5268e236,
     0xcc0c7795, 0xbb0b4703, 0x220216b9, 0x5505262f, 0xc5ba3bbe, 0xb2bd0b28,
     0x2bb45a92, 0x5cb36a04, 0xc2d7ffa7, 0xb5d0cf31, 0x2cd99e8b, 0x5bdeae1d,
     0x9b64c2b0, 0xec63f226, 0x756aa39c, 0x026d930a, 0x9c0906a9, 0xeb0e363f,
     0x72076785, 0x05005713, 0x95bf4a82, 0xe2b87a14, 0x7bb12bae, 0x0cb61b38,
     0x92d28e9b, 0xe5d5be0d, 0x7cdcefb7, 0x0bdbdf21, 0x86d3d2d4, 0xf1d4e242,
     0x68ddb3f8, 0x1fda836e, 0x81be16cd, 0xf6b9265b, 0x6fb077e1, 0x18b74777,
     0x88085ae6, 0xff0f6a70, 0x66063bca, 0x11010b5c, 0x8f659eff, 0xf862ae69,
     0x616bffd3, 0x166ccf45, 0xa00ae278, 0xd70dd2ee, 0x4e048354, 0x3903b3c2,
     0xa7672661, 0xd06016f7, 0x4969474d, 0x3e6e77db, 0xaed16a4a, 0xd9d65adc,
     0x40df0b66, 0x37d83bf0, 0xa9bcae53, 0xdebb9ec5, 0x47b2cf7f, 0x30b5ffe9,
     0xbdbdf21c, 0xcabac28a, 0x53b39330, 0x24b4a3a6, 0xbad03605, 0xcdd70693,
     0x54de5729, 0x23d967bf, 0xb3667a2e, 0xc4614ab8, 0x5d681b02, 0x2a6f2b94,
     0xb40bbe37, 0xc30c8ea1, 0x5a05df1b, 0x2d02ef8d]"

definition CRC32_step :: "u64 \<Rightarrow> byte \<Rightarrow> u64" where
  "CRC32_step crc32 b = drop_bit 8 crc32 XOR crc32_tab ! unat ((crc32 XOR ucast b) AND 0xFF)"

definition CRC32_hash :: "u64 \<Rightarrow> byte list \<Rightarrow> u64" where
  "CRC32_hash crc buf = foldl CRC32_step (crc XOR 0xFFFFFFFF) buf XOR 0xFFFFFFFF"

section \<open>References\<close>

text \<open>The CRC-32 of IEEE 802.3, bit by bit, with the reflected polynomial.\<close>

definition crc_bit :: "u64 \<Rightarrow> u64" where
  "crc_bit r = drop_bit 1 r XOR (if bit r 0 then 0xEDB88320 else 0)"

definition crc_byte :: "u64 \<Rightarrow> byte \<Rightarrow> u64" where
  "crc_byte r b = (crc_bit ^^ 8) (r XOR ucast b)"

definition crc_spec :: "u64 \<Rightarrow> byte list \<Rightarrow> u64" where
  "crc_spec crc buf = foldl crc_byte (crc XOR 0xFFFFFFFF) buf XOR 0xFFFFFFFF"

text \<open>The sum of the little-endian 16-bit words of a byte string, an odd last byte alone.\<close>

fun word_sum :: "byte list \<Rightarrow> nat" where
  "word_sum (lo # hi # w) = unat lo + 256 * unat hi + word_sum w"
| "word_sum [c] = unat c"
| "word_sum [] = 0"

abbreviation crc8 :: "u64 \<Rightarrow> u64" where
  "crc8 \<equiv> crc_bit ^^ 8"

lemma crc_bit_xor: "crc_bit (x XOR y) = crc_bit x XOR crc_bit y"
  unfolding crc_bit_def by (rule bit_eqI) (auto simp: bit_simps)

lemma crc_bit_pow_xor: "(crc_bit ^^ n) (x XOR y) = (crc_bit ^^ n) x XOR (crc_bit ^^ n) y"
  by (induction n) (simp_all add: crc_bit_xor)

lemma crc_bit_pow_shift: "take_bit n y = 0 \<Longrightarrow> (crc_bit ^^ n) y = drop_bit n y"
proof (induction n)
  case (Suc n)
  have z: "\<not> bit y m" if "m < Suc n" for m
    using arg_cong [OF Suc.prems, of "\<lambda>w. bit w m"] that by (simp add: bit_take_bit_iff)
  have "take_bit n y = 0"
    by (rule bit_eqI) (simp add: bit_take_bit_iff z)
  moreover have "\<not> bit y n" by (simp add: z)
  ultimately show ?case using Suc.IH
    by (simp add: crc_bit_def bit_simps drop_bit_drop_bit)
qed simp

lemma crc_bit_chain:
  "crc_bit 0x80 = 0x40"
  "crc_bit 0x40 = 0x20"
  "crc_bit 0x20 = 0x10"
  "crc_bit 0x10 = 0x8"
  "crc_bit 0x8 = 0x4"
  "crc_bit 0x4 = 0x2"
  "crc_bit 0x2 = 0x1"
  "crc_bit 0x1 = 0xedb88320"
  "crc_bit 0xedb88320 = 0x76dc4190"
  "crc_bit 0x76dc4190 = 0x3b6e20c8"
  "crc_bit 0x3b6e20c8 = 0x1db71064"
  "crc_bit 0x1db71064 = 0xedb8832"
  "crc_bit 0xedb8832 = 0x76dc419"
  "crc_bit 0x76dc419 = 0xee0e612c"
  "crc_bit 0xee0e612c = 0x77073096"
  by (simp_all add: crc_bit_def)

lemma funpow_8: "(f ^^ 8) x = f (f (f (f (f (f (f (f x)))))))"
  by (simp add: numeral_eq_Suc)

lemma crc8_basis:
  "crc8 1 = 0x77073096"
  "crc8 2 = 0xee0e612c"
  "crc8 4 = 0x76dc419"
  "crc8 8 = 0xedb8832"
  "crc8 16 = 0x1db71064"
  "crc8 32 = 0x3b6e20c8"
  "crc8 64 = 0x76dc4190"
  "crc8 128 = 0xedb88320"
  by (simp_all only: funpow_8 crc_bit_chain)

lemma crc32_tab_double:
  "take 1 (drop 1 crc32_tab) = map (\<lambda>x. 0x77073096 XOR x) (take 1 crc32_tab)"
  "take 2 (drop 2 crc32_tab) = map (\<lambda>x. 0xee0e612c XOR x) (take 2 crc32_tab)"
  "take 4 (drop 4 crc32_tab) = map (\<lambda>x. 0x76dc419 XOR x) (take 4 crc32_tab)"
  "take 8 (drop 8 crc32_tab) = map (\<lambda>x. 0xedb8832 XOR x) (take 8 crc32_tab)"
  "take 16 (drop 16 crc32_tab) = map (\<lambda>x. 0x1db71064 XOR x) (take 16 crc32_tab)"
  "take 32 (drop 32 crc32_tab) = map (\<lambda>x. 0x3b6e20c8 XOR x) (take 32 crc32_tab)"
  "take 64 (drop 64 crc32_tab) = map (\<lambda>x. 0x76dc4190 XOR x) (take 64 crc32_tab)"
  "take 128 (drop 128 crc32_tab) = map (\<lambda>x. 0xedb88320 XOR x) (take 128 crc32_tab)"
  by (simp_all add: crc32_tab_def)

lemma length_crc32_tab [simp]: "length crc32_tab = 256"
  by (simp add: crc32_tab_def)

lemma of_nat_add_xor:
  assumes "j < 2 ^ k" "k < 64"
  shows "(of_nat (2 ^ k + j) :: u64) = 2 ^ k XOR of_nat j"
proof -
  have "take_bit k (of_nat j :: u64) = of_nat j"
    using assms by (simp add: take_bit_of_nat flip: of_nat_take_bit) (simp add: take_bit_nat_eq_self)
  then have "\<not> bit (of_nat j :: u64) k" by (metis bit_take_bit_iff less_irrefl)
  then have "(2 ^ k :: u64) AND of_nat j = 0"
    by (intro bit_eqI) (auto simp: bit_simps)
  then show ?thesis by (simp add: disjunctive_add_eq_xor)
qed

lemma crc32_tab_step:
  assumes "\<forall>i < 2 ^ k. crc32_tab ! i = crc8 (of_nat i)" "k < 8" "crc8 (2 ^ k) = v"
    and "take (2 ^ k) (drop (2 ^ k) crc32_tab) = map (\<lambda>x. v XOR x) (take (2 ^ k) crc32_tab)"
  shows "\<forall>i < 2 ^ Suc k. crc32_tab ! i = crc8 (of_nat i)"
proof (intro allI impI)
  fix i :: nat assume i: "i < 2 ^ Suc k"
  have le: "(2 :: nat) ^ Suc k \<le> 2 ^ 8" using assms(2) by (intro power_increasing) auto
  show "crc32_tab ! i = crc8 (of_nat i)"
  proof (cases "i < 2 ^ k")
    case False
    then obtain j where j: "i = 2 ^ k + j" "j < 2 ^ k" using i le_Suc_ex by (metis add_less_cancel_left linorder_not_less mult_2 power_Suc)
    have "crc32_tab ! i = take (2 ^ k) (drop (2 ^ k) crc32_tab) ! j" using j le i by simp
    also have "\<dots> = v XOR crc32_tab ! j" unfolding assms(4) using j le i by simp
    also have "\<dots> = crc8 (2 ^ k XOR of_nat j)"
      using assms(1,3) j(2) by (simp add: crc_bit_pow_xor)
    finally show ?thesis using of_nat_add_xor [OF j(2)] assms(2) j(1) by simp
  qed (use assms(1) in simp)
qed

definition crc32_doubles :: "nat \<Rightarrow> bool" where
  "crc32_doubles n = (take n (drop n crc32_tab) = map (\<lambda>x. crc8 (of_nat n) XOR x) (take n crc32_tab))"

lemma crc32_tab_doubles:
  "crc32_doubles 1" "crc32_doubles 2" "crc32_doubles 4" "crc32_doubles 8"
  "crc32_doubles 16" "crc32_doubles 32" "crc32_doubles 64" "crc32_doubles 128"
  unfolding crc32_doubles_def of_nat_numeral of_nat_1 crc8_basis
  by (fact crc32_tab_double)+

lemma crc32_doubles_power: "k < 8 \<Longrightarrow> crc32_doubles (2 ^ k)"
proof -
  assume "k < 8"
  then have "k \<in> {0, 1, 2, 3, 4, 5, 6, 7}" by auto
  moreover have "(2::nat) ^ 0 = 1" "(2::nat) ^ 1 = 2" "(2::nat) ^ 2 = 4" "(2::nat) ^ 3 = 8"
    "(2::nat) ^ 4 = 16" "(2::nat) ^ 5 = 32" "(2::nat) ^ 6 = 64" "(2::nat) ^ 7 = 128" by simp_all
  ultimately show ?thesis using crc32_tab_doubles by (elim insertE emptyE) (simp_all only:)
qed

lemma crc32_tab_nth: "i < 256 \<Longrightarrow> crc32_tab ! i = crc8 (of_nat i)"
proof -
  have "\<forall>i < 2 ^ k. crc32_tab ! i = crc8 (of_nat i)" if "k \<le> 8" for k
    using that
  proof (induction k)
    case 0
    show ?case by (simp add: crc32_tab_def crc_bit_pow_shift)
  next
    case (Suc k)
    then show ?case using crc32_doubles_power [of k]
      by (intro crc32_tab_step [where v = "crc8 (2 ^ k)"]) (simp_all add: crc32_doubles_def)
  qed
  from this [of 8] show "i < 256 \<Longrightarrow> crc32_tab ! i = crc8 (of_nat i)" by simp
qed

lemma CRC32_step_byte: "CRC32_step c b = crc_byte c b"
proof -
  define w where "w = c XOR ucast b"
  have "w = take_bit 8 w XOR push_bit 8 (drop_bit 8 w)"
    by (rule bit_eqI) (auto simp: bit_simps)
  moreover have "drop_bit 8 (push_bit 8 (drop_bit 8 w)) = drop_bit 8 w"
    by (rule bit_eqI) (auto simp: bit_simps dest: bit_imp_le_length)
  ultimately have "crc8 w = crc8 (take_bit 8 w) XOR drop_bit 8 w"
    using crc_bit_pow_xor [of 8 "take_bit 8 w" "push_bit 8 (drop_bit 8 w)"]
      crc_bit_pow_shift [of 8 "push_bit 8 (drop_bit 8 w)"]
    by (simp add: take_bit_push_bit)
  moreover have "drop_bit 8 w = drop_bit 8 c"
    unfolding w_def by (rule bit_eqI) (auto simp: bit_simps dest: bit_imp_le_length)
  moreover have low: "w AND 0xFF = take_bit 8 w"
    by (simp add: take_bit_eq_mask mask_eq_exp_minus_1)
  moreover have "unat (take_bit 8 w) < 256"
    by (simp add: unsigned_take_bit_eq take_bit_nat_less_exp [of 8, simplified])
  ultimately show ?thesis
    by (simp add: CRC32_step_def crc_byte_def crc32_tab_nth and.commute xor.commute flip: w_def)
qed

lemma CRC32_hash_eq: "CRC32_hash crc buf = crc_spec crc buf"
  unfolding CRC32_hash_def crc_spec_def by (simp add: CRC32_step_byte [abs_def])

lemma CRC32_hash_append_aux: "CRC32_hash (CRC32_hash crc a) b = CRC32_hash crc (a @ b)"
  by (simp add: CRC32_hash_def xor.assoc)

lemma crc_bit_32: "drop_bit 32 r = 0 \<Longrightarrow> drop_bit 32 (crc_bit r) = 0"
proof -
  assume "drop_bit 32 r = 0"
  then have "drop_bit 1 (drop_bit 32 r) = 0" by simp
  then show ?thesis by (simp add: crc_bit_def)
qed

lemma crc_byte_32: "drop_bit 32 r = 0 \<Longrightarrow> drop_bit 32 (crc_byte r b) = 0"
proof -
  assume "drop_bit 32 r = 0"
  then have "drop_bit 32 (r XOR ucast b) = 0"
    by (auto simp: drop_bit_xor intro!: bit_eqI) (auto simp: bit_simps dest: bit_imp_le_length)
  then have "drop_bit 32 ((crc_bit ^^ n) (r XOR ucast b)) = 0" for n
    by (induction n) (simp_all add: crc_bit_32)
  then show ?thesis by (simp add: crc_byte_def)
qed

lemma crc_bytes_32: "drop_bit 32 r = 0 \<Longrightarrow> drop_bit 32 (foldl crc_byte r buf) = 0"
  by (induction buf arbitrary: r) (simp_all add: crc_byte_32)

lemma drop_bit_32_iff: "drop_bit 32 (r :: u64) = 0 \<longleftrightarrow> r < 2 ^ 32"
  unfolding word_less_nat_alt word_unat_eq_iff
  by (simp add: drop_bit_eq_div unat_div div_eq_0_iff)

locale str_hash =
  fixes hash :: "byte list \<Rightarrow> u32"
  assumes masked: "\<exists>h. hash s = h AND 0x7FFFFFFF"
begin

lemma bound: "unat (hash s) < 2 ^ 31"
proof -
  obtain h where "hash s = h AND mask 31" using masked [of s] by (auto simp: mask_eq_exp_minus_1)
  then show ?thesis
    by (simp add: unsigned_take_bit_eq take_bit_nat_less_exp [of 31, simplified] flip: take_bit_eq_mask)
qed

lemma nonneg: "0 \<le> sint (hash s)"
proof -
  obtain h where "hash s = h AND mask 31" using masked [of s] by (auto simp: mask_eq_exp_minus_1)
  then have "\<not> bit (hash s) 31" by (simp add: bit_simps)
  then show ?thesis using bit_last_iff [of "hash s"] by simp
qed

lemma bucket: "0 < n \<Longrightarrow> unat (hash s mod n) < unat n"
  by (simp add: unat_mod word_gt_0 unat_gt_0)

end


interpretation simple: str_hash simple_hash by unfold_locales (auto simp: simple_hash_def)
interpretation SDBM: str_hash SDBM_hash by unfold_locales (auto simp: SDBM_hash_def)
interpretation RS: str_hash RS_hash by unfold_locales (auto simp: RS_hash_def)
interpretation JS: str_hash JS_hash by unfold_locales (auto simp: JS_hash_def)
interpretation PJW: str_hash PJW_hash by unfold_locales (auto simp: PJW_hash_def)
interpretation ELF: str_hash ELF_hash by unfold_locales (auto simp: ELF_hash_def)
interpretation BKDR: str_hash BKDR_hash by unfold_locales (auto simp: BKDR_hash_def)
interpretation DJB: str_hash DJB_hash by unfold_locales (auto simp: DJB_hash_def)
interpretation AP: str_hash AP_hash by unfold_locales (auto simp: AP_hash_def)

lemma CRC_sum_word_sum: "CRC_sum s acc = acc + of_nat (word_sum s)"
  by (induction s acc rule: CRC_sum.induct)
     (simp_all add: push_bit_eq_mult unsigned_ucast_eq algebra_simps word_eq_iff_unsigned)

lemma word_sum_bound: "word_sum s \<le> 65535 * ((length s + 1) div 2)"
proof (induction s rule: word_sum.induct)
  case (1 lo hi w)
  then show ?case using unsigned_less [of lo, where 'a = nat] unsigned_less [of hi, where 'a = nat] by simp
next
  case (2 c)
  then show ?case using unsigned_less [of c, where 'a = nat] by simp
qed simp

lemma SDBM_step: "schar c + push_bit 6 h + push_bit 16 h - h = 65599 * h + schar c"
  by (simp add: push_bit_eq_mult algebra_simps)

lemma CRC_fold_nat:
  fixes N :: nat
  assumes "N < 2 ^ 32"
  defines "s1 \<equiv> N div 65536 + N mod 65536"
  defines "s2 \<equiv> s1 + s1 div 65536"
  shows "(N + (65535 - s2 mod 65536)) mod 65535 = 0" "s2 < 2 ^ 18"
proof -
  have b: "N div 65536 \<le> 65535" "N mod 65536 \<le> 65535" using assms(1) by (auto simp: less_mult_imp_div_less less_Suc_eq_le [symmetric])
  have N: "N = 65535 * (N div 65536) + s1" unfolding s1_def using div_mult_mod_eq [of N 65536] by linarith
  show "s2 < 2 ^ 18" using b by (simp add: s2_def s1_def)
  show "(N + (65535 - s2 mod 65536)) mod 65535 = 0"
  proof (cases "s1 < 65536")
    case True
    then have "s2 mod 65536 = s1" by (simp add: s2_def)
    then have "N + (65535 - s2 mod 65536) = 65535 * (N div 65536 + 1)" using True N by simp
    then show ?thesis by (simp only: mod_mult_self1_is_0)
  next
    case False
    then have "s1 div 65536 = 1" using b by (simp add: s1_def)
    moreover obtain r where r: "s1 = 65535 + r" "0 < r" "r < 65536"
    proof
      show "s1 = 65535 + (s1 - 65535)" "0 < s1 - 65535" using False by auto
      show "s1 - 65535 < 65536" using b by (simp add: s1_def)
    qed
    ultimately have "s2 mod 65536 = r" by (simp add: s2_def)
    then have "N + (65535 - s2 mod 65536) = 65535 * (N div 65536 + 2)" using r N by simp
    then show ?thesis by (simp only: mod_mult_self1_is_0)
  qed
qed

lemma unat_low16: "unat ((w :: u64) AND 0xFFFF) = unat w mod 65536"
proof -
  have "w AND 0xFFFF = take_bit 16 w" by (simp add: take_bit_eq_mask mask_eq_exp_minus_1)
  then show ?thesis by (simp add: take_bit_eq_mod unat_mod)
qed

lemma unat_not_low16: "unat (ucast (NOT (w :: u64)) :: u16) = 65535 - unat w mod 65536"
proof -
  have "ucast (NOT w) = NOT (ucast w :: u16)"
    by (rule bit_eqI) (auto simp: bit_simps)
  moreover have "unat (NOT v) = 65535 - unat v" for v :: u16
  proof -
    have "NOT v = 0xFFFF - v" by (simp add: not_eq_complement)
    moreover have "unat v \<le> 65535" using unsigned_less [of v, where 'a = nat] by simp
    ultimately show ?thesis using unat_sub [of v "0xFFFF"] by (simp add: word_le_nat_alt)
  qed
  ultimately show ?thesis by (simp add: unsigned_ucast_eq take_bit_eq_mod)
qed


lemma unat_ucast_u16: "unat (ucast (v :: u16) :: u32) = unat v"
  using unsigned_less [of v, where 'a = nat] by (simp add: unsigned_ucast_eq take_bit_nat_eq_self)

lemma CRC_hash_unat:
  assumes "word_sum s < 2 ^ 32"
  shows "(word_sum s + unat (CRC_hash s)) mod 65535 = 0"
proof -
  define N s1 where "N = word_sum s" and "s1 = N div 65536 + N mod 65536"
  define a where "a = CRC_sum s 0"
  have N: "N < 2 ^ 32" using assms by (simp add: N_def)
  have a: "unat a = N" using N by (simp add: a_def CRC_sum_word_sum N_def [symmetric] unat_of_nat)
  define w1 where "w1 = drop_bit 16 a + (a AND 0xFFFF)"
  have w1: "unat w1 = s1" unfolding w1_def s1_def using N
    by (subst unat_add_lem [THEN iffD1]) (simp_all add: unat_low16 drop_bit_eq_div unat_div a)
  define w2 where "w2 = w1 + drop_bit 16 w1"
  have w2: "unat w2 = s1 + s1 div 65536" unfolding w2_def using CRC_fold_nat(2) [OF N, folded s1_def]
    by (subst unat_add_lem [THEN iffD1]) (simp_all add: drop_bit_eq_div unat_div w1)
  have "CRC_hash s = ucast (ucast (NOT w2) :: u16) AND 0xFFFFFFFF"
    by (simp add: CRC_hash_def Let_def w2_def w1_def a_def)
  also have "unat \<dots> = unat (ucast (NOT w2) :: u16)" (is "unat (?u AND _) = _")
  proof -
    have "(0xFFFFFFFF :: u32) = - 1" by simp
    then have "?u AND 0xFFFFFFFF = ?u" by (simp only: and.right_neutral)
    then show ?thesis by (simp only: unat_ucast_u16)
  qed
  finally have "unat (CRC_hash s) = 65535 - (s1 + s1 div 65536) mod 65536"
    by (simp add: unat_not_low16 w2)
  then show ?thesis using CRC_fold_nat(1) [OF N, folded s1_def] by (simp add: N_def)
qed


section \<open>Properties\<close>

text \<open>C5: the table-driven \<open>CRC32_hash\<close> computes the bit-by-bit CRC-32 of IEEE 802.3 (reflected
  polynomial 0xEDB88320) of every buffer from every initial value, and from a 32-bit value its
  result fits in 32 bits although it is an \<open>unsigned long\<close>.\<close>

theorem CRC32_hash_correct:
  "CRC32_hash crc buf = crc_spec crc buf \<and> (crc < 2 ^ 32 \<longrightarrow> CRC32_hash crc buf < 2 ^ 32)"
proof (intro conjI impI)
  show "CRC32_hash crc buf = crc_spec crc buf" by (rule CRC32_hash_eq)
  assume "crc < 2 ^ 32"
  then have "drop_bit 32 (foldl crc_byte (crc XOR 0xFFFFFFFF) buf) = 0"
    by (intro crc_bytes_32) (simp add: drop_bit_xor drop_bit_32_iff)
  then show "CRC32_hash crc buf < 2 ^ 32"
    unfolding drop_bit_32_iff [symmetric] by (simp add: CRC32_hash_eq crc_spec_def drop_bit_xor)
qed

theorem CRC32_hash_correct_witness:
  "CRC32_hash 0 [0x61, 0x62] = crc_spec 0 [0x61, 0x62] \<and> crc_spec 0 [0x61, 0x62] < 2 ^ 32"
  using CRC32_hash_correct [of 0 "[0x61, 0x62]"] by auto

text \<open>Hashing a buffer in two calls, the second started from the first's result, gives the
  hash of the whole buffer.\<close>

theorem CRC32_hash_incremental: "CRC32_hash (CRC32_hash crc a) b = CRC32_hash crc (a @ b)"
  by (simp add: CRC32_hash_def xor.assoc)

text \<open>The checksum \<open>CRC_hash\<close> is the ones' complement checksum: the 16-bit words of the string
  and the checksum sum to zero modulo 65535, for strings up to 128 KiB.\<close>

theorem CRC_hash_checksum:
  assumes "length s \<le> 131072"
  shows "(word_sum s + unat (CRC_hash s)) mod 65535 = 0"
proof (rule CRC_hash_unat)
  have "(length s + 1) div 2 \<le> 65536" using assms by simp
  then have "65535 * ((length s + 1) div 2) < 2 ^ 32" by simp
  then show "word_sum s < 2 ^ 32" using word_sum_bound [of s] by linarith
qed

theorem CRC_hash_checksum_witness:
  "(word_sum [0x61, 0x62, 0x63] + unat (CRC_hash [0x61, 0x62, 0x63])) mod 65535 = 0"
  by (rule CRC_hash_checksum) simp

text \<open>Every string hash is below \<open>2 ^ 31\<close>, so it is non-negative when it is read as an
  \<open>int\<close>, whatever bytes the string holds.\<close>

theorem str_hashes_bound:
  "\<forall>h \<in> {simple_hash, SDBM_hash, RS_hash, JS_hash, PJW_hash, ELF_hash, BKDR_hash, DJB_hash, AP_hash}.
     unat (h s) < 2 ^ 31 \<and> 0 \<le> sint (h s)"
  by (simp add: simple.bound simple.nonneg SDBM.bound SDBM.nonneg RS.bound RS.nonneg JS.bound
      JS.nonneg PJW.bound PJW.nonneg ELF.bound ELF.nonneg BKDR.bound BKDR.nonneg DJB.bound
      DJB.nonneg AP.bound AP.nonneg del: power_numeral)

theorem str_hashes_bound_witness: "unat (BKDR_hash [0xFF]) < 2 ^ 31 \<and> 0 \<le> sint (BKDR_hash [0xFF])"
  using str_hashes_bound [of "[0xFF]"] by blast


text \<open>The shift-and-add steps of \<open>SDBM_hash\<close> and \<open>DJB_hash\<close> are the polynomial hashes their
  comments name, with multipliers 65599 and 33.\<close>

theorem shift_hashes_polynomial:
  "SDBM_hash str = foldl (\<lambda>hash c. 65599 * hash + schar c) 0 str AND 0x7FFFFFFF \<and>
   DJB_hash str = foldl (\<lambda>hash c. 33 * hash + schar c) 5381 str AND 0x7FFFFFFF"
proof -
  have "hash + (push_bit 5 hash + schar c) = 33 * hash + schar c" for hash :: u32 and c
    by (simp add: push_bit_eq_mult algebra_simps)
  then show ?thesis unfolding SDBM_hash_def DJB_hash_def SDBM_step by simp
qed

end
