(* ===== verification/Ctlog.thy ===== *)
theory Ctlog
  imports Prelude
begin

text \<open>
  Model of \<^verbatim>\<open>c/libgs/ctlog/ctlog.h\<close> and \<^verbatim>\<open>ctlog.c\<close>: the macros that send a message to the system's log when
  the level of the program is high enough. A message is its text after formatting; what a macro sends
  is a list of at most one pair of a priority of \<open>syslog\<close> and a text.
\<close>

record ctlog =
  ctlog_level :: int
  ctlog_sid :: string

definition LEVEL_debug :: int where "LEVEL_debug = 8"
definition LEVEL_info :: int where "LEVEL_info = 7"
definition LEVEL_notice :: int where "LEVEL_notice = 6"
definition LEVEL_warning :: int where "LEVEL_warning = 5"
definition LEVEL_error :: int where "LEVEL_error = 4"
definition LEVEL_crit :: int where "LEVEL_crit = 3"
definition LEVEL_alert :: int where "LEVEL_alert = 2"
definition LEVEL_emerg :: int where "LEVEL_emerg = 1"

text \<open>The priorities of \<^verbatim>\<open>syslog.h\<close>.\<close>

datatype priority = LOG_EMERG | LOG_ALERT | LOG_CRIT | LOG_ERR | LOG_WARNING | LOG_NOTICE | LOG_INFO | LOG_DEBUG

text \<open>The values of the variables at the start.\<close>

definition ctlog0 :: ctlog where
  "ctlog0 = \<lparr>ctlog_level = LEVEL_info, ctlog_sid = []\<rparr>"

text \<open>The two formats: with the function only, and with the session id.\<close>

definition log_text :: "string \<Rightarrow> ctlog \<Rightarrow> string \<Rightarrow> string \<Rightarrow> string" where
  "log_text tag c func msg = tag @ func @ '' '' @ (if ctlog_sid c = [] then msg else ctlog_sid c @ '' '' @ msg)"

definition log_emerg :: "ctlog \<Rightarrow> string \<Rightarrow> string \<Rightarrow> (priority \<times> string) list" where
  "log_emerg c func msg = (if ctlog_level c \<ge> LEVEL_emerg then [(LOG_EMERG, log_text ''[EMERG] '' c func msg)] else [])"

definition log_alert :: "ctlog \<Rightarrow> string \<Rightarrow> string \<Rightarrow> (priority \<times> string) list" where
  "log_alert c func msg = (if ctlog_level c \<ge> LEVEL_alert then [(LOG_ALERT, log_text ''[ALERT] '' c func msg)] else [])"

definition log_crit :: "ctlog \<Rightarrow> string \<Rightarrow> string \<Rightarrow> (priority \<times> string) list" where
  "log_crit c func msg = (if ctlog_level c \<ge> LEVEL_crit then [(LOG_CRIT, log_text ''[CRIT] '' c func msg)] else [])"

definition log_error :: "ctlog \<Rightarrow> string \<Rightarrow> string \<Rightarrow> (priority \<times> string) list" where
  "log_error c func msg = (if ctlog_level c \<ge> LEVEL_error then [(LOG_ERR, log_text ''[ERROR] '' c func msg)] else [])"

definition log_warning :: "ctlog \<Rightarrow> string \<Rightarrow> string \<Rightarrow> (priority \<times> string) list" where
  "log_warning c func msg = (if ctlog_level c \<ge> LEVEL_warning then [(LOG_WARNING, log_text ''[WARNING] '' c func msg)] else [])"

definition log_notice :: "ctlog \<Rightarrow> string \<Rightarrow> string \<Rightarrow> (priority \<times> string) list" where
  "log_notice c func msg = (if ctlog_level c \<ge> LEVEL_notice then [(LOG_NOTICE, log_text ''[NOTICE] '' c func msg)] else [])"

definition log_info :: "ctlog \<Rightarrow> string \<Rightarrow> string \<Rightarrow> (priority \<times> string) list" where
  "log_info c func msg = (if ctlog_level c \<ge> LEVEL_info then [(LOG_INFO, log_text ''[INFO] '' c func msg)] else [])"

definition log_debug :: "ctlog \<Rightarrow> string \<Rightarrow> string \<Rightarrow> (priority \<times> string) list" where
  "log_debug c func msg = (if ctlog_level c \<ge> LEVEL_debug then [(LOG_DEBUG, log_text ''[DEBUG] '' c func msg)] else [])"

lemmas level_defs = LEVEL_debug_def LEVEL_info_def LEVEL_notice_def LEVEL_warning_def LEVEL_error_def LEVEL_crit_def
  LEVEL_alert_def LEVEL_emerg_def
lemmas log_defs = log_emerg_def log_alert_def log_crit_def log_error_def log_warning_def log_notice_def log_info_def log_debug_def

section \<open>Levels\<close>

fun prio :: "priority \<Rightarrow> int" where
  "prio LOG_EMERG = 0" | "prio LOG_ALERT = 1" | "prio LOG_CRIT = 2" | "prio LOG_ERR = 3"
| "prio LOG_WARNING = 4" | "prio LOG_NOTICE = 5" | "prio LOG_INFO = 6" | "prio LOG_DEBUG = 7"

fun log_at :: "priority \<Rightarrow> ctlog \<Rightarrow> string \<Rightarrow> string \<Rightarrow> (priority \<times> string) list" where
  "log_at LOG_EMERG = log_emerg" | "log_at LOG_ALERT = log_alert" | "log_at LOG_CRIT = log_crit" | "log_at LOG_ERR = log_error"
| "log_at LOG_WARNING = log_warning" | "log_at LOG_NOTICE = log_notice" | "log_at LOG_INFO = log_info" | "log_at LOG_DEBUG = log_debug"

text \<open>Exactly the priorities below the level are sent, each with its own priority, so that the levels are
  those of \<open>syslog\<close> plus one and more urgent messages always go with less urgent ones; the function and
  the session id, when there is one, come before the message.\<close>

theorem log_at_sent:
  "log_at p c func msg = (if prio p < ctlog_level c then [(p, log_text (the (map_of
     [(LOG_EMERG, ''[EMERG] ''), (LOG_ALERT, ''[ALERT] ''), (LOG_CRIT, ''[CRIT] ''), (LOG_ERR, ''[ERROR] ''), (LOG_WARNING, ''[WARNING] ''),
      (LOG_NOTICE, ''[NOTICE] ''), (LOG_INFO, ''[INFO] ''), (LOG_DEBUG, ''[DEBUG] '')] p)) c func msg)] else [])"
  by (cases p) (auto simp: log_defs level_defs)

lemma log_monotone:
  assumes "prio p \<le> prio p'" "log_at p' c func msg \<noteq> []"
  shows "log_at p c func msg \<noteq> []"
  using assms by (auto simp: log_at_sent split: if_splits)

end
