(* ===== verification/Kv_Store.thy ===== *)
theory Kv_Store
  imports Prelude
begin

text \<open>
  The interface the configuration code uses a dictionary through: a store whose operations may hit
  undefined behaviour (\<open>None\<close>), its representation invariant and the finite map it stands for.
  The laws are what a provider promises; the lemmas on sequences of operations are proved once.
\<close>

text \<open>The effect of a history on the map: \<open>(k, Some v)\<close> stores, \<open>(k, None)\<close> removes.\<close>

fun updates :: "('k \<Rightarrow> 'v option) \<Rightarrow> ('k \<times> 'v option) list \<Rightarrow> 'k \<Rightarrow> 'v option" where
  "updates m [] = m"
| "updates m ((k, v) # ops) = updates (m(k := v)) ops"

locale kv_store =
  fixes inv :: "'s \<Rightarrow> bool"
    and lookup :: "'s \<Rightarrow> 'k \<Rightarrow> 'v option"
    and put :: "'k \<Rightarrow> 'v \<Rightarrow> 's \<Rightarrow> 's option"
  assumes put_law: "inv s \<Longrightarrow> \<exists>s'. put k v s = Some s' \<and> inv s' \<and> lookup s' = (lookup s)(k \<mapsto> v)"
begin

definition put_all :: "('k \<times> 'v) list \<Rightarrow> 's \<Rightarrow> 's option" where
  "put_all kvs s = foldl (\<lambda>r (k, v). Option.bind r (put k v)) (Some s) kvs"

lemma put_all_law:
  "inv s \<Longrightarrow> \<exists>s'. put_all kvs s = Some s' \<and> inv s' \<and> lookup s' = lookup s ++ map_of (rev kvs)"
proof (induction kvs rule: rev_induct)
  case Nil
  then show ?case by (simp add: put_all_def)
next
  case (snoc kv kvs)
  obtain k v where kv: "kv = (k, v)" by (cases kv)
  obtain s1 where s1: "put_all kvs s = Some s1" "inv s1" "lookup s1 = lookup s ++ map_of (rev kvs)"
    using snoc by blast
  obtain s2 where "put k v s1 = Some s2" "inv s2" "lookup s2 = (lookup s1)(k \<mapsto> v)"
    using put_law [OF s1(2)] by blast
  then show ?case using s1 kv by (auto simp: put_all_def map_add_def)
qed

lemma put_overwrite:
  "inv s \<Longrightarrow> \<exists>s1 s2. put k v s = Some s1 \<and> put k w s1 = Some s2 \<and> lookup s2 = (lookup s)(k \<mapsto> w)"
  using put_law [of s k v] put_law [of _ k w] by fastforce

end

locale kv_store_del = kv_store inv lookup put
  for inv :: "'s \<Rightarrow> bool" and lookup :: "'s \<Rightarrow> 'k \<Rightarrow> 'v option" and put :: "'k \<Rightarrow> 'v \<Rightarrow> 's \<Rightarrow> 's option" +
  fixes del :: "'k \<Rightarrow> 's \<Rightarrow> 's option"
  assumes del_law: "inv s \<Longrightarrow> \<exists>s'. del k s = Some s' \<and> inv s' \<and> lookup s' = (lookup s)(k := None)"
begin

lemma put_del:
  assumes "inv s" "lookup s k = None"
  shows "\<exists>s1 s2. put k v s = Some s1 \<and> del k s1 = Some s2 \<and> inv s2 \<and> lookup s2 = lookup s"
proof -
  obtain s1 where s1: "put k v s = Some s1" "inv s1" "lookup s1 = (lookup s)(k \<mapsto> v)"
    using put_law [OF assms(1)] by blast
  obtain s2 where "del k s1 = Some s2" "inv s2" "lookup s2 = (lookup s1)(k := None)"
    using del_law [OF s1(2)] by blast
  moreover have "(lookup s)(k := None) = lookup s" using assms(2) by auto
  ultimately show ?thesis using s1 by auto
qed

fun run :: "('k \<times> 'v option) list \<Rightarrow> 's \<Rightarrow> 's option" where
  "run [] s = Some s"
| "run ((k, v) # ops) s = Option.bind (case v of None \<Rightarrow> del k s | Some v \<Rightarrow> put k v s) (run ops)"

lemma run_law: "inv s \<Longrightarrow> \<exists>s'. run ops s = Some s' \<and> inv s' \<and> lookup s' = updates (lookup s) ops"
proof (induction ops arbitrary: s)
  case (Cons kv ops)
  obtain k v where kv: "kv = (k, v)" by (cases kv)
  have "\<exists>s1. (case v of None \<Rightarrow> del k s | Some v \<Rightarrow> put k v s) = Some s1 \<and> inv s1 \<and>
      lookup s1 = (lookup s)(k := v)"
    using del_law [OF Cons.prems, of k] put_law [OF Cons.prems, of k] by (cases v) auto
  then obtain s1 where s1: "(case v of None \<Rightarrow> del k s | Some v \<Rightarrow> put k v s) = Some s1" "inv s1"
    "lookup s1 = (lookup s)(k := v)" by blast
  then show ?case using Cons.IH [OF s1(2)] kv by (simp del: fun_upd_apply)
qed simp

end

end
