(* ===== verification/Dictionary.thy ===== *)
theory Dictionary
  imports Kv_Store
begin

text \<open>
  Model of \<^verbatim>\<open>c/libgs/dictionary/dictionary.c\<close> (the copies under \<^verbatim>\<open>c/libgs/confparser\<close> and
  \<^verbatim>\<open>samples\<close> are identical): an open array of key/value slots searched linearly, with the hash of
  every key cached. A C string is a \<open>string\<close>, a null pointer in a slot is \<open>None\<close>, and a null array
  (a failed \<open>calloc\<close>) is \<open>[]\<close>. Reading or writing outside an array is undefined behaviour and gives
  \<open>None\<close>. The outcome of the \<open>j\<close>-th allocation a call makes is \<open>ok j\<close>, a parameter.
\<close>

unbundle bit_operations_syntax

section \<open>State and memory\<close>

record dictionary =
  d_n :: int
  d_size :: nat
  d_val :: "string option list"
  d_key :: "string option list"
  d_hash :: "u32 list"

text \<open>The values a \<open>char *\<close> result takes: null, the token \<open>(char*)-1\<close> (\<open>DICT_INVALID_KEY\<close>,
  \<open>INI_INVALID_KEY\<close>), or a string.\<close>

datatype cptr = Null | Invalid | Str string

definition ptr_of :: "string option \<Rightarrow> cptr" where
  "ptr_of s = (case s of None \<Rightarrow> Null | Some t \<Rightarrow> Str t)"

definition DICTMINSZ :: int where
  "DICTMINSZ = 128"

definition mem_double :: "bool \<Rightarrow> 'a \<Rightarrow> 'a list \<Rightarrow> 'a list" where
  "mem_double ok zero ptr = (if ok then ptr @ replicate (length ptr) zero else [])"

definition xstrdup :: "bool \<Rightarrow> string option \<Rightarrow> string option" where
  "xstrdup ok s = (case s of None \<Rightarrow> None | Some t \<Rightarrow> if ok then Some t else None)"

section \<open>Operations\<close>

definition hash_step :: "u32 \<Rightarrow> char \<Rightarrow> u32" where
  "hash_step hash0 c =
    (let hash1 = hash0 + schar (byte_of c);
         hash2 = hash1 + push_bit 10 hash1
     in hash2 XOR drop_bit 6 hash2)"

definition dictionary_hash :: "string \<Rightarrow> u32" where
  "dictionary_hash key =
    (let hash0 = foldl hash_step 0 key;
         hash1 = hash0 + push_bit 3 hash0;
         hash2 = hash1 XOR drop_bit 11 hash1
     in hash2 + push_bit 15 hash2)"

definition dictionary_new :: "(nat \<Rightarrow> bool) \<Rightarrow> int \<Rightarrow> dictionary option" where
  "dictionary_new ok size0 =
    (let size = nat (if size0 < DICTMINSZ then DICTMINSZ else size0) in
     if \<not> ok 0 then None
     else Some \<lparr>d_n = 0, d_size = size,
       d_val = (if ok 1 then replicate size None else []),
       d_key = (if ok 2 then replicate size None else []),
       d_hash = (if ok 3 then replicate size 0 else [])\<rparr>)"

text \<open>The strings handed to \<open>free\<close>, in order.\<close>

definition slot_free :: "dictionary \<Rightarrow> nat \<Rightarrow> string list option" where
  "slot_free d i = do {
     k \<leftarrow> rd (d_key d) i;
     v \<leftarrow> rd (d_val d) i;
     Some ((case k of None \<Rightarrow> [] | Some k \<Rightarrow> [k]) @ (case v of None \<Rightarrow> [] | Some v \<Rightarrow> [v])) }"

definition dictionary_del :: "dictionary option \<Rightarrow> string list option" where
  "dictionary_del d = (case d of None \<Rightarrow> Some []
     | Some d \<Rightarrow> map_option concat (those (map (slot_free d) [0..<d_size d])))"

text \<open>The search loop of \<open>dictionary_get\<close>, \<open>dictionary_set\<close> and \<open>dictionary_unset\<close>: the index where it
  stops, \<open>size\<close> when the key is not found.\<close>

function dict_search :: "dictionary \<Rightarrow> u32 \<Rightarrow> string \<Rightarrow> nat \<Rightarrow> nat option" where
  "dict_search d hash key i =
    (if i < d_size d then do {
       k \<leftarrow> rd (d_key d) i;
       case k of
         None \<Rightarrow> dict_search d hash key (i + 1)
       | Some k \<Rightarrow> do {
           h \<leftarrow> rd (d_hash d) i;
           if hash = h \<and> key = k then Some i else dict_search d hash key (i + 1) } }
     else Some i)"
  by pat_completeness auto
termination by (relation "measure (\<lambda>(d, hash, key, i). d_size d - i)") auto

definition dictionary_get :: "dictionary \<Rightarrow> string \<Rightarrow> cptr \<Rightarrow> cptr option" where
  "dictionary_get d key def = do {
     i \<leftarrow> dict_search d (dictionary_hash key) key 0;
     if i < d_size d then map_option ptr_of (rd (d_val d) i) else Some def }"

function empty_slot :: "dictionary \<Rightarrow> nat \<Rightarrow> nat option" where
  "empty_slot d i =
    (if i < d_size d then do {
       k \<leftarrow> rd (d_key d) i;
       if k = None then Some i else empty_slot d (i + 1) }
     else Some i)"
  by pat_completeness auto
termination by (relation "measure (\<lambda>(d, i). d_size d - i)") auto

definition dict_grow :: "(nat \<Rightarrow> bool) \<Rightarrow> dictionary \<Rightarrow> dictionary" where
  "dict_grow ok d = d\<lparr>
     d_val := mem_double (ok 0) None (d_val d),
     d_key := mem_double (ok 1) None (d_key d),
     d_hash := mem_double (ok 2) 0 (d_hash d)\<rparr>"

definition dict_add :: "(nat \<Rightarrow> bool) \<Rightarrow> dictionary \<Rightarrow> string \<Rightarrow> string option \<Rightarrow> dictionary option" where
  "dict_add ok d key val = do {
     i \<leftarrow> empty_slot d 0;
     ks \<leftarrow> wr (d_key d) i (xstrdup (ok 3) (Some key));
     vs \<leftarrow> wr (d_val d) i (xstrdup (ok 4) val);
     hs \<leftarrow> wr (d_hash d) i (dictionary_hash key);
     Some (d\<lparr>d_key := ks, d_val := vs, d_hash := hs, d_n := d_n d + 1\<rparr>) }"

definition dict_insert ::
  "(nat \<Rightarrow> bool) \<Rightarrow> dictionary \<Rightarrow> string \<Rightarrow> string option \<Rightarrow> (int \<times> dictionary) option" where
  "dict_insert ok d key val =
    (if d_n d = int (d_size d) then
       let d' = dict_grow ok d in
       if \<not> ok 0 \<or> \<not> ok 1 \<or> \<not> ok 2 then Some (-1, d')
       else map_option (Pair 0) (dict_add ok (d'\<lparr>d_size := d_size d' * 2\<rparr>) key val)
     else map_option (Pair 0) (dict_add ok d key val))"

definition dictionary_set ::
  "(nat \<Rightarrow> bool) \<Rightarrow> dictionary option \<Rightarrow> string option \<Rightarrow> string option
     \<Rightarrow> (int \<times> dictionary option) option" where
  "dictionary_set ok d key val =
    (case (d, key) of
       (Some d, Some key) \<Rightarrow> do {
         i \<leftarrow> (if 0 < d_n d then dict_search d (dictionary_hash key) key 0 else Some (d_size d));
         if i < d_size d then do {
           _ \<leftarrow> rd (d_val d) i;
           vs \<leftarrow> wr (d_val d) i (xstrdup (ok 4) val);
           Some (0, Some (d\<lparr>d_val := vs\<rparr>)) }
         else map_option (apsnd Some) (dict_insert ok d key val) }
     | _ \<Rightarrow> Some (-1, d))"

definition dictionary_unset :: "dictionary \<Rightarrow> string option \<Rightarrow> dictionary option" where
  "dictionary_unset d key =
    (case key of None \<Rightarrow> Some d
     | Some key \<Rightarrow> do {
         i \<leftarrow> dict_search d (dictionary_hash key) key 0;
         if d_size d \<le> i then Some d
         else do {
           ks \<leftarrow> wr (d_key d) i None;
           v \<leftarrow> rd (d_val d) i;
           vs \<leftarrow> (if v \<noteq> None then wr (d_val d) i None else Some (d_val d));
           hs \<leftarrow> wr (d_hash d) i 0;
           Some (d\<lparr>d_key := ks, d_val := vs, d_hash := hs, d_n := d_n d - 1\<rparr>) } })"

text \<open>The line \<open>"%20s\t[%s]\n"\<close> prints for a used slot.\<close>

definition pad20 :: "string \<Rightarrow> string" where
  "pad20 s = replicate (20 - length s) CHR '' '' @ s"

definition dump_slot :: "dictionary \<Rightarrow> nat \<Rightarrow> string option" where
  "dump_slot d i = do {
     k \<leftarrow> rd (d_key d) i;
     case k of None \<Rightarrow> Some []
     | Some k \<Rightarrow> do {
         v \<leftarrow> rd (d_val d) i;
         Some (pad20 k @ [CHR 0x09, CHR ''[''] @ (case v of Some v \<Rightarrow> v | None \<Rightarrow> ''UNDEF'') @ [CHR '']'', CHR 0x0A]) } }"

definition dictionary_dump :: "dictionary option \<Rightarrow> bool \<Rightarrow> string option" where
  "dictionary_dump d out =
    (case d of None \<Rightarrow> Some []
     | Some d \<Rightarrow>
         if \<not> out then Some []
         else if d_n d < 1 then Some (''empty dictionary'' @ [CHR 0x0A])
         else map_option concat (those (map (dump_slot d) [0..<d_size d])))"

section \<open>Invariant and abstraction\<close>

abbreviation all_ok :: "nat \<Rightarrow> bool" where
  "all_ok \<equiv> \<lambda>_. True"

definition used :: "dictionary \<Rightarrow> nat" where
  "used d = length (filter (\<lambda>k. k \<noteq> None) (d_key d))"

definition dict_wf :: "dictionary \<Rightarrow> bool" where
  "dict_wf d \<longleftrightarrow>
     length (d_key d) = d_size d \<and> length (d_val d) = d_size d \<and> length (d_hash d) = d_size d \<and>
     0 < d_size d \<and> d_n d = int (used d) \<and>
     (\<forall>i < d_size d. \<forall>j < d_size d. d_key d ! i \<noteq> None \<longrightarrow> d_key d ! i = d_key d ! j \<longrightarrow> i = j) \<and>
     (\<forall>i < d_size d. case d_key d ! i of None \<Rightarrow> True | Some k \<Rightarrow> d_hash d ! i = dictionary_hash k)"

text \<open>The finite map a dictionary stands for; a key may be bound to a null value.\<close>

definition dict_abs :: "dictionary \<Rightarrow> string \<Rightarrow> string option option" where
  "dict_abs d k = map_of (zip (d_key d) (d_val d)) (Some k)"

lemma dict_wfD:
  assumes "dict_wf d"
  shows "length (d_key d) = d_size d" "length (d_val d) = d_size d" "length (d_hash d) = d_size d"
    "0 < d_size d" "d_n d = int (used d)"
    "\<And>i j. i < d_size d \<Longrightarrow> j < d_size d \<Longrightarrow> d_key d ! i = Some k \<Longrightarrow> d_key d ! j = Some k \<Longrightarrow> i = j"
    "\<And>i. i < d_size d \<Longrightarrow> d_key d ! i = Some k \<Longrightarrow> d_hash d ! i = dictionary_hash k"
  using assms by (force simp: dict_wf_def split: option.splits)+

lemma dict_wfI:
  assumes "length (d_key d) = d_size d" "length (d_val d) = d_size d" "length (d_hash d) = d_size d"
    "0 < d_size d" "d_n d = int (used d)"
    "\<And>i j k. i < d_size d \<Longrightarrow> j < d_size d \<Longrightarrow> d_key d ! i = Some k \<Longrightarrow> d_key d ! j = Some k \<Longrightarrow> i = j"
    "\<And>i k. i < d_size d \<Longrightarrow> d_key d ! i = Some k \<Longrightarrow> d_hash d ! i = dictionary_hash k"
  shows "dict_wf d"
  unfolding dict_wf_def
proof (intro conjI allI impI)
  fix i j assume "i < d_size d" "j < d_size d" "d_key d ! i \<noteq> None" "d_key d ! i = d_key d ! j"
  then show "i = j" using assms(6) [of i j] by auto
next
  fix i assume "i < d_size d"
  then show "case d_key d ! i of None \<Rightarrow> True | Some k \<Rightarrow> d_hash d ! i = dictionary_hash k"
    using assms(7) [of i] by (cases "d_key d ! i") simp_all
qed (fact assms)+

lemma dict_abs_at:
  "dict_wf d \<Longrightarrow> i < d_size d \<Longrightarrow> d_key d ! i = Some k \<Longrightarrow> dict_abs d k = Some (d_val d ! i)"
  unfolding dict_abs_def by (rule map_of_zip_unique) (auto simp: dict_wfD(1-2) dest: dict_wfD(6))

lemma dict_abs_None: "dict_wf d \<Longrightarrow> (\<And>i. i < d_size d \<Longrightarrow> d_key d ! i \<noteq> Some k) \<Longrightarrow> dict_abs d k = None"
  unfolding dict_abs_def by (auto simp: map_of_eq_None_iff in_set_conv_nth dict_wfD(1-2))

lemma dict_abs_iff:
  assumes "dict_wf d"
  shows "dict_abs d k = Some v \<longleftrightarrow> (\<exists>i < d_size d. d_key d ! i = Some k \<and> d_val d ! i = v)"
proof (cases "\<exists>i < d_size d. d_key d ! i = Some k")
  case True
  then obtain i where i: "i < d_size d" "d_key d ! i = Some k" by blast
  have u: "j = i" if "j < d_size d" "d_key d ! j = Some k" for j
    using dict_wfD(6) [OF assms that(1) i(1) that(2) i(2)] .
  have "dict_abs d k = Some v \<longleftrightarrow> d_val d ! i = v" using dict_abs_at [OF assms i] by simp
  also have "\<dots> \<longleftrightarrow> (\<exists>i < d_size d. d_key d ! i = Some k \<and> d_val d ! i = v)" using i u by blast
  finally show ?thesis .
qed (use dict_abs_None [OF assms, of k] in auto)

lemma option_eqI: "(\<And>v. x = Some v \<longleftrightarrow> y = Some v) \<Longrightarrow> x = y"
  by (cases x; cases y) auto

lemma dict_abs_eqI:
  assumes "dict_wf d"
    and "\<And>k v. (\<exists>i < d_size d. d_key d ! i = Some k \<and> d_val d ! i = v) \<longleftrightarrow> m k = Some v"
  shows "dict_abs d = m"
proof
  fix k
  show "dict_abs d k = m k"
    by (rule option_eqI) (simp add: dict_abs_iff [OF assms(1)] assms(2))
qed

section \<open>The search loop\<close>

declare dict_search.simps [simp del] empty_slot.simps [simp del]

lemma dict_search_spec:
  assumes "dict_wf d"
  shows "\<exists>j. dict_search d (dictionary_hash key) key i = Some j \<and> (i \<le> d_size d \<longrightarrow> i \<le> j \<and> j \<le> d_size d) \<and>
    (j < d_size d \<longrightarrow> d_key d ! j = Some key) \<and> (\<forall>m. i \<le> m \<and> m < j \<longrightarrow> d_key d ! m \<noteq> Some key)"
proof (induction "d_size d - i" arbitrary: i)
  case 0
  then show ?case using assms by (subst dict_search.simps) auto
next
  case (Suc n)
  then have i: "i < d_size d" by simp
  show ?case
  proof (cases "d_key d ! i = Some key")
    case True
    then show ?thesis using i assms by (subst dict_search.simps) (auto simp: dict_wfD)
  next
    case False
    then have "dict_search d (dictionary_hash key) key i = dict_search d (dictionary_hash key) key (i + 1)"
      using i assms by (subst dict_search.simps) (auto simp: dict_wfD split: option.splits)
    moreover have "n = d_size d - (i + 1)" using Suc.hyps(2) by simp
    from Suc.hyps(1) [OF this] obtain j where "dict_search d (dictionary_hash key) key (i + 1) = Some j"
      "i + 1 \<le> j" "j \<le> d_size d" "j < d_size d \<longrightarrow> d_key d ! j = Some key"
      "\<forall>m. i + 1 \<le> m \<and> m < j \<longrightarrow> d_key d ! m \<noteq> Some key"
      using i by auto
    moreover have "d_key d ! m \<noteq> Some key" if "i \<le> m" "m < j" for m
      using False that calculation(6) by (cases "m = i") auto
    ultimately show ?thesis by (intro exI [of _ j]) auto
  qed
qed

lemma dict_search_cases:
  assumes "dict_wf d"
  obtains (found) i where "dict_search d (dictionary_hash key) key 0 = Some i" "i < d_size d"
      "d_key d ! i = Some key" "dict_abs d key = Some (d_val d ! i)"
  | (missing) "dict_search d (dictionary_hash key) key 0 = Some (d_size d)"
      "\<And>i. i < d_size d \<Longrightarrow> d_key d ! i \<noteq> Some key" "dict_abs d key = None"
proof -
  obtain j where j: "dict_search d (dictionary_hash key) key 0 = Some j" "j \<le> d_size d"
    "j < d_size d \<longrightarrow> d_key d ! j = Some key" "\<forall>m < j. d_key d ! m \<noteq> Some key"
    using dict_search_spec [OF assms, of key 0] by auto
  show ?thesis
  proof (cases "j < d_size d")
    case True
    then show ?thesis using j dict_abs_at [OF assms] by (intro found) auto
  next
    case False
    then have "j = d_size d" using j(2) by simp
    then show ?thesis using j dict_abs_None [OF assms] by (intro missing) auto
  qed
qed

lemma empty_slot_spec:
  assumes "length (d_key d) = d_size d" "\<exists>m. i \<le> m \<and> m < d_size d \<and> d_key d ! m = None"
  shows "\<exists>j. empty_slot d i = Some j \<and> j < d_size d \<and> d_key d ! j = None"
  using assms(2)
proof (induction "d_size d - i" arbitrary: i)
  case (Suc n)
  then have i: "i < d_size d" by simp
  show ?case
  proof (cases "d_key d ! i = None")
    case True
    then show ?thesis using i assms(1) by (subst empty_slot.simps) simp
  next
    case False
    then have "empty_slot d i = empty_slot d (i + 1)"
      using i assms(1) by (subst empty_slot.simps) auto
    moreover have "\<exists>m. i + 1 \<le> m \<and> m < d_size d \<and> d_key d ! m = None"
      using Suc.prems False by (metis Suc_eq_plus1 Suc_leI le_neq_implies_less)
    ultimately show ?thesis using Suc.hyps(1) [of "i + 1"] Suc.hyps(2) by simp
  qed
qed auto

lemma length_filter_eq_iff: "length (filter P xs) = length xs \<longleftrightarrow> (\<forall>x \<in> set xs. P x)"
  using length_filter_less [of _ xs P] by (fastforce simp: filter_id_conv)

lemma used_less: "dict_wf d \<Longrightarrow> used d < d_size d \<longleftrightarrow> (\<exists>m < d_size d. d_key d ! m = None)"
proof -
  assume wf: "dict_wf d"
  have "used d = d_size d \<longleftrightarrow> (\<forall>k \<in> set (d_key d). k \<noteq> None)"
    unfolding used_def dict_wfD(1) [OF wf, symmetric] by (rule length_filter_eq_iff)
  moreover have "used d \<le> d_size d"
    unfolding used_def dict_wfD(1) [OF wf, symmetric] by (rule length_filter_le)
  ultimately show ?thesis by (auto simp: all_set_conv_all_nth dict_wfD(1) [OF wf] le_less)
qed

section \<open>Operations against the map\<close>

lemma dictionary_get_spec:
  "dict_wf d \<Longrightarrow> dictionary_get d key def = Some (case dict_abs d key of None \<Rightarrow> def | Some v \<Rightarrow> ptr_of v)"
  by (rule dict_search_cases [of d key]) (simp_all add: dictionary_get_def dict_wfD)

text \<open>Overwriting slot \<open>i\<close>, the effect of adding or removing an entry.\<close>

definition slot_write :: "dictionary \<Rightarrow> nat \<Rightarrow> string option \<Rightarrow> string option \<Rightarrow> u32 \<Rightarrow> int \<Rightarrow> dictionary" where
  "slot_write d i k v h n =
     d\<lparr>d_key := (d_key d)[i := k], d_val := (d_val d)[i := v], d_hash := (d_hash d)[i := h], d_n := n\<rparr>"

lemma slot_write_sel [simp]:
  "d_size (slot_write d i k v h n) = d_size d"
  "d_key (slot_write d i k v h n) = (d_key d)[i := k]"
  "d_val (slot_write d i k v h n) = (d_val d)[i := v]"
  "d_hash (slot_write d i k v h n) = (d_hash d)[i := h]"
  "d_n (slot_write d i k v h n) = n"
  by (simp_all add: slot_write_def)

lemma ex_update2:
  assumes "i < n" "length xs = n" "length ys = n"
  shows "(\<exists>j < n. xs[i := x] ! j = a \<and> ys[i := y] ! j = b) \<longleftrightarrow>
    x = a \<and> y = b \<or> (\<exists>j < n. j \<noteq> i \<and> xs ! j = a \<and> ys ! j = b)"
proof
  assume "\<exists>j < n. xs[i := x] ! j = a \<and> ys[i := y] ! j = b"
  then obtain j where "j < n" "xs[i := x] ! j = a" "ys[i := y] ! j = b" by blast
  then show "x = a \<and> y = b \<or> (\<exists>j < n. j \<noteq> i \<and> xs ! j = a \<and> ys ! j = b)"
    using assms by (cases "j = i") auto
next
  assume "x = a \<and> y = b \<or> (\<exists>j < n. j \<noteq> i \<and> xs ! j = a \<and> ys ! j = b)"
  then show "\<exists>j < n. xs[i := x] ! j = a \<and> ys[i := y] ! j = b"
  proof
    assume "x = a \<and> y = b"
    then show ?thesis using assms by (intro exI [of _ i]) simp
  next
    assume "\<exists>j < n. j \<noteq> i \<and> xs ! j = a \<and> ys ! j = b"
    then obtain j where "j < n" "j \<noteq> i" "xs ! j = a" "ys ! j = b" by blast
    then show ?thesis by (intro exI [of _ j]) simp
  qed
qed

lemma slot_write_wf:
  assumes wf: "dict_wf d" and i: "i < d_size d"
    and k: "\<And>s j. k = Some s \<Longrightarrow> j < d_size d \<Longrightarrow> d_key d ! j = k \<Longrightarrow> j = i"
    and h: "\<And>s. k = Some s \<Longrightarrow> h = dictionary_hash s"
    and n: "n = d_n d + (if k = None then 0 else 1) - (if d_key d ! i = None then 0 else 1)"
  shows "dict_wf (slot_write d i k v h n)"
proof -
  have "used (slot_write d i k v h n) + (if d_key d ! i = None then 0 else 1)
      = used d + (if k = None then 0 else 1)"
    using length_filter_upd [of i "d_key d" "\<lambda>k. k \<noteq> None" k] i dict_wfD(1) [OF wf]
    by (auto simp: used_def)
  then have "n = int (used (slot_write d i k v h n))"
    using n dict_wfD(5) [OF wf] by (auto split: if_splits)
  moreover have "a = b" if "a < d_size d" "b < d_size d" "(d_key d)[i := k] ! a = Some s"
    "(d_key d)[i := k] ! b = Some s" for a b s
  proof (cases "a = i \<or> b = i")
    case True
    then have ks: "k = Some s" using that i dict_wfD(1) [OF wf] by auto
    have "j = i" if "j < d_size d" "(d_key d)[i := k] ! j = Some s" for j
      using that k [OF ks that(1)] ks by (cases "j = i") auto
    then show ?thesis using that by blast
  next
    case False
    then show ?thesis using that dict_wfD(6) [OF wf] by auto
  qed
  moreover have "(d_hash d)[i := h] ! a = dictionary_hash s"
    if "a < d_size d" "(d_key d)[i := k] ! a = Some s" for a s
    using that i h [of s] dict_wfD(7) [OF wf, of a s] dict_wfD(1,3) [OF wf] by (cases "a = i") auto
  ultimately show ?thesis using dict_wfD(1-4) [OF wf] by (intro dict_wfI) auto
qed

lemma slot_write_abs_put:
  assumes wf: "dict_wf d" "dict_wf (slot_write d i (Some s) v h n)" and i: "i < d_size d"
    and k: "d_key d ! i = None \<or> d_key d ! i = Some s"
  shows "dict_abs (slot_write d i (Some s) v h n) = (dict_abs d)(s \<mapsto> v)"
proof (rule dict_abs_eqI [OF wf(2)])
  fix q w
  have len: "length (d_key d) = d_size d" "length (d_val d) = d_size d" using wf(1) by (simp_all add: dict_wfD)
  have "j = i" if "j < d_size d" "d_key d ! j = Some s" for j
    using dict_wfD(6) [OF wf(2), of j i s] that i len by (cases "j = i") simp_all
  then have "\<not> (\<exists>j < d_size d. j \<noteq> i \<and> d_key d ! j = Some s \<and> d_val d ! j = w)" by blast
  moreover have "d_key d ! i \<noteq> Some q" if "q \<noteq> s" using k that by auto
  ultimately show "(\<exists>j < d_size (slot_write d i (Some s) v h n). d_key (slot_write d i (Some s) v h n) ! j = Some q
      \<and> d_val (slot_write d i (Some s) v h n) ! j = w) \<longleftrightarrow> ((dict_abs d)(s \<mapsto> v)) q = Some w"
    by (cases "q = s") (auto simp: ex_update2 [OF i len] dict_abs_iff [OF wf(1)])
qed

lemma slot_write_abs_del:
  assumes wf: "dict_wf d" "dict_wf (slot_write d i None v h n)" and i: "i < d_size d"
    and k: "d_key d ! i = Some s"
  shows "dict_abs (slot_write d i None v h n) = (dict_abs d)(s := None)"
proof (rule dict_abs_eqI [OF wf(2)])
  fix q w
  have len: "length (d_key d) = d_size d" "length (d_val d) = d_size d" using wf(1) by (simp_all add: dict_wfD)
  have "\<not> (\<exists>j < d_size d. j \<noteq> i \<and> d_key d ! j = Some s \<and> d_val d ! j = w)"
    using dict_wfD(6) [OF wf(1) i, of _ s] k by auto
  then show "(\<exists>j < d_size (slot_write d i None v h n). d_key (slot_write d i None v h n) ! j = Some q
      \<and> d_val (slot_write d i None v h n) ! j = w) \<longleftrightarrow> ((dict_abs d)(s := None)) q = Some w"
    using k by (cases "q = s") (auto simp: ex_update2 [OF i len] dict_abs_iff [OF wf(1)])
qed

lemma dict_add_spec:
  assumes wf: "dict_wf d" and room: "used d < d_size d" and new: "dict_abs d key = None" and ok: "ok 3"
  shows "\<exists>d'. dict_add ok d key val = Some d' \<and> dict_wf d' \<and>
    dict_abs d' = (dict_abs d)(key \<mapsto> xstrdup (ok 4) val)"
proof -
  obtain i where i: "empty_slot d 0 = Some i" "i < d_size d" "d_key d ! i = None"
    using empty_slot_spec [OF dict_wfD(1) [OF wf], of 0] room used_less [OF wf] by auto
  let ?d = "slot_write d i (Some key) (xstrdup (ok 4) val) (dictionary_hash key) (d_n d + 1)"
  have "dict_add ok d key val = Some ?d"
    using i wf ok by (simp add: dict_add_def xstrdup_def dict_wfD slot_write_def)
  moreover have wf': "dict_wf ?d"
    using i new by (intro slot_write_wf [OF wf]) (auto dest: dict_abs_at [OF wf])
  ultimately show ?thesis using slot_write_abs_put [OF wf wf' i(2)] i(3) by auto
qed

lemma dict_grow_spec:
  fixes d ok defines "d' \<equiv> (dict_grow ok d)\<lparr>d_size := d_size (dict_grow ok d) * 2\<rparr>"
  assumes wf: "dict_wf d" and ok: "ok 0" "ok 1" "ok 2"
  shows "dict_wf d'" "dict_abs d' = dict_abs d" "used d' < d_size d'"
proof -
  have u: "used d' = used d" using ok by (simp add: d'_def used_def dict_grow_def mem_double_def)
  have "used d \<le> d_size d" using dict_wfD(1) [OF wf] by (metis used_def length_filter_le)
  then show "used d' < d_size d'" using u dict_wfD(4) [OF wf] by (simp add: d'_def dict_grow_def)
  have sel: "d_size d' = 2 * d_size d" "d_key d' = d_key d @ replicate (d_size d) None"
    "d_val d' = d_val d @ replicate (d_size d) None" "d_hash d' = d_hash d @ replicate (d_size d) 0"
    "d_n d' = d_n d"
    using wf ok by (simp_all add: d'_def dict_grow_def mem_double_def dict_wfD)
  have at: "j < d_size d \<and> d_key d ! j = Some s" if "j < d_size d'" "d_key d' ! j = Some s" for j s
    using that dict_wfD(1) [OF wf] by (auto simp: sel nth_append split: if_splits)
  have val: "d_key d' ! j = d_key d ! j" "d_val d' ! j = d_val d ! j" "d_hash d' ! j = d_hash d ! j"
    if "j < d_size d" for j using that wf by (simp_all add: sel nth_append dict_wfD)
  show wf': "dict_wf d'"
  proof (rule dict_wfI)
    show "i = j" if "i < d_size d'" "j < d_size d'" "d_key d' ! i = Some k" "d_key d' ! j = Some k" for i j k
      using dict_wfD(6) [OF wf] at [OF that(1,3)] at [OF that(2,4)] by blast
    show "d_hash d' ! i = dictionary_hash k" if "i < d_size d'" "d_key d' ! i = Some k" for i k
      using dict_wfD(7) [OF wf] at [OF that] val(3) by simp
  qed (use wf u in \<open>simp_all add: sel dict_wfD\<close>)
  have "(\<exists>j < d_size d'. d_key d' ! j = Some q \<and> d_val d' ! j = w) \<longleftrightarrow>
      (\<exists>j < d_size d. d_key d ! j = Some q \<and> d_val d ! j = w)" for q w
    using at val sel(1) by (metis less_le_trans le_add2 mult_2)
  then show "dict_abs d' = dict_abs d"
    by (intro dict_abs_eqI [OF wf']) (simp add: dict_abs_iff [OF wf])
qed

lemma dict_insert_spec:
  assumes wf: "dict_wf d" and new: "dict_abs d key = None" and ok: "\<forall>j < 4. ok j"
  shows "\<exists>d'. dict_insert ok d key val = Some (0, d') \<and> dict_wf d' \<and>
    dict_abs d' = (dict_abs d)(key \<mapsto> xstrdup (ok 4) val)"
proof (cases "d_n d = int (d_size d)")
  case True
  let ?g = "(dict_grow ok d)\<lparr>d_size := d_size (dict_grow ok d) * 2\<rparr>"
  have g: "dict_wf ?g" "dict_abs ?g = dict_abs d" "used ?g < d_size ?g"
    using dict_grow_spec [OF wf, of ok] ok by simp_all
  then show ?thesis using True dict_add_spec [OF g(1,3), of key ok val] new ok
    by (auto simp: dict_insert_def Let_def)
next
  case False
  have "used d \<le> d_size d" using dict_wfD(1) [OF wf] by (metis used_def length_filter_le)
  then have "used d < d_size d" using False dict_wfD(5) [OF wf] by simp
  then show ?thesis using False dict_add_spec [OF wf _ new, of ok val] ok
    by (auto simp: dict_insert_def)
qed

lemma dict_search_if:
  "dict_wf d \<Longrightarrow> (if 0 < d_n d then dict_search d (dictionary_hash key) key 0 else Some (d_size d))
     = dict_search d (dictionary_hash key) key 0"
proof (rule dict_search_cases [of d key])
  fix i assume wf: "dict_wf d" and i: "i < d_size d" "d_key d ! i = Some key"
  then have "0 < used d"
    unfolding used_def using dict_wfD(1) [OF wf]
    by (auto simp: length_greater_0_conv filter_empty_conv intro!: nth_mem exI [of _ key])
  then show ?thesis using dict_wfD(5) [OF wf] by simp
qed simp_all

lemma dictionary_set_spec:
  assumes wf: "dict_wf d" and ok: "\<forall>j < 4. ok j"
  shows "\<exists>d'. dictionary_set ok (Some d) (Some key) val = Some (0, Some d') \<and> dict_wf d' \<and>
    dict_abs d' = (dict_abs d)(key \<mapsto> xstrdup (ok 4) val)"
  using wf
proof (cases rule: dict_search_cases [of d key])
  case (found i)
  let ?v = "xstrdup (ok 4) val"
  let ?d = "slot_write d i (Some key) ?v (dictionary_hash key) (d_n d)"
  have "d\<lparr>d_val := (d_val d)[i := ?v]\<rparr> = ?d"
    using list_update_id [of "d_key d" i] list_update_id [of "d_hash d" i] found(3) dict_wfD(7) [OF wf found(2,3)]
    by (simp add: slot_write_def)
  then have "dictionary_set ok (Some d) (Some key) val = Some (0, Some ?d)"
    using found dict_wfD(2) [OF wf] by (simp add: dictionary_set_def dict_search_if [OF wf])
  moreover have wf': "dict_wf ?d"
  proof (rule slot_write_wf [OF wf found(2)])
    show "j = i" if "Some key = Some s" "j < d_size d" "d_key d ! j = Some key" for s j
      using dict_wfD(6) [OF wf that(2) found(2) that(3) found(3)] .
  qed (use found(3) in simp_all)
  ultimately show ?thesis using slot_write_abs_put [OF wf wf' found(2)] found(3) by auto
next
  case missing
  then show ?thesis using dict_insert_spec [OF wf missing(3) ok, of val]
    by (auto simp: dictionary_set_def dict_search_if [OF wf])
qed

lemma dictionary_unset_spec:
  assumes wf: "dict_wf d"
  shows "\<exists>d'. dictionary_unset d (Some key) = Some d' \<and> dict_wf d' \<and> dict_abs d' = (dict_abs d)(key := None)"
  using wf
proof (cases rule: dict_search_cases [of d key])
  case (found i)
  let ?d = "slot_write d i None None 0 (d_n d - 1)"
  have "(if d_val d ! i \<noteq> None then wr (d_val d) i None else Some (d_val d)) = Some ((d_val d)[i := None])"
    using found(2) wf by (simp add: dict_wfD) (metis list_update_id)
  then have "dictionary_unset d (Some key) = Some ?d"
    using found wf by (simp add: dictionary_unset_def dict_wfD slot_write_def)
  moreover have wf': "dict_wf ?d"
    using found by (intro slot_write_wf [OF wf]) auto
  ultimately show ?thesis using slot_write_abs_del [OF wf wf' found(2,3)] by auto
next
  case missing
  then show ?thesis using wf by (auto simp: dictionary_unset_def)
qed

lemma dictionary_new_spec:
  assumes "\<forall>j < 4. ok j"
  shows "\<exists>d. dictionary_new ok sz = Some d \<and> dict_wf d \<and> dict_abs d = Map.empty"
proof -
  let ?d = "\<lparr>d_n = 0, d_size = nat (max DICTMINSZ sz), d_val = replicate (nat (max DICTMINSZ sz)) None,
    d_key = replicate (nat (max DICTMINSZ sz)) None, d_hash = replicate (nat (max DICTMINSZ sz)) 0\<rparr>"
  have "dictionary_new ok sz = Some ?d"
    using assms by (auto simp: dictionary_new_def Let_def max_def)
  moreover have wf: "dict_wf ?d" by (rule dict_wfI) (simp_all add: used_def DICTMINSZ_def)
  moreover have "dict_abs ?d = Map.empty"
    by (rule ext, rule dict_abs_None [OF wf]) simp
  ultimately show ?thesis by blast
qed


section \<open>The store interface\<close>

definition dict_put :: "string \<Rightarrow> string option \<Rightarrow> dictionary \<Rightarrow> dictionary option" where
  "dict_put k v d = Option.bind (dictionary_set all_ok (Some d) (Some k) v) snd"

definition dict_del :: "string \<Rightarrow> dictionary \<Rightarrow> dictionary option" where
  "dict_del k d = dictionary_unset d (Some k)"

lemma xstrdup_ok [simp]: "xstrdup True s = s"
  by (simp add: xstrdup_def split: option.splits)

interpretation dict: kv_store_del dict_wf dict_abs dict_put dict_del
proof unfold_locales
  show "\<exists>s'. dict_put k v s = Some s' \<and> dict_wf s' \<and> dict_abs s' = (dict_abs s)(k \<mapsto> v)" if "dict_wf s" for s k v
    using dictionary_set_spec [OF that, of all_ok k v] by (auto simp: dict_put_def)
  show "\<exists>s'. dict_del k s = Some s' \<and> dict_wf s' \<and> dict_abs s' = (dict_abs s)(k := None)" if "dict_wf s" for s k
    using dictionary_unset_spec [OF that, of k] by (auto simp: dict_del_def)
qed

text \<open>A program's calls on one dictionary: \<open>(k, Some v)\<close> is \<open>dictionary_set\<close>, \<open>(k, None)\<close> is
  \<open>dictionary_unset\<close>.\<close>

fun dict_run :: "(string \<times> string option option) list \<Rightarrow> dictionary \<Rightarrow> dictionary option" where
  "dict_run [] d = Some d"
| "dict_run ((k, Some v) # ops) d = Option.bind (dictionary_set all_ok (Some d) (Some k) v) (\<lambda>(_, d').
     Option.bind d' (dict_run ops))"
| "dict_run ((k, None) # ops) d = Option.bind (dictionary_unset d (Some k)) (dict_run ops)"

lemma dict_run_Cons:
  "dict_run ((k, v) # ops) d = Option.bind (case v of None \<Rightarrow> dict_del k d | Some v \<Rightarrow> dict_put k v d) (dict_run ops)"
  by (cases v; cases "dictionary_set all_ok (Some d) (Some k) (the v)") (auto simp: dict_put_def dict_del_def)

lemma dict_run_eq: "dict_run ops d = dict.run ops d"
proof (induction ops arbitrary: d)
  case (Cons kv ops)
  then have "dict_run ops = dict.run ops" by blast
  then show ?case by (cases kv) (simp add: dict_run_Cons del: dict_run.simps(2,3))
qed simp

definition dict_one :: "string \<Rightarrow> string \<Rightarrow> dictionary" where
  "dict_one k v = \<lparr>d_n = 1, d_size = 1, d_val = [Some v], d_key = [Some k], d_hash = [dictionary_hash k]\<rparr>"

lemma dict_one_wf: "dict_wf (dict_one k v)" "dict_abs (dict_one k v) = [k \<mapsto> Some v]"
  by (auto simp: dict_wf_def dict_one_def used_def dict_abs_def)

section \<open>Properties\<close>

text \<open>C6: after any sequence of \<open>dictionary_set\<close> and \<open>dictionary_unset\<close> on a new dictionary of any
  requested size, growing as often as needed, no access leaves the arrays and \<open>dictionary_get\<close>
  answers the last value stored under the key and not removed since, or the default.\<close>

theorem dictionary_history:
  "\<exists>d d'. dictionary_new all_ok sz = Some d \<and> dict_run ops d = Some d' \<and> dict_wf d' \<and>
     (\<forall>key def. dictionary_get d' key def =
        Some (case updates Map.empty ops key of None \<Rightarrow> def | Some v \<Rightarrow> ptr_of v))"
proof -
  obtain d where d: "dictionary_new all_ok sz = Some d" "dict_wf d" "dict_abs d = Map.empty"
    using dictionary_new_spec [of all_ok sz] by blast
  obtain d' where "dict_run ops d = Some d'" "dict_wf d'"
    "dict_abs d' = updates Map.empty ops"
    using dict.run_law [OF d(2), of ops] d(3) by (auto simp: dict_run_eq)
  then show ?thesis using d(1) dictionary_get_spec by fastforce
qed

text \<open>One call of \<open>dictionary_set\<close> on a well-formed dictionary, existing key or new key, full
  arrays or not: it returns 0, keeps the representation well formed and changes exactly the
  binding of the key; if only the copy of the value cannot be allocated the key is bound to null.\<close>

theorem dictionary_set_correct:
  assumes "dict_wf d" "\<forall>j < 4. ok j"
  shows "\<exists>d'. dictionary_set ok (Some d) (Some key) val = Some (0, Some d') \<and> dict_wf d' \<and>
    dict_abs d' = (dict_abs d)(key \<mapsto> (if ok 4 then val else None))"
proof -
  have "xstrdup (ok 4) val = (if ok 4 then val else None)" by (simp add: xstrdup_def split: option.splits)
  then show ?thesis using dictionary_set_spec [OF assms, of key val] by simp
qed

theorem dictionary_set_correct_witness:
  "\<exists>d'. dictionary_set all_ok (Some (dict_one ''a'' ''1'')) (Some ''b'') (Some ''2'') = Some (0, Some d') \<and>
    dict_wf d' \<and> dict_abs d' = [''a'' \<mapsto> Some ''1'', ''b'' \<mapsto> Some ''2'']"
  using dictionary_set_correct [OF dict_one_wf(1), of all_ok "''a''" "''1''" "''b''" "Some ''2''"]
  by (simp add: dict_one_wf)

text \<open>\<open>dictionary_unset\<close> removes exactly the binding of its key and keeps the dictionary well
  formed; a key that is not there, or a null key, changes nothing.\<close>

theorem dictionary_unset_correct:
  assumes "dict_wf d"
  shows "dictionary_unset d None = Some d \<and>
    (\<exists>d'. dictionary_unset d (Some key) = Some d' \<and> dict_wf d' \<and> dict_abs d' = (dict_abs d)(key := None) \<and>
      (dict_abs d key = None \<longrightarrow> d' = d))"
proof -
  have "dictionary_unset d (Some key) = Some d" if "dict_abs d key = None"
    using assms that by (cases rule: dict_search_cases [of d key]) (simp_all add: dictionary_unset_def)
  then show ?thesis using dictionary_unset_spec [OF assms, of key] by (auto simp: dictionary_unset_def)
qed

theorem dictionary_unset_correct_witness:
  "\<exists>d'. dictionary_unset (dict_one ''a'' ''1'') (Some ''a'') = Some d' \<and> dict_wf d' \<and> dict_abs d' = Map.empty"
  using dictionary_unset_correct [OF dict_one_wf(1), of "''a''" "''1''" "''a''"]
  by (auto simp: dict_one_wf)

text \<open>When the arrays cannot be doubled \<open>dictionary_set\<close> reports failure but has already
  overwritten the array pointers with null: every later search on that dictionary is undefined
  behaviour.\<close>

theorem dictionary_set_grow_failure:
  assumes "dict_wf d" "d_n d = int (d_size d)" "dict_abs d key = None" "\<not> ok 1"
  shows "\<exists>d'. dictionary_set ok (Some d) (Some key) val = Some (-1, Some d') \<and>
    (\<forall>k def. dictionary_get d' k def = None)"
proof -
  let ?d = "dict_grow ok d"
  have "dict_search d (dictionary_hash key) key 0 = Some (d_size d)"
    using assms(1,3) by (cases rule: dict_search_cases [of d key]) simp_all
  then have "dictionary_set ok (Some d) (Some key) val = Some (-1, Some ?d)"
    using assms by (simp add: dictionary_set_def dict_insert_def Let_def)
  moreover have "dictionary_get ?d k def = None" for k def
    using assms(4) dict_wfD(4) [OF assms(1)]
    by (simp add: dictionary_get_def dict_grow_def mem_double_def dict_search.simps [of _ _ _ 0] rd_def)
  ultimately show ?thesis by blast
qed

theorem dictionary_set_grow_failure_witness:
  "\<exists>d'. dictionary_set (\<lambda>j. j \<noteq> 1) (Some (dict_one ''a'' ''1'')) (Some ''b'') None = Some (-1, Some d') \<and>
    (\<forall>k def. dictionary_get d' k def = None)"
  by (rule dictionary_set_grow_failure [OF dict_one_wf(1)]) (simp_all add: dict_one_wf, simp add: dict_one_def)

end
