(* ===== verification/Iniparser.thy ===== *)
theory Iniparser
  imports Dictionary
begin

text \<open>
  Model of \<^verbatim>\<open>c/libgs/confparser/iniparser.c\<close>: the ini parser on top of \<open>Dictionary\<close>. A line buffer is
  the \<open>string\<close> before its terminator, a file is the string of its characters, \<open>fgets\<close> and \<open>sscanf\<close>
  are modelled as the C standard describes them, \<open>isspace\<close> and \<open>tolower\<close> for the C locale. The
  result \<open>None\<close> is undefined behaviour. Messages on \<open>stderr\<close> are not modelled. The two versions of the
  parser, \<open>sprintf\<close> (\<^verbatim>\<open>c/libgs\<close>) and \<open>snprintf\<close> (the copies under \<^verbatim>\<open>samples\<close>), differ in how
  the key is put together; \<open>fmt\<close> is that step.
\<close>

section \<open>Characters and strings\<close>

definition ASCIILINESZ :: nat where
  "ASCIILINESZ = 1024"

definition isspace :: "char \<Rightarrow> bool" where
  "isspace c = (let n = of_char c :: nat in n = 32 \<or> 9 \<le> n \<and> n \<le> 13)"

abbreviation NUL :: char where "NUL \<equiv> CHR 0x00"
abbreviation LF :: char where "LF \<equiv> CHR 0x0A"
abbreviation CR :: char where "CR \<equiv> CHR 0x0D"
abbreviation BSL :: char where "BSL \<equiv> CHR 0x5C"
abbreviation DQ :: char where "DQ \<equiv> CHR 0x22"
abbreviation SQ :: char where "SQ \<equiv> CHR 0x27"

definition cstr :: "string \<Rightarrow> string" where
  "cstr s = takeWhile (\<lambda>c. c \<noteq> NUL) s"

definition strlwc :: "string \<Rightarrow> string" where
  "strlwc s = map tolower (take ASCIILINESZ s)"

definition rstrip :: "string \<Rightarrow> string" where
  "rstrip s = rev (dropWhile isspace (rev s))"

definition strstrip :: "string \<Rightarrow> string" where
  "strstrip s = rstrip (dropWhile isspace s)"

text \<open>The directives of the \<open>sscanf\<close> formats: a literal, white space, a scan set; the result is the
  list of the strings assigned.\<close>

datatype directive = Lit char | Ws | Conv "char \<Rightarrow> bool"

fun sscanf :: "directive list \<Rightarrow> string \<Rightarrow> string list" where
  "sscanf [] s = []"
| "sscanf (Ws # f) s = sscanf f (dropWhile isspace s)"
| "sscanf (Lit c # f) s = (case s of [] \<Rightarrow> [] | x # xs \<Rightarrow> if x = c then sscanf f xs else [])"
| "sscanf (Conv P # f) s =
     (let t = takeWhile P s in if t = [] then [] else t # sscanf f (dropWhile P s))"

section \<open>Queries and dumps\<close>

definition dict_slots :: "dictionary \<Rightarrow> (string option \<times> string option) list option" where
  "dict_slots d = those (map (\<lambda>i. do { k \<leftarrow> rd (d_key d) i; v \<leftarrow> rd (d_val d) i; Some (k, v) }) [0..<d_size d])"

definition is_section :: "string option \<Rightarrow> bool" where
  "is_section k = (case k of None \<Rightarrow> False | Some k \<Rightarrow> CHR '':'' \<notin> set k)"

definition iniparser_getnsec :: "dictionary option \<Rightarrow> int option" where
  "iniparser_getnsec d = (case d of None \<Rightarrow> Some (-1)
     | Some d \<Rightarrow> map_option (\<lambda>ss. int (length (filter (is_section \<circ> fst) ss))) (dict_slots d))"

fun secname_loop :: "(string option \<times> string option) list \<Rightarrow> int \<Rightarrow> int \<Rightarrow> string option" where
  "secname_loop [] foundsec n = None"
| "secname_loop ((k, v) # ss) foundsec n =
    (if is_section k then (if n < foundsec + 1 then k else secname_loop ss (foundsec + 1) n)
     else secname_loop ss foundsec n)"

definition iniparser_getsecname :: "dictionary option \<Rightarrow> int \<Rightarrow> string option option" where
  "iniparser_getsecname d n = (case d of None \<Rightarrow> Some None
     | Some d \<Rightarrow> if n < 0 then Some None else map_option (\<lambda>ss. secname_loop ss 0 n) (dict_slots d))"

definition dump_line :: "string option \<times> string option \<Rightarrow> string" where
  "dump_line kv = (case kv of
      (None, _) \<Rightarrow> []
    | (Some k, Some v) \<Rightarrow> CHR ''['' # k @ '']=['' @ v @ [CHR '']'', LF]
    | (Some k, None) \<Rightarrow> CHR ''['' # k @ '']=UNDEF'' @ [LF])"

definition iniparser_dump :: "dictionary option \<Rightarrow> bool \<Rightarrow> string option" where
  "iniparser_dump d f = (case d of None \<Rightarrow> Some []
     | Some d \<Rightarrow> if \<not> f then Some [] else map_option (concat \<circ> map dump_line) (dict_slots d))"

text \<open>\<open>"%s = %s\n"\<close> with a null value prints \<open>(null)\<close>.\<close>

definition dump_flat :: "string option \<times> string option \<Rightarrow> string" where
  "dump_flat kv = (case kv of
      (None, _) \<Rightarrow> []
    | (Some k, v) \<Rightarrow> k @ '' = '' @ (case v of None \<Rightarrow> ''(null)'' | Some v \<Rightarrow> v) @ [LF])"

definition dump_key :: "string \<Rightarrow> string option \<times> string option \<Rightarrow> string" where
  "dump_key keym kv = (case kv of
      (None, _) \<Rightarrow> []
    | (Some k, v) \<Rightarrow>
        if take (length keym) k = keym then
          (let key = drop (length keym) k
           in key @ replicate (30 - length key) CHR '' '' @ '' = '' @ (case v of None \<Rightarrow> [] | Some v \<Rightarrow> v) @ [LF])
        else [])"

definition dump_section :: "(string option \<times> string option) list \<Rightarrow> nat \<Rightarrow> string option" where
  "dump_section ss i = (case secname_loop ss 0 (int i) of None \<Rightarrow> None
     | Some secname \<Rightarrow>
         if length secname + 1 \<le> ASCIILINESZ then
           Some (LF # CHR ''['' # secname @ [CHR '']'', LF] @ concat (map (dump_key (secname @ '':'')) ss))
         else None)"

definition iniparser_dump_ini :: "dictionary option \<Rightarrow> bool \<Rightarrow> string option" where
  "iniparser_dump_ini d f = (case d of None \<Rightarrow> Some []
     | Some d \<Rightarrow>
         if \<not> f then Some []
         else do {
           ss \<leftarrow> dict_slots d;
           let nsec = length (filter (is_section \<circ> fst) ss);
           if nsec < 1 then Some (concat (map dump_flat ss))
           else map_option (\<lambda>out. concat out @ [LF]) (those (map (dump_section ss) [0..<nsec])) })"

definition iniparser_getstring :: "dictionary option \<Rightarrow> string option \<Rightarrow> cptr \<Rightarrow> cptr option" where
  "iniparser_getstring d key def = (case (d, key) of
      (Some d, Some key) \<Rightarrow> dictionary_get d (strlwc key) def
    | _ \<Rightarrow> Some def)"

text \<open>\<open>strtol (str, NULL, 0)\<close>: white space, sign, base prefix, digits, saturation at 64 bits.\<close>

definition digit_val :: "char \<Rightarrow> nat" where
  "digit_val c = (let n = of_char c :: nat in
     if 48 \<le> n \<and> n \<le> 57 then n - 48
     else if 97 \<le> n \<and> n \<le> 122 then n - 87
     else if 65 \<le> n \<and> n \<le> 90 then n - 55 else 99)"

definition digits_of :: "nat \<Rightarrow> string \<Rightarrow> int" where
  "digits_of base s = foldl (\<lambda>a c. a * int base + int (digit_val c)) 0 (takeWhile (\<lambda>c. digit_val c < base) s)"

definition unsigned_of :: "string \<Rightarrow> int" where
  "unsigned_of s = (case s of
      c # x # d # _ \<Rightarrow>
        if c = CHR ''0'' \<and> (x = CHR ''x'' \<or> x = CHR ''X'') \<and> digit_val d < 16 then digits_of 16 (drop 2 s)
        else if c = CHR ''0'' then digits_of 8 s else digits_of 10 s
    | c # _ \<Rightarrow> if c = CHR ''0'' then digits_of 8 s else digits_of 10 s
    | [] \<Rightarrow> 0)"

definition strtol :: "string \<Rightarrow> int" where
  "strtol str =
    (let s = dropWhile isspace str;
         v = (case s of
             c # t \<Rightarrow> if c = CHR ''-'' then - unsigned_of t
                      else if c = CHR ''+'' then unsigned_of t else unsigned_of s
           | [] \<Rightarrow> 0)
     in max (- (2 ^ 63)) (min (2 ^ 63 - 1) v))"

text \<open>The conversion \<open>(int)\<close> of a \<open>long\<close>.\<close>

definition to_int :: "int \<Rightarrow> int" where
  "to_int v = sint (word_of_int v :: u32)"

definition iniparser_getint :: "dictionary option \<Rightarrow> string option \<Rightarrow> int \<Rightarrow> int option" where
  "iniparser_getint d key notfound = do {
     str \<leftarrow> iniparser_getstring d key Invalid;
     case str of Invalid \<Rightarrow> Some notfound | Null \<Rightarrow> None | Str s \<Rightarrow> Some (to_int (strtol s)) }"

text \<open>\<open>atof\<close> is a parameter: no result depends on floating point.\<close>

definition iniparser_getdouble :: "(string \<Rightarrow> 'd) \<Rightarrow> dictionary option \<Rightarrow> string option \<Rightarrow> 'd \<Rightarrow> 'd option" where
  "iniparser_getdouble atof d key notfound = do {
     str \<leftarrow> iniparser_getstring d key Invalid;
     case str of Invalid \<Rightarrow> Some notfound | Null \<Rightarrow> None | Str s \<Rightarrow> Some (atof s) }"

definition iniparser_getboolean :: "dictionary option \<Rightarrow> string option \<Rightarrow> int \<Rightarrow> int option" where
  "iniparser_getboolean d key notfound = do {
     str \<leftarrow> iniparser_getstring d key Invalid;
     case str of
       Invalid \<Rightarrow> Some notfound
     | Null \<Rightarrow> None
     | Str s \<Rightarrow>
         (let c = (case s of [] \<Rightarrow> NUL | c # _ \<Rightarrow> c) in
          if c \<in> set ''yY1tT'' then Some 1
          else if c \<in> set ''nN0fF'' then Some 0
          else Some notfound) }"

definition iniparser_find_entry :: "dictionary option \<Rightarrow> string option \<Rightarrow> int option" where
  "iniparser_find_entry ini entry = do {
     str \<leftarrow> iniparser_getstring ini entry Invalid;
     Some (if str \<noteq> Invalid then 1 else 0) }"

definition iniparser_set ::
  "(nat \<Rightarrow> bool) \<Rightarrow> dictionary option \<Rightarrow> string option \<Rightarrow> string option \<Rightarrow> (int \<times> dictionary option) option" where
  "iniparser_set ok ini entry val = dictionary_set ok ini (map_option strlwc entry) val"

definition iniparser_unset :: "dictionary \<Rightarrow> string option \<Rightarrow> dictionary option" where
  "iniparser_unset ini entry = dictionary_unset ini (map_option strlwc entry)"

section \<open>Lines\<close>

datatype line_status = LINE_UNPROCESSED | LINE_ERROR | LINE_EMPTY | LINE_COMMENT | LINE_SECTION | LINE_VALUE

definition fmt_section :: "directive list" where
  "fmt_section = [Lit CHR ''['', Conv (\<lambda>c. c \<noteq> CHR '']'')]"

definition fmt_dquote :: "directive list" where
  "fmt_dquote = [Conv (\<lambda>c. c \<noteq> CHR ''=''), Ws, Lit CHR ''='', Ws, Lit DQ, Conv (\<lambda>c. c \<noteq> DQ), Lit DQ]"

definition fmt_squote :: "directive list" where
  "fmt_squote = [Conv (\<lambda>c. c \<noteq> CHR ''=''), Ws, Lit CHR ''='', Ws, Lit SQ, Conv (\<lambda>c. c \<noteq> SQ), Lit SQ]"

definition fmt_plain :: "directive list" where
  "fmt_plain = [Conv (\<lambda>c. c \<noteq> CHR ''=''), Ws, Lit CHR ''='', Ws, Conv (\<lambda>c. c \<noteq> CHR '';'' \<and> c \<noteq> CHR ''#'')]"

definition fmt_mark :: "directive list" where
  "fmt_mark = [Conv (\<lambda>c. c \<noteq> CHR ''=''), Ws, Lit CHR ''='', Ws, Conv (\<lambda>c. c = CHR '';'' \<or> c = CHR ''#'')]"

definition fmt_bare :: "directive list" where
  "fmt_bare = [Conv (\<lambda>c. c \<noteq> CHR ''=''), Ws, Conv (\<lambda>c. c = CHR ''='')]"

text \<open>One \<open>sscanf (line, fmt, key, value)\<close>: the buffers it leaves and whether it assigned both.\<close>

definition scan2 :: "directive list \<Rightarrow> string \<Rightarrow> string \<times> string \<Rightarrow> bool \<times> string \<times> string" where
  "scan2 f line kv = (case sscanf f line of
      k # v # _ \<Rightarrow> (True, k, v)
    | [k] \<Rightarrow> (False, k, snd kv)
    | [] \<Rightarrow> (False, kv))"

text \<open>A chain \<open>sscanf (...) == 2 || ...\<close>.\<close>

fun scan_any :: "directive list list \<Rightarrow> string \<Rightarrow> string \<times> string \<Rightarrow> bool \<times> string \<times> string" where
  "scan_any [] line kv = (False, kv)"
| "scan_any (f # fs) line kv =
    (let (ok, kv') = scan2 f line kv in if ok then (True, kv') else scan_any fs line kv')"

definition iniparser_line ::
  "string \<Rightarrow> string \<times> string \<times> string \<Rightarrow> line_status \<times> string \<times> string \<times> string" where
  "iniparser_line input_line bufs =
    (let (section, key, value) = bufs;
         line = strstrip input_line
     in if line = [] then (LINE_EMPTY, section, key, value)
        else if hd line = CHR ''#'' then (LINE_COMMENT, section, key, value)
        else if hd line = CHR ''['' \<and> last line = CHR '']'' then
          let section' = (case sscanf fmt_section line of [] \<Rightarrow> section | s # _ \<Rightarrow> s)
          in (LINE_SECTION, strlwc (strstrip section'), key, value)
        else
          let (ok1, key1, value1) = scan_any [fmt_dquote, fmt_squote, fmt_plain] line (key, value)
          in if ok1 then
               let value' = strstrip value1
               in (LINE_VALUE, section, strlwc (strstrip key1),
                   if value' = [DQ, DQ] \<or> value' = [SQ, SQ] then [] else value')
             else
               let (ok2, key2, value2) = scan_any [fmt_mark, fmt_bare] line (key1, value1)
               in if ok2 then (LINE_VALUE, section, strlwc (strstrip key2), [])
                  else (LINE_ERROR, section, key2, value2))"

section \<open>Loading\<close>

text \<open>\<open>sprintf\<close> and \<open>snprintf\<close> of the full key into \<open>tmp [ASCIILINESZ+1]\<close>.\<close>

definition key_sprintf :: "string \<Rightarrow> string \<Rightarrow> string option" where
  "key_sprintf section key =
    (let tmp = section @ CHR '':'' # key in if length tmp \<le> ASCIILINESZ then Some tmp else None)"

definition key_snprintf :: "string \<Rightarrow> string \<Rightarrow> string option" where
  "key_snprintf section key = Some (take ASCIILINESZ (section @ CHR '':'' # key))"

record load_state =
  l_section :: string
  l_key :: string
  l_val :: string
  l_errs :: int
  l_dict :: dictionary

text \<open>The body of the loop after the line has been assembled: the \<open>switch\<close>.\<close>

definition load_line ::
  "(string \<Rightarrow> string \<Rightarrow> string option) \<Rightarrow> (nat \<Rightarrow> bool) \<Rightarrow> string \<Rightarrow> load_state \<Rightarrow> load_state option" where
  "load_line fmt ok line st =
    (case iniparser_line line (l_section st, l_key st, l_val st) of (sta, section, key, val) \<Rightarrow>
       let st' = st\<lparr>l_section := section, l_key := key, l_val := val\<rparr> in
       case sta of
         LINE_SECTION \<Rightarrow> do {
           (errs, d) \<leftarrow> dictionary_set ok (Some (l_dict st)) (Some section) None;
           d \<leftarrow> d;
           Some (st'\<lparr>l_errs := errs, l_dict := d\<rparr>) }
       | LINE_VALUE \<Rightarrow> do {
           tmp \<leftarrow> fmt section key;
           (errs, d) \<leftarrow> dictionary_set ok (Some (l_dict st)) (Some tmp) (Some val);
           d \<leftarrow> d;
           Some (st'\<lparr>l_errs := errs, l_dict := d\<rparr>) }
       | LINE_ERROR \<Rightarrow> Some (st'\<lparr>l_errs := l_errs st + 1\<rparr>)
       | _ \<Rightarrow> Some st')"

text \<open>\<open>fgets\<close> with room for \<open>n\<close> characters and the terminator: what it reads, what is left.\<close>

fun fgets_read :: "nat \<Rightarrow> string \<Rightarrow> string \<times> string" where
  "fgets_read 0 s = ([], s)"
| "fgets_read (Suc n) [] = ([], [])"
| "fgets_read (Suc n) (c # s) =
    (if c = LF then ([c], s) else (case fgets_read n s of (a, b) \<Rightarrow> (c # a, b)))"

text \<open>\<open>dictionary_del\<close> and the null result, and the end of both loaders.\<close>

definition discard :: "dictionary \<Rightarrow> dictionary option option" where
  "discard d = map_option (\<lambda>_. None) (dictionary_del (Some d))"

definition load_result :: "load_state \<Rightarrow> dictionary option option" where
  "load_result st = (if l_errs st \<noteq> 0 then discard (l_dict st) else Some (Some (l_dict st)))"

text \<open>The loop of \<open>iniparser_load\<close>. \<open>pre\<close> is what a continued line left before \<open>line+last\<close>,
  \<open>below\<close> the byte in memory before \<open>line\<close>, which the code reads as \<open>line[-1]\<close> when the line is blank;
  if that byte is a backslash the next \<open>fgets\<close> writes before the buffer. \<open>ok lineno\<close> are the outcomes
  of the allocations made for a line.\<close>

partial_function (option) load_loop ::
  "(string \<Rightarrow> string \<Rightarrow> string option) \<Rightarrow> char \<Rightarrow> (nat \<Rightarrow> nat \<Rightarrow> bool) \<Rightarrow> nat \<Rightarrow> string \<Rightarrow> string \<Rightarrow> load_state
     \<Rightarrow> dictionary option option" where
  "load_loop fmt below ok lineno pre file st =
    (if file = [] then load_result st
     else
       let (got, rest) = fgets_read (ASCIILINESZ - length pre - 1) file;
           line = pre @ cstr got;
           endc = (if line = [] then below else last line)
       in if endc \<noteq> LF then discard (l_dict st)
          else
            let line' = rstrip line;
                endc' = (if line' = [] then below else last line')
            in if endc' = BSL then
                 (if line' = [] then None
                  else load_loop fmt below ok (lineno + 1) (butlast line') rest st)
               else Option.bind (load_line fmt (ok (lineno + 1)) line' st) (\<lambda>st'.
                 if l_errs st' < 0 then load_result st'
                 else load_loop fmt below ok (lineno + 1) [] rest st'))"

declare load_loop.simps [code]

definition load_init :: "dictionary \<Rightarrow> load_state" where
  "load_init d = \<lparr>l_section = [], l_key = [], l_val = [], l_errs = 0, l_dict = d\<rparr>"

definition iniparser_load ::
  "(string \<Rightarrow> string \<Rightarrow> string option) \<Rightarrow> char \<Rightarrow> (nat \<Rightarrow> nat \<Rightarrow> bool) \<Rightarrow> string option
     \<Rightarrow> dictionary option option" where
  "iniparser_load fmt below ok file =
    (case file of None \<Rightarrow> Some None
     | Some text \<Rightarrow>
         (case dictionary_new (ok 0) 0 of None \<Rightarrow> Some None
          | Some d \<Rightarrow> load_loop fmt below ok 0 [] text (load_init d)))"

text \<open>\<open>getnstr\<close> on the memory from \<open>str\<close> on: the position it returns and the line it leaves. Reading
  past the memory object is undefined.\<close>

fun getnstr_loop :: "nat \<Rightarrow> string \<Rightarrow> string \<Rightarrow> (nat \<times> string) option" where
  "getnstr_loop n buf [] = None"
| "getnstr_loop n buf (c # s) =
    (if c = CR \<or> c = LF \<or> c = NUL then
       (if c = CR \<and> s = [] then None
        else if c = CR \<and> hd s = LF \<and> n \<noteq> 1 then
          (if n \<noteq> 2 then Some (length buf + 2, buf @ [CR, LF]) else Some (length buf + 1, buf @ [CR]))
        else if n \<noteq> 1 then Some (length buf + 1, if c = NUL then buf else buf @ [c])
        else Some (length buf, buf))
     else if n \<noteq> 1 then getnstr_loop (n - 1) (buf @ [c]) s
     else Some (0, buf @ [c]))"

definition getnstr :: "string \<Rightarrow> nat \<Rightarrow> (nat \<times> string) option" where
  "getnstr str n = (if n \<noteq> 0 then getnstr_loop n [] str else Some (0, []))"

text \<open>The loop of \<open>iniparser_load_mem\<close>. The loop that removes trailing space starts at the terminator
  and stops at once, and the terminator is not a backslash, so \<open>last\<close> stays 0.\<close>

partial_function (option) load_mem_loop ::
  "(string \<Rightarrow> string \<Rightarrow> string option) \<Rightarrow> (nat \<Rightarrow> nat \<Rightarrow> bool) \<Rightarrow> nat \<Rightarrow> string \<Rightarrow> int \<Rightarrow> nat \<Rightarrow> load_state
     \<Rightarrow> dictionary option option" where
  "load_mem_loop fmt ok lineno ini inilen tpos st =
    Option.bind (getnstr (drop tpos ini) ASCIILINESZ) (\<lambda>(rpos, line).
      if rpos \<noteq> 0 \<and> int tpos < inilen then
        Option.bind (load_line fmt (ok (lineno + 1)) line st) (\<lambda>st'.
          if l_errs st' < 0 then load_result st'
          else load_mem_loop fmt ok (lineno + 1) ini inilen (tpos + rpos) st')
      else load_result st)"

declare load_mem_loop.simps [code]

definition iniparser_load_mem ::
  "(string \<Rightarrow> string \<Rightarrow> string option) \<Rightarrow> (nat \<Rightarrow> nat \<Rightarrow> bool) \<Rightarrow> string \<Rightarrow> int \<Rightarrow> dictionary option option" where
  "iniparser_load_mem fmt ok ini inilen =
    (case dictionary_new (ok 0) 0 of None \<Rightarrow> Some None
     | Some d \<Rightarrow> load_mem_loop fmt ok 0 ini inilen 0 (load_init d))"

definition iniparser_freedict :: "dictionary option \<Rightarrow> string list option" where
  "iniparser_freedict d = dictionary_del d"

section \<open>Stripping and scanning\<close>

lemma isspace_chars [simp]:
  "isspace CHR '' ''" "isspace LF" "isspace CR" "\<not> isspace CHR ''=''" "\<not> isspace CHR ''[''" "\<not> isspace CHR '']''"
  "\<not> isspace CHR ''#''" "\<not> isspace DQ" "\<not> isspace SQ" "\<not> isspace BSL"
  by (simp_all add: isspace_def)

lemma rstrip_Nil [simp]: "rstrip [] = []"
  by (simp add: rstrip_def)

lemma rstrip_snoc [simp]: "rstrip (xs @ [x]) = (if isspace x then rstrip xs else xs @ [x])"
  by (simp add: rstrip_def)

lemma rstrip_append_spaces: "(\<And>c. c \<in> set ys \<Longrightarrow> isspace c) \<Longrightarrow> rstrip (xs @ ys) = rstrip xs"
  by (induction ys rule: rev_induct) (simp_all flip: append_assoc)

lemma rstrip_id: "xs = [] \<or> \<not> isspace (last xs) \<Longrightarrow> rstrip xs = xs"
  by (cases xs rule: rev_cases) auto

lemma rstrip_append: "ys \<noteq> [] \<Longrightarrow> \<not> isspace (last ys) \<Longrightarrow> rstrip (xs @ ys) = xs @ ys"
  by (rule rstrip_id) simp

lemma rstrip_last: "rstrip xs = [] \<or> \<not> isspace (last (rstrip xs))"
  by (induction xs rule: rev_induct) auto

lemma length_rstrip: "length (rstrip xs) \<le> length xs"
  by (induction xs rule: rev_induct) auto

lemma set_rstrip: "set (rstrip xs) \<subseteq> set xs"
  by (induction xs rule: rev_induct) auto

text \<open>A text with no blank at either end.\<close>

definition trimmed :: "string \<Rightarrow> bool" where
  "trimmed s \<longleftrightarrow> s = [] \<or> \<not> isspace (hd s) \<and> \<not> isspace (last s)"

lemma strstrip_trimmed [simp]: "trimmed s \<Longrightarrow> strstrip s = s"
  by (cases s) (auto simp: strstrip_def trimmed_def rstrip_id)

lemma strstrip_pad: "trimmed s \<Longrightarrow> (\<And>c. c \<in> set ys \<Longrightarrow> isspace c) \<Longrightarrow> s \<noteq> [] \<Longrightarrow> strstrip (s @ ys) = s"
proof -
  assume "trimmed s" "\<And>c. c \<in> set ys \<Longrightarrow> isspace c" "s \<noteq> []"
  moreover then have "dropWhile isspace (s @ ys) = s @ ys" by (cases s) (auto simp: trimmed_def)
  ultimately show ?thesis by (auto simp: strstrip_def rstrip_append_spaces rstrip_id trimmed_def)
qed

lemma strstrip_hd: "s \<noteq> [] \<Longrightarrow> \<not> isspace (hd s) \<Longrightarrow> strstrip s = rstrip s"
  by (cases s) (auto simp: strstrip_def)

lemma strlwc_lower: "map tolower s = s \<Longrightarrow> length s \<le> ASCIILINESZ \<Longrightarrow> strlwc s = s"
  by (simp add: strlwc_def)

section \<open>Well-formed items\<close>

text \<open>The items of an ini text: a blank line, a section header, a key padded with \<open>n\<close> blanks and its
  value.\<close>

datatype item = Blank | Sec string | KV string nat string

definition kv_line :: "string \<Rightarrow> nat \<Rightarrow> string \<Rightarrow> string" where
  "kv_line k n v = k @ replicate n CHR '' '' @ '' = '' @ v"

fun item_line :: "item \<Rightarrow> string" where
  "item_line Blank = []"
| "item_line (Sec s) = CHR ''['' # s @ '']''"
| "item_line (KV k n v) = kv_line k n v"

definition good_name :: "string \<Rightarrow> bool" where
  "good_name s \<longleftrightarrow> s \<noteq> [] \<and> trimmed s \<and> map tolower s = s \<and> NUL \<notin> set s \<and> LF \<notin> set s \<and> CR \<notin> set s \<and>
     length s \<le> 1000"

definition good_sec :: "string \<Rightarrow> bool" where
  "good_sec s \<longleftrightarrow> good_name s \<and> CHR '']'' \<notin> set s"

definition good_key :: "string \<Rightarrow> bool" where
  "good_key k \<longleftrightarrow> good_name k \<and> CHR ''='' \<notin> set k \<and> hd k \<noteq> CHR ''#'' \<and> hd k \<noteq> CHR ''[''"

definition good_val :: "string \<Rightarrow> bool" where
  "good_val v \<longleftrightarrow> trimmed v \<and> CHR '';'' \<notin> set v \<and> CHR ''#'' \<notin> set v \<and> NUL \<notin> set v \<and> LF \<notin> set v \<and> CR \<notin> set v \<and>
     (v = [] \<or> hd v \<noteq> DQ \<and> hd v \<noteq> SQ \<and> last v \<noteq> BSL)"

lemma iniparser_line_blank [simp]: "iniparser_line [] bufs = (LINE_EMPTY, bufs)"
  by (cases bufs) (simp add: iniparser_line_def strstrip_def)

lemma iniparser_line_sec:
  assumes "good_sec s"
  shows "iniparser_line (CHR ''['' # s @ '']'') (sec, k, v) = (LINE_SECTION, s, k, v)"
proof -
  have "strstrip (CHR ''['' # s @ '']'') = CHR ''['' # s @ '']''" by (simp add: trimmed_def)
  moreover have "takeWhile (\<lambda>c. c \<noteq> CHR '']'') (s @ '']'') = s"
    using assms by (auto simp: good_sec_def takeWhile_append takeWhile_eq_all_conv)
  ultimately show ?thesis using assms
    by (auto simp: iniparser_line_def fmt_section_def good_sec_def good_name_def strlwc_lower ASCIILINESZ_def)
qed

lemma key_scan:
  assumes "good_key k" "\<And>c. c \<in> set ws \<Longrightarrow> c = CHR '' ''"
  shows "takeWhile (\<lambda>c. c \<noteq> CHR ''='') (k @ ws @ CHR ''='' # t) = k @ ws"
    "dropWhile (\<lambda>c. c \<noteq> CHR ''='') (k @ ws @ CHR ''='' # t) = CHR ''='' # t"
  using assms by (auto simp: good_key_def takeWhile_append dropWhile_append dropWhile_eq_Nil_conv)

lemma iniparser_line_kv:
  assumes k: "good_key k" and v: "good_val v"
  shows "iniparser_line (rstrip (kv_line k n v)) (sec, k0, v0) = (LINE_VALUE, sec, k, v)"
proof -
  define ws where "ws = replicate n CHR '' '' @ '' ''"
  have ws: "\<And>c. c \<in> set ws \<Longrightarrow> c = CHR '' ''" by (auto simp: ws_def)
  define t where "t = (if v = [] then [] else CHR '' '' # v)"
  have "rstrip (kv_line k n v) = rstrip ((k @ ws @ ''='') @ '' '' @ v)"
    by (simp add: kv_line_def ws_def)
  also have "\<dots> = k @ ws @ CHR ''='' # t"
  proof (cases "v = []")
    case True
    then show ?thesis using rstrip_append [of "''=''" "k @ ws"] by (simp add: t_def flip: append_assoc)
  next
    case False
    then show ?thesis using v rstrip_append [of v "(k @ ws @ ''='') @ '' ''"] by (simp add: t_def good_val_def trimmed_def)
  qed
  finally have line: "rstrip (kv_line k n v) = k @ ws @ CHR ''='' # t" .
  have k': "k \<noteq> []" "\<not> isspace (hd k)" "hd k \<noteq> CHR ''#''" "hd k \<noteq> CHR ''[''" "strstrip k = k" "strlwc k = k" "trimmed k"
    using k by (auto simp: good_key_def good_name_def trimmed_def strlwc_lower ASCIILINESZ_def)
  have strip: "strstrip (k @ ws @ CHR ''='' # t) = k @ ws @ CHR ''='' # t"
    using rstrip_last [of "kv_line k n v"] k' by (simp add: line trimmed_def)
  have kw: "strstrip (k @ ws) = k" using k' by (intro strstrip_pad) (auto dest: ws)
  have t: "dropWhile isspace t = v" using v by (cases v) (auto simp: t_def good_val_def trimmed_def)
  have hv: "v \<noteq> [] \<Longrightarrow> hd v \<noteq> DQ \<and> hd v \<noteq> SQ" using v by (simp add: good_val_def)
  have vv: "takeWhile (\<lambda>c. c \<noteq> CHR '';'' \<and> c \<noteq> CHR ''#'') v = v" "strstrip v = v"
    using v by (auto simp: good_val_def takeWhile_eq_all_conv)
  note scan = key_scan [OF k ws]
  have d: "sscanf fmt_dquote (k @ ws @ CHR ''='' # t) = [k @ ws]" "sscanf fmt_squote (k @ ws @ CHR ''='' # t) = [k @ ws]"
    using hv k' by (auto simp: fmt_dquote_def fmt_squote_def scan t split: list.splits)
  have p: "sscanf fmt_plain (k @ ws @ CHR ''='' # t) = (if v = [] then [k @ ws] else [k @ ws, v])"
    using k' by (simp add: fmt_plain_def scan t vv)
  have b: "sscanf fmt_mark (k @ ws @ CHR ''='' # t) = [k @ ws]" "sscanf fmt_bare (k @ ws @ CHR ''='' # t) = [k @ ws, ''='']"
    if "v = []" using that k' by (simp_all add: fmt_mark_def fmt_bare_def scan t_def)
  show ?thesis
  proof (cases "v = []")
    case True
    then show ?thesis unfolding line iniparser_line_def
      using k' by (simp add: strip Let_def scan2_def d p b kw)
  next
    case False
    then show ?thesis unfolding line iniparser_line_def
      using k' hv by (auto simp: strip Let_def scan2_def d p vv kw)
  qed
qed

section \<open>The file loop\<close>

lemma fgets_read_line:
  "LF \<notin> set l \<Longrightarrow> length l < n \<Longrightarrow> fgets_read n (l @ LF # rest) = (l @ [LF], rest)"
proof (induction l arbitrary: n)
  case Nil
  then show ?case by (cases n) simp_all
next
  case (Cons c l)
  then show ?case by (cases n) auto
qed

lemma cstr_id: "NUL \<notin> set s \<Longrightarrow> cstr s = s"
  by (auto simp: cstr_def takeWhile_eq_all_conv)

lemma load_loop_line:
  assumes "below \<noteq> BSL" "LF \<notin> set l" "NUL \<notin> set l" "length l \<le> 1022"
    and "rstrip l = [] \<or> last (rstrip l) \<noteq> BSL"
  shows "load_loop fmt below ok n [] (l @ LF # rest) st =
    Option.bind (load_line fmt (ok (n + 1)) (rstrip l) st) (\<lambda>st'.
      if l_errs st' < 0 then load_result st' else load_loop fmt below ok (n + 1) [] rest st')"
proof -
  have "fgets_read (ASCIILINESZ - length ([] :: string) - 1) (l @ LF # rest) = (l @ [LF], rest)"
    using assms by (intro fgets_read_line) (simp_all add: ASCIILINESZ_def)
  moreover have "cstr (l @ [LF]) = l @ [LF]" using assms by (intro cstr_id) auto
  ultimately show ?thesis using assms by (subst load_loop.simps) (auto simp: Let_def)
qed

text \<open>The bindings an ini text makes, in order.\<close>

fun doc_updates :: "string \<Rightarrow> item list \<Rightarrow> (string \<times> string option option) list" where
  "doc_updates sec [] = []"
| "doc_updates sec (Blank # is) = doc_updates sec is"
| "doc_updates sec (Sec s # is) = (s, Some None) # doc_updates s is"
| "doc_updates sec (KV k n v # is) = (sec @ CHR '':'' # k, Some (Some v)) # doc_updates sec is"

fun good_doc :: "string \<Rightarrow> item list \<Rightarrow> bool" where
  "good_doc sec [] = True"
| "good_doc sec (Blank # is) = good_doc sec is"
| "good_doc sec (Sec s # is) = (good_sec s \<and> good_doc s is)"
| "good_doc sec (KV k n v # is) =
    (good_key k \<and> good_val v \<and> length (kv_line k n v) \<le> 1022 \<and> length sec + length k < 1024 \<and> good_doc sec is)"

definition doc_text :: "item list \<Rightarrow> string" where
  "doc_text is = concat (map (\<lambda>i. item_line i @ [LF]) is)"

text \<open>What both versions of the parser promise about assembling the key.\<close>

definition fmt_ok :: "(string \<Rightarrow> string \<Rightarrow> string option) \<Rightarrow> bool" where
  "fmt_ok fmt \<longleftrightarrow> fmt = key_sprintf \<or> fmt = key_snprintf"

lemma fmt_ok_short: "fmt_ok fmt \<Longrightarrow> length sec + length k < 1024 \<Longrightarrow> fmt sec k = Some (sec @ CHR '':'' # k)"
  by (auto simp: fmt_ok_def key_sprintf_def key_snprintf_def ASCIILINESZ_def)

abbreviation alloc_ok :: "nat \<Rightarrow> nat \<Rightarrow> bool" where
  "alloc_ok \<equiv> \<lambda>_ _. True"

lemma item_line_chars:
  assumes "good_doc sec [i]"
  shows "LF \<notin> set (item_line i)" "NUL \<notin> set (item_line i)" "length (item_line i) \<le> 1022"
    "rstrip (item_line i) = [] \<or> last (rstrip (item_line i)) \<noteq> BSL"
proof -
  show "LF \<notin> set (item_line i)" "NUL \<notin> set (item_line i)" "length (item_line i) \<le> 1022"
    using assms by (cases i; force simp: kv_line_def good_sec_def good_key_def good_val_def good_name_def)+
  show "rstrip (item_line i) = [] \<or> last (rstrip (item_line i)) \<noteq> BSL"
  proof (cases i)
    case (Sec s)
    then show ?thesis using rstrip_append [of "'']''" "CHR ''['' # s"] by simp
  next
    case (KV k n v)
    show ?thesis
    proof (cases "v = []")
      case True
      define w where "w = k @ replicate n CHR '' '' @ '' ''"
      have "item_line i = (w @ ''='') @ '' ''" using KV True by (simp add: kv_line_def w_def)
      moreover have "rstrip ((w @ ''='') @ '' '') = w @ ''=''"
        by (simp only: rstrip_snoc isspace_chars if_True if_False)
      ultimately show ?thesis by simp
    next
      case False
      then have "\<not> isspace (last v)" "last v \<noteq> BSL" using assms KV by (auto simp: good_val_def trimmed_def)
      then show ?thesis using rstrip_append [of v "k @ replicate n CHR '' '' @ '' = ''"] KV False by (simp add: kv_line_def)
    qed
  qed simp
qed

lemma load_line_item:
  assumes "good_doc (l_section st) [i]" "dict_wf (l_dict st)" "fmt_ok fmt" "l_errs st = 0"
  shows "\<exists>st'. load_line fmt all_ok (rstrip (item_line i)) st = Some st' \<and> dict_wf (l_dict st') \<and> l_errs st' = 0 \<and>
    l_section st' = (case i of Sec s \<Rightarrow> s | _ \<Rightarrow> l_section st) \<and>
    dict_abs (l_dict st') = updates (dict_abs (l_dict st)) (doc_updates (l_section st) [i])"
proof (cases i)
  case Blank
  then show ?thesis using assms by (simp add: load_line_def)
next
  case (Sec s)
  have "rstrip (item_line i) = CHR ''['' # s @ '']''"
    using Sec rstrip_append [of "'']''" "CHR ''['' # s"] by simp
  moreover have "good_sec s" using assms(1) Sec by simp
  ultimately show ?thesis
    using dictionary_set_spec [OF assms(2), of all_ok s None] Sec
    by (auto simp: load_line_def iniparser_line_sec)
next
  case (KV k n v)
  then have g: "good_key k" "good_val v" "length (l_section st) + length k < 1024" using assms(1) by simp_all
  show ?thesis
    using dictionary_set_spec [OF assms(2), of all_ok "l_section st @ CHR '':'' # k" "Some v"] KV
    by (auto simp: load_line_def iniparser_line_kv [OF g(1,2)] fmt_ok_short [OF assms(3) g(3)])
qed

lemma load_loop_doc:
  assumes "good_doc (l_section st) is" "dict_wf (l_dict st)" "fmt_ok fmt" "l_errs st = 0" "below \<noteq> BSL"
  shows "\<exists>d. load_loop fmt below alloc_ok n [] (doc_text is) st = Some (Some d) \<and> dict_wf d \<and>
    dict_abs d = updates (dict_abs (l_dict st)) (doc_updates (l_section st) is)"
  using assms
proof (induction "is" arbitrary: st n)
  case Nil
  then show ?case by (subst load_loop.simps) (simp add: doc_text_def load_result_def)
next
  case (Cons i "is")
  have i: "good_doc (l_section st) [i]" using Cons.prems(1) by (cases i) simp_all
  obtain st' where st': "load_line fmt all_ok (rstrip (item_line i)) st = Some st'" "dict_wf (l_dict st')" "l_errs st' = 0"
    "l_section st' = (case i of Sec s \<Rightarrow> s | _ \<Rightarrow> l_section st)"
    "dict_abs (l_dict st') = updates (dict_abs (l_dict st)) (doc_updates (l_section st) [i])"
    using load_line_item [OF i Cons.prems(2,3,4)] by blast
  have "load_loop fmt below alloc_ok n [] (doc_text (i # is)) st = load_loop fmt below alloc_ok (n + 1) [] (doc_text is) st'"
    using load_loop_line [OF Cons.prems(5) item_line_chars [OF i], of fmt alloc_ok n "doc_text is" st] st'(1,3)
    by (simp add: doc_text_def)
  moreover have "good_doc (l_section st') is" using Cons.prems(1) st'(4) by (cases i) simp_all
  moreover have "updates (dict_abs (l_dict st')) (doc_updates (l_section st') is) =
      updates (dict_abs (l_dict st)) (doc_updates (l_section st) (i # is))"
    using st'(4,5) by (cases i) simp_all
  ultimately show ?case using Cons.IH [of st' "n + 1"] st'(2,3) Cons.prems(3,5) by simp
qed

section \<open>Every input\<close>

lemma dictionary_del_wf:
  assumes "dict_wf d"
  shows "\<exists>fs. dictionary_del (Some d) = Some fs"
proof -
  have "slot_free d i = Some (case_option [] (\<lambda>k. [k]) (d_key d ! i) @ case_option [] (\<lambda>v. [v]) (d_val d ! i))"
    if "i \<in> set [0..<d_size d]" for i using that assms by (simp add: slot_free_def dict_wfD)
  then show ?thesis unfolding dictionary_del_def option.case by (subst those_eq_Some) auto
qed

lemma discard_wf: "dict_wf d \<Longrightarrow> discard d = Some None"
  using dictionary_del_wf [of d] by (auto simp: discard_def)

lemma load_result_wf: "dict_wf (l_dict st) \<Longrightarrow> \<exists>r. load_result st = Some r \<and> (\<forall>d. r = Some d \<longrightarrow> dict_wf d)"
  by (auto simp: load_result_def discard_wf)

lemma load_line_wf:
  assumes "dict_wf (l_dict st)" "\<And>s k. \<exists>t. fmt s k = Some t"
  shows "\<exists>st'. load_line fmt all_ok line st = Some st' \<and> dict_wf (l_dict st')"
proof -
  obtain sta s k v where l: "iniparser_line line (l_section st, l_key st, l_val st) = (sta, s, k, v)"
    by (rule prod_cases4)
  obtain t where t: "fmt s k = Some t" using assms(2) by blast
  show ?thesis
    using dictionary_set_spec [OF assms(1), of all_ok s None] dictionary_set_spec [OF assms(1), of all_ok t "Some v"] assms(1)
    by (cases sta) (auto simp: load_line_def l t)
qed

lemma fgets_read_append: "fgets_read n s = (a, b) \<Longrightarrow> s = a @ b \<and> length a \<le> n"
  by (induction n s arbitrary: a b rule: fgets_read.induct) (auto split: if_splits prod.splits)

lemma fgets_read_less: "fgets_read n s = (a, b) \<Longrightarrow> 0 < n \<Longrightarrow> s \<noteq> [] \<Longrightarrow> length b < length s"
  using fgets_read_append [of n s a b] by (cases n; cases s) (auto split: if_splits prod.splits)

lemma rstrip_prefix: "rstrip xs = xs \<or> length (rstrip xs) < length xs"
proof (induction xs rule: rev_induct)
  case (snoc x xs)
  then show ?case using length_rstrip [of xs] by auto
qed simp

lemma load_loop_total:
  assumes "below \<noteq> BSL" "dict_wf (l_dict st)" "length pre \<le> 1021" "\<And>s k. \<exists>t. fmt s k = Some t"
  shows "\<exists>r. load_loop fmt below alloc_ok n pre inp st = Some r \<and> (\<forall>d. r = Some d \<longrightarrow> dict_wf d)"
  using assms
proof (induction "length inp" arbitrary: n pre inp st rule: less_induct)
  case less
  show ?case
  proof (cases "inp = []")
    case True
    then show ?thesis using load_result_wf [OF less.prems(2)] by (subst load_loop.simps) simp
  next
    case False
    obtain got rest where g: "fgets_read (ASCIILINESZ - length pre - 1) inp = (got, rest)" by (rule prod.exhaust)
    have lt: "length rest < length inp" using fgets_read_less [OF g _ False] less.prems(3) by (simp add: ASCIILINESZ_def)
    have lg: "length pre + length got \<le> 1023" using fgets_read_append [OF g] less.prems(3) by (auto simp: ASCIILINESZ_def)
    define line where "line = pre @ cstr got"
    have ll: "length line \<le> 1023" using lg length_takeWhile_le [of "\<lambda>c. c \<noteq> NUL" got] by (simp add: line_def cstr_def)
    define e where "e = (if line = [] then below else last line)"
    define line' where "line' = rstrip line"
    define e' where "e' = (if line' = [] then below else last line')"
    have step: "load_loop fmt below alloc_ok n pre inp st =
      (if e \<noteq> LF then discard (l_dict st)
       else if e' = BSL then (if line' = [] then None else load_loop fmt below alloc_ok (n + 1) (butlast line') rest st)
       else Option.bind (load_line fmt all_ok line' st) (\<lambda>st'.
                 if l_errs st' < 0 then load_result st'
                 else load_loop fmt below alloc_ok (n + 1) [] rest st'))"
      by (subst load_loop.simps) (simp only: False g Let_def prod.case if_False e_def e'_def line'_def line_def)
    show ?thesis
    proof (cases "e = LF")
      case False
      then show ?thesis using step discard_wf [OF less.prems(2)] by simp
    next
      case e: True
      show ?thesis
      proof (cases "e' = BSL")
        case True
        then have ne: "line' \<noteq> []" using less.prems(1) by (auto simp: e'_def)
        have "line' \<noteq> line" using e ne True rstrip_last [of line] by (auto simp: e_def line'_def split: if_splits)
        then have "length line' < length line" using rstrip_prefix [of line] by (auto simp: line'_def)
        then have "length (butlast line') \<le> 1021" using ll by simp
        then show ?thesis using step e True ne less.hyps [OF lt less.prems(1,2) _ less.prems(4)] by simp
      next
        case False
        obtain st' where st': "load_line fmt all_ok line' st = Some st'" "dict_wf (l_dict st')"
          using load_line_wf [OF less.prems(2), of fmt line'] less.prems(4) by blast
        then show ?thesis using step e False load_result_wf [OF st'(2)] less.hyps [OF lt less.prems(1) st'(2) _ less.prems(4), of "[]"]
          by simp
      qed
    qed
  qed
qed

section \<open>Loading from memory\<close>

lemma getnstr_loop_line:
  "LF \<notin> set l \<Longrightarrow> CR \<notin> set l \<Longrightarrow> NUL \<notin> set l \<Longrightarrow> length l + 1 < n \<Longrightarrow>
     getnstr_loop n buf (l @ LF # rest) = Some (length buf + length l + 1, buf @ l @ [LF])"
  by (induction l arbitrary: n buf) auto

lemma strstrip_rstrip: "strstrip (rstrip l) = strstrip l"
proof -
  have "rstrip (dropWhile isspace (rstrip l)) = rstrip (dropWhile isspace l)"
  proof (induction l rule: rev_induct)
    case (snoc x xs)
    show ?case
    proof (cases "\<forall>y \<in> set xs. isspace y")
      case True
      then have e: "dropWhile isspace xs = []" by simp
      then show ?thesis using snoc True by (simp add: dropWhile_append e)
    next
      case False
      then show ?thesis using snoc by (auto simp: dropWhile_append)
    qed
  qed simp
  then show ?thesis by (simp add: strstrip_def)
qed

lemma load_line_cong: "strstrip l = strstrip l' \<Longrightarrow> load_line fmt ok l st = load_line fmt ok l' st"
  by (simp add: load_line_def iniparser_line_def)

lemma load_line_LF: "load_line fmt ok (l @ [LF]) st = load_line fmt ok (rstrip l) st"
  by (rule load_line_cong) (use strstrip_rstrip [of "l @ [LF]"] strstrip_rstrip [of l] in simp)

lemma item_line_CR: "good_doc sec [i] \<Longrightarrow> CR \<notin> set (item_line i)"
  by (cases i; force simp: kv_line_def good_sec_def good_key_def good_val_def good_name_def)

lemma doc_text_Cons: "doc_text (i # is) = item_line i @ LF # doc_text is"
  by (simp add: doc_text_def)

lemma load_mem_loop_doc:
  assumes "good_doc (l_section st) is" "dict_wf (l_dict st)" "fmt_ok fmt" "l_errs st = 0"
    and "drop tpos ini = doc_text is @ [NUL]" "tpos \<le> length ini" "inilen = int (length ini) - 1"
  shows "\<exists>d. load_mem_loop fmt alloc_ok n ini inilen tpos st = Some (Some d) \<and> dict_wf d \<and>
    dict_abs d = updates (dict_abs (l_dict st)) (doc_updates (l_section st) is)"
  using assms
proof (induction "is" arbitrary: st n tpos)
  case Nil
  then have d: "drop tpos ini = [NUL]" by (simp add: doc_text_def)
  have "length ini - tpos = 1" using arg_cong [OF d, of length] by simp
  then have "int tpos = inilen" using Nil.prems(6,7) by linarith
  then show ?case using Nil d
    by (subst load_mem_loop.simps) (simp add: getnstr_def load_result_def ASCIILINESZ_def)
next
  case (Cons i "is")
  have i: "good_doc (l_section st) [i]" using Cons.prems(1) by (cases i) simp_all
  obtain st' where st': "load_line fmt all_ok (rstrip (item_line i)) st = Some st'" "dict_wf (l_dict st')" "l_errs st' = 0"
    "l_section st' = (case i of Sec s \<Rightarrow> s | _ \<Rightarrow> l_section st)"
    "dict_abs (l_dict st') = updates (dict_abs (l_dict st)) (doc_updates (l_section st) [i])"
    using load_line_item [OF i Cons.prems(2,3,4)] by blast
  define r where "r = length (item_line i) + 1"
  have d: "drop tpos ini = item_line i @ LF # (doc_text is @ [NUL])" using Cons.prems(5) by (simp add: doc_text_Cons)
  have len: "length ini - tpos = r + length (doc_text is) + 1" using arg_cong [OF d, of length] by (simp add: r_def)
  have "getnstr (drop tpos ini) ASCIILINESZ = Some (r, item_line i @ [LF])"
    unfolding d getnstr_def using item_line_chars [OF i] item_line_CR [OF i]
    by (subst getnstr_loop_line) (simp_all add: ASCIILINESZ_def r_def)
  moreover have "int tpos < inilen" using len Cons.prems(6,7) by (simp add: r_def)
  ultimately have "load_mem_loop fmt alloc_ok n ini inilen tpos st = load_mem_loop fmt alloc_ok (n + 1) ini inilen (tpos + r) st'"
    using st' by (subst load_mem_loop.simps) (simp add: load_line_LF r_def)
  moreover have "drop (tpos + r) ini = doc_text is @ [NUL]"
    using d by (metis (no_types, lifting) add.commute append.assoc append_Cons append_Nil append_eq_conv_conj drop_drop length_append_singleton r_def Suc_eq_plus1)
  moreover have "good_doc (l_section st') is" using Cons.prems(1) st'(4) by (cases i) simp_all
  moreover have "updates (dict_abs (l_dict st')) (doc_updates (l_section st') is) =
      updates (dict_abs (l_dict st)) (doc_updates (l_section st) (i # is))"
    using st'(4,5) by (cases i) simp_all
  ultimately show ?case using Cons.IH [of st' "tpos + r" "n + 1"] st'(2,3) Cons.prems(3,6,7) len by simp
qed

section \<open>Dumping\<close>

lemma dict_slots_wf: "dict_wf d \<Longrightarrow> dict_slots d = Some (zip (d_key d) (d_val d))"
  unfolding dict_slots_def
  by (subst those_eq_Some [where g = "\<lambda>i. (d_key d ! i, d_val d ! i)"])
    (auto simp: dict_wfD intro!: nth_equalityI)

definition sections :: "(string option \<times> string option) list \<Rightarrow> string list" where
  "sections ss = map (the \<circ> fst) (filter (is_section \<circ> fst) ss)"

lemma secname_loop_nth: "i < length (sections ss) \<Longrightarrow> secname_loop ss f (f + int i) = Some (sections ss ! i)"
proof (induction ss arbitrary: f i)
  case (Cons kv ss)
  obtain k v where kv: "kv = (k, v)" by (cases kv)
  show ?case
  proof (cases "is_section k")
    case True
    then obtain s where s: "k = Some s" by (auto simp: is_section_def split: option.splits)
    show ?thesis
    proof (cases i)
      case 0
      then show ?thesis using True kv s by (simp add: sections_def)
    next
      case (Suc j)
      then show ?thesis using True kv s Cons.IH [of j "f + 1"] Cons.prems by (simp add: sections_def add.assoc)
    qed
  next
    case False
    then show ?thesis using kv Cons by (simp add: sections_def)
  qed
qed (simp add: sections_def)

definition sec_keys :: "string \<Rightarrow> (string option \<times> string option) list \<Rightarrow> (string \<times> string) list" where
  "sec_keys s ss = concat (map (\<lambda>(k, v). case k of None \<Rightarrow> []
      | Some k \<Rightarrow> if take (length s + 1) k = s @ '':'' then [(drop (length s + 1) k, case v of None \<Rightarrow> [] | Some v \<Rightarrow> v)] else []) ss)"

definition sec_doc :: "(string option \<times> string option) list \<Rightarrow> string \<Rightarrow> item list" where
  "sec_doc ss s = Blank # Sec s # map (\<lambda>(k, v). KV k (30 - length k) v) (sec_keys s ss)"

definition dict_doc :: "(string option \<times> string option) list \<Rightarrow> item list" where
  "dict_doc ss = concat (map (sec_doc ss) (sections ss)) @ [Blank]"

lemma doc_text_append [simp]: "doc_text (xs @ ys) = doc_text xs @ doc_text ys"
  by (simp add: doc_text_def)

lemma doc_text_concat: "doc_text (concat xss) = concat (map doc_text xss)"
  by (induction xss) (simp_all, simp add: doc_text_def)

lemma dump_key_text: "concat (map (dump_key (s @ '':'')) ss) = doc_text (map (\<lambda>(k, v). KV k (30 - length k) v) (sec_keys s ss))"
proof (induction ss)
  case (Cons kv ss)
  then show ?case
    by (cases kv) (auto simp: dump_key_def sec_keys_def doc_text_def kv_line_def Let_def split: option.splits)
qed (simp add: sec_keys_def doc_text_def)

lemma dump_section_text:
  assumes "i < length (sections ss)" "length (sections ss ! i) < ASCIILINESZ"
  shows "dump_section ss i = Some (doc_text (sec_doc ss (sections ss ! i)))"
  using secname_loop_nth [OF assms(1), of 0] assms(2)
  by (simp add: dump_section_def dump_key_text sec_doc_def doc_text_Cons)

lemma iniparser_dump_ini_text:
  assumes wf: "dict_wf d" and ss: "ss = zip (d_key d) (d_val d)" and ne: "sections ss \<noteq> []"
    and len: "\<forall>s \<in> set (sections ss). length s < ASCIILINESZ"
  shows "iniparser_dump_ini (Some d) True = Some (doc_text (dict_doc ss))"
proof -
  have ne': "filter (is_section \<circ> fst) ss \<noteq> []" using ne by (metis map_is_Nil_conv sections_def)
  have n: "length (filter (is_section \<circ> fst) ss) = length (sections ss)" by (simp add: sections_def)
  have "those (map (dump_section ss) [0..<length (sections ss)])
      = Some (map (\<lambda>i. doc_text (sec_doc ss (sections ss ! i))) [0..<length (sections ss)])"
    using len by (intro those_eq_Some dump_section_text) auto
  also have "map (\<lambda>i. doc_text (sec_doc ss (sections ss ! i))) [0..<length (sections ss)]
      = map (doc_text \<circ> sec_doc ss) (sections ss)"
    by (rule nth_equalityI) auto
  finally show ?thesis using ne'
    by (simp add: iniparser_dump_ini_def dict_slots_wf [OF wf] flip: ss)
      (simp add: n dict_doc_def doc_text_concat, simp add: doc_text_def)
qed

section \<open>Reading a dump back\<close>

lemma updates_other: "k \<notin> fst ` set ops \<Longrightarrow> updates m ops k = m k"
  by (induction m ops rule: updates.induct) auto

lemma updates_member:
  assumes "(k, v) \<in> set ops" "\<And>w. (k, w) \<in> set ops \<Longrightarrow> w = v"
  shows "updates m ops k = v"
  using assms
proof (induction m ops rule: updates.induct)
  case (2 m k' v' ops)
  show ?case
  proof (cases "(k, v) \<in> set ops")
    case False
    then have "(k', v') = (k, v)" using "2.prems"(1) by auto
    moreover have "k \<notin> fst ` set ops" using False "2.prems"(2) by force
    ultimately show ?thesis by (simp add: updates_other)
  next
    case True
    have "w = v" if "(k, w) \<in> set ops" for w using "2.prems"(2) [of w] that by simp
    then show ?thesis using "2.IH" [OF True] by (simp del: fun_upd_apply)
  qed
qed simp

lemma doc_updates_sec_doc:
  "doc_updates sec (sec_doc ss s @ is) =
     (s, Some None) # map (\<lambda>(k, v). (s @ CHR '':'' # k, Some (Some v))) (sec_keys s ss) @ doc_updates s is"
proof -
  have "doc_updates s (map (\<lambda>(k, v). KV k (30 - length k) v) kvs @ is) =
      map (\<lambda>(k, v). (s @ CHR '':'' # k, Some (Some v))) kvs @ doc_updates s is" for kvs
    by (induction kvs) auto
  then show ?thesis by (simp add: sec_doc_def)
qed

lemma doc_updates_dict_doc:
  "doc_updates sec (concat (map (sec_doc ss) secs) @ [Blank]) =
     concat (map (\<lambda>s. (s, Some None) # map (\<lambda>(k, v). (s @ CHR '':'' # k, Some (Some v))) (sec_keys s ss)) secs)"
  by (induction secs arbitrary: sec) (simp_all add: doc_updates_sec_doc)

text \<open>A dictionary whose dump is a text the parser reads back: a key without a colon is a section and
  has no value, any other key is \<open>section:key\<close> for a section of the dictionary.\<close>

definition dumpable :: "(string option \<times> string option) list \<Rightarrow> bool" where
  "dumpable ss \<longleftrightarrow> sections ss \<noteq> [] \<and> (\<forall>(k, v) \<in> set ss. case k of None \<Rightarrow> True
     | Some k \<Rightarrow>
         if CHR '':'' \<in> set k then
           (let s = takeWhile (\<lambda>c. c \<noteq> CHR '':'') k; key = tl (dropWhile (\<lambda>c. c \<noteq> CHR '':'') k)
            in s \<in> set (sections ss) \<and> good_key key \<and> length key \<le> 500 \<and>
               (case v of None \<Rightarrow> False | Some v \<Rightarrow> good_val v \<and> length v \<le> 500))
         else good_sec k \<and> length k \<le> 500 \<and> v = None)"

lemma set_sections: "s \<in> set (sections ss) \<longleftrightarrow> (\<exists>v. (Some s, v) \<in> set ss) \<and> CHR '':'' \<notin> set s"
  by (force simp: sections_def is_section_def split: option.splits)

lemma split_colon:
  "CHR '':'' \<in> set k \<Longrightarrow> takeWhile (\<lambda>c. c \<noteq> CHR '':'') k @ CHR '':'' # tl (dropWhile (\<lambda>c. c \<noteq> CHR '':'') k) = k"
  by (induction k) auto

lemma scan_colon:
  assumes "CHR '':'' \<notin> set s"
  shows "takeWhile (\<lambda>c. c \<noteq> CHR '':'') (s @ CHR '':'' # t) = s" "tl (dropWhile (\<lambda>c. c \<noteq> CHR '':'') (s @ CHR '':'' # t)) = t"
  using assms by (induction s) auto

lemma prefix_colon: "take (length s + 1) k = s @ '':'' \<longleftrightarrow> k = s @ CHR '':'' # drop (length s + 1) k"
proof
  assume "take (length s + 1) k = s @ '':''"
  then show "k = s @ CHR '':'' # drop (length s + 1) k"
    using append_take_drop_id [of "length s + 1" k] by (metis append.assoc append_Cons append_Nil)
next
  assume "k = s @ CHR '':'' # drop (length s + 1) k"
  moreover have "take (length s + 1) (s @ CHR '':'' # t) = s @ '':''" for t by simp
  ultimately show "take (length s + 1) k = s @ '':''" by metis
qed

lemma sec_keys_iff:
  "(key, w) \<in> set (sec_keys s ss) \<longleftrightarrow> (\<exists>v. (Some (s @ CHR '':'' # key), v) \<in> set ss \<and> w = (case v of None \<Rightarrow> [] | Some v \<Rightarrow> v))"
  (is "?L \<longleftrightarrow> ?R")
proof
  assume ?L
  then obtain k v where kv: "(Some k, v) \<in> set ss" "take (length s + 1) k = s @ '':''" "key = drop (length s + 1) k"
    "w = (case v of None \<Rightarrow> [] | Some v \<Rightarrow> v)"
    by (auto simp: sec_keys_def split: option.splits if_splits)
  then have "k = s @ CHR '':'' # key" using prefix_colon [of s k] by simp
  then show ?R using kv by blast
next
  assume ?R
  then obtain v where v: "(Some (s @ CHR '':'' # key), v) \<in> set ss" "w = (case v of None \<Rightarrow> [] | Some v \<Rightarrow> v)" by blast
  obtain a b where "ss = a @ (Some (s @ CHR '':'' # key), v) # b" using split_list [OF v(1)] by blast
  then show ?L using v(2) by (simp add: sec_keys_def)
qed

lemma dumpable_key:
  assumes "dumpable ss" "(Some k, v) \<in> set ss" "CHR '':'' \<in> set k"
  obtains s key w where "k = s @ CHR '':'' # key" "CHR '':'' \<notin> set s" "s \<in> set (sections ss)" "good_key key"
    "length key \<le> 500" "v = Some w" "good_val w" "length w \<le> 500"
proof -
  let ?s = "takeWhile (\<lambda>c. c \<noteq> CHR '':'') k" and ?key = "tl (dropWhile (\<lambda>c. c \<noteq> CHR '':'') k)"
  have "CHR '':'' \<notin> set ?s" by (metis (mono_tags, lifting) set_takeWhileD)
  moreover have "?s \<in> set (sections ss) \<and> good_key ?key \<and> length ?key \<le> 500 \<and>
      (case v of None \<Rightarrow> False | Some v \<Rightarrow> good_val v \<and> length v \<le> 500)"
    using assms unfolding dumpable_def Let_def by (auto dest!: bspec [OF _ assms(2)])
  ultimately show ?thesis using that [of ?s ?key] split_colon [OF assms(3)] by (cases v) simp_all
qed

lemma dumpable_sec: "dumpable ss \<Longrightarrow> (Some k, v) \<in> set ss \<Longrightarrow> CHR '':'' \<notin> set k \<Longrightarrow> good_sec k \<and> length k \<le> 500 \<and> v = None"
  unfolding dumpable_def by (auto dest!: bspec)

lemma good_doc_kvs:
  "(\<And>k v. (k, v) \<in> set kvs \<Longrightarrow> good_key k \<and> good_val v \<and> length k \<le> 500 \<and> length v \<le> 500) \<Longrightarrow> length s \<le> 500
     \<Longrightarrow> good_doc s (map (\<lambda>(k, v). KV k (30 - length k) v) kvs @ is) = good_doc s is"
  by (induction kvs) (force simp: kv_line_def)+

lemma dumpable_good:
  assumes "dumpable ss" "set secs \<subseteq> set (sections ss)"
  shows "good_doc sec (concat (map (sec_doc ss) secs) @ [Blank])"
  using assms(2)
proof (induction secs arbitrary: sec)
  case (Cons s secs)
  obtain v where v: "(Some s, v) \<in> set ss" "CHR '':'' \<notin> set s" using Cons.prems by (auto simp: set_sections)
  have s: "good_sec s" "length s \<le> 500" using dumpable_sec [OF assms(1) v] by simp_all
  have "good_key k \<and> good_val w \<and> length k \<le> 500 \<and> length w \<le> 500" if "(k, w) \<in> set (sec_keys s ss)" for k w
  proof -
    obtain u where u: "(Some (s @ CHR '':'' # k), u) \<in> set ss" "w = (case u of None \<Rightarrow> [] | Some v \<Rightarrow> v)"
      using \<open>(k, w) \<in> _\<close> by (auto simp: sec_keys_iff)
    obtain s' key w' where "s @ CHR '':'' # k = s' @ CHR '':'' # key" "CHR '':'' \<notin> set s'" "good_key key"
      "length key \<le> 500" "u = Some w'" "good_val w'" "length w' \<le> 500"
      by (rule dumpable_key [OF assms(1) u(1)]) auto
    moreover then have "k = key" using scan_colon(2) [OF v(2), of k] scan_colon(2) [of s' key] by simp
    ultimately show ?thesis using u(2) by simp
  qed
  then show ?case using Cons s by (simp add: sec_doc_def good_doc_kvs)
qed simp

lemma dumpable_ops:
  assumes dump: "dumpable ss"
  shows "(k, u) \<in> set (doc_updates [] (dict_doc ss)) \<longleftrightarrow> (\<exists>v. u = Some v \<and> (Some k, v) \<in> set ss)"
proof
  assume "(k, u) \<in> set (doc_updates [] (dict_doc ss))"
  then obtain s where s: "s \<in> set (sections ss)"
    "(k, u) = (s, Some None) \<or> (\<exists>key w. (key, w) \<in> set (sec_keys s ss) \<and> k = s @ CHR '':'' # key \<and> u = Some (Some w))"
    by (auto simp: dict_doc_def doc_updates_dict_doc)
  then obtain v where v: "(Some s, v) \<in> set ss" "CHR '':'' \<notin> set s" by (auto simp: set_sections)
  show "\<exists>v. u = Some v \<and> (Some k, v) \<in> set ss"
    using s(2)
  proof
    assume "(k, u) = (s, Some None)"
    then show ?thesis using dumpable_sec [OF dump v] v by auto
  next
    assume "\<exists>key w. (key, w) \<in> set (sec_keys s ss) \<and> k = s @ CHR '':'' # key \<and> u = Some (Some w)"
    then obtain w v where w: "u = Some (Some w)" "(Some k, v) \<in> set ss" "w = (case v of None \<Rightarrow> [] | Some v \<Rightarrow> v)"
      "CHR '':'' \<in> set k"
      by (auto simp: sec_keys_iff)
    obtain w' where "v = Some w'" by (rule dumpable_key [OF dump w(2,4)])
    then show ?thesis using w by simp
  qed
next
  assume "\<exists>v. u = Some v \<and> (Some k, v) \<in> set ss"
  then obtain v where v: "u = Some v" "(Some k, v) \<in> set ss" by blast
  show "(k, u) \<in> set (doc_updates [] (dict_doc ss))"
  proof (cases "CHR '':'' \<in> set k")
    case True
    obtain s key w where k: "k = s @ CHR '':'' # key" "s \<in> set (sections ss)" "v = Some w"
      by (rule dumpable_key [OF dump v(2) True])
    then have "(key, w) \<in> set (sec_keys s ss)" using v(2) by (auto simp: sec_keys_iff)
    then show ?thesis using k v(1) by (force simp: dict_doc_def doc_updates_dict_doc)
  next
    case False
    then have "k \<in> set (sections ss)" "v = None" using v dumpable_sec [OF dump v(2)] by (auto simp: set_sections)
    then show ?thesis using v(1) by (force simp: dict_doc_def doc_updates_dict_doc)
  qed
qed

lemma dumpable_updates:
  assumes wf: "dict_wf d" and ss: "ss = zip (d_key d) (d_val d)" and dump: "dumpable ss"
  shows "updates Map.empty (doc_updates [] (dict_doc ss)) = dict_abs d"
proof -
  let ?ops = "doc_updates [] (dict_doc ss)"
  have slot: "(Some k, v) \<in> set ss \<longleftrightarrow> dict_abs d k = Some v" for k v
    using dict_abs_iff [OF wf] dict_wfD(1,2) [OF wf] by (auto simp: ss in_set_zip)
  note ops = dumpable_ops [OF dump]
  show ?thesis
  proof
    fix k
    show "updates Map.empty ?ops k = dict_abs d k"
    proof (cases "dict_abs d k")
      case None
      then have "k \<notin> fst ` set ?ops" using ops slot by force
      then show ?thesis using None by (simp add: updates_other)
    next
      case (Some v)
      then show ?thesis using ops slot by (auto intro!: updates_member)
    qed
  qed
qed


section \<open>Properties\<close>

text \<open>C7: a text of section headers, blank lines and \<open>key = value\<close> lines (lower case, no quotes or
  comments, lines within the buffer) is loaded by both versions of \<open>iniparser_load\<close> without
  undefined behaviour, and the dictionary holds exactly the sections, bound to null, and the values
  under \<open>section:key\<close>, a later line winning over an earlier one.\<close>

theorem iniparser_load_doc:
  assumes "good_doc [] is" "fmt = key_sprintf \<or> fmt = key_snprintf" "below \<noteq> BSL"
  shows "\<exists>d. iniparser_load fmt below alloc_ok (Some (doc_text is)) = Some (Some d) \<and> dict_wf d \<and>
    dict_abs d = updates Map.empty (doc_updates [] is)"
proof -
  obtain d where "dictionary_new all_ok 0 = Some d" "dict_wf d" "dict_abs d = Map.empty"
    using dictionary_new_spec [of all_ok 0] by blast
  then show ?thesis using load_loop_doc [of "load_init d" "is" fmt below 0] assms
    by (simp add: iniparser_load_def load_init_def fmt_ok_def)
qed

theorem iniparser_load_doc_witness:
  "\<exists>d. iniparser_load key_sprintf CHR ''x'' alloc_ok (Some (''[web]'' @ LF # ''port = 80'' @ [LF])) = Some (Some d) \<and>
     dict_wf d \<and> dict_abs d = [''web'' \<mapsto> None, ''web:port'' \<mapsto> Some ''80'']"
  using iniparser_load_doc [of "[Sec ''web'', KV ''port'' 0 ''80'']" key_sprintf "CHR ''x''"]
  by (simp add: doc_text_def kv_line_def good_sec_def good_key_def good_val_def good_name_def trimmed_def
      isspace_def tolower_def)





text \<open>The \<open>sprintf\<close> of \<^verbatim>\<open>c/libgs\<close> overflows \<open>tmp\<close>: every section and key, each within its line, whose
  joint name does not fit in the buffer, make \<open>iniparser_load\<close> undefined.\<close>

theorem iniparser_load_overflow:
  assumes "good_sec s" "good_key k" "good_val v" "length (kv_line k 0 v) \<le> 1022" "1024 \<le> length s + length k"
    "below \<noteq> BSL"
  shows "iniparser_load key_sprintf below alloc_ok (Some (doc_text [Sec s, KV k 0 v])) = None"
proof -
  obtain d where d: "dictionary_new all_ok 0 = Some d" "dict_wf d"
    using dictionary_new_spec [of all_ok 0] by blast
  have g: "good_doc [] [Sec s]" "good_doc [] [KV k 0 v]"
    using assms by (auto simp: good_key_def good_name_def)
  obtain st where st: "load_line key_sprintf all_ok (rstrip (item_line (Sec s))) (load_init d) = Some st" "l_section st = s" "l_errs st = 0"
    using load_line_item [of "load_init d" "Sec s" key_sprintf] g(1) d(2) by (auto simp: load_init_def fmt_ok_def)
  have "load_line key_sprintf all_ok (rstrip (item_line (KV k 0 v))) st = None"
    using assms(5) by (simp add: load_line_def iniparser_line_kv [OF assms(2,3)] st(2) key_sprintf_def ASCIILINESZ_def)
  then show ?thesis using st d
    by (simp add: iniparser_load_def doc_text_def load_loop_line [OF assms(6) item_line_chars [OF g(1)], simplified]
        load_loop_line [OF assms(6) item_line_chars [OF g(2)], simplified])
qed

lemma good_replicate:
  "good_sec (replicate 600 CHR ''a'')" "good_key (replicate 600 CHR ''b'')" "good_val []"
  by (auto simp: good_sec_def good_key_def good_val_def good_name_def trimmed_def isspace_def tolower_def)

theorem iniparser_load_overflow_witness:
  "iniparser_load key_sprintf CHR ''x'' alloc_ok
     (Some (doc_text [Sec (replicate 600 CHR ''a''), KV (replicate 600 CHR ''b'') 0 []])) = None"
  by (rule iniparser_load_overflow [OF good_replicate]) (simp_all add: kv_line_def)

lemma iniparser_line_bad:
  assumes "g \<noteq> []" "trimmed g" "CHR ''='' \<notin> set g" "hd g \<noteq> CHR ''#''" "hd g \<noteq> CHR ''[''"
  shows "iniparser_line g (s, k, v) = (LINE_ERROR, s, g, v)"
proof -
  have tw: "takeWhile (\<lambda>c. c \<noteq> CHR ''='') g = g" "dropWhile (\<lambda>c. c \<noteq> CHR ''='') g = []"
    using assms(3) by (auto simp: takeWhile_eq_all_conv)
  show ?thesis using assms
    by (simp add: iniparser_line_def Let_def scan2_def fmt_dquote_def fmt_squote_def fmt_plain_def fmt_mark_def fmt_bare_def tw)
qed

lemma load_line_errs:
  assumes "good_doc (l_section st) [i]" "i \<noteq> Blank"
  shows "load_line fmt ok (rstrip (item_line i)) st = load_line fmt ok (rstrip (item_line i)) (st\<lparr>l_errs := 0\<rparr>)"
proof (cases i)
  case (Sec s)
  then have "rstrip (item_line i) = CHR ''['' # s @ '']''" using rstrip_append [of "'']''" "CHR ''['' # s"] by simp
  then show ?thesis using assms Sec by (simp add: load_line_def iniparser_line_sec)
next
  case (KV k n v)
  then show ?thesis using assms by (simp add: load_line_def iniparser_line_kv)
qed (use assms in simp)

text \<open>A syntax error is remembered only until the next line that sets something: a text with a line
  the parser rejects (no \<open>=\<close>, not a comment or header) loads as if that line were not there when a
  section header or a value follows, and is refused when nothing does.\<close>

theorem iniparser_errors_overwritten:
  assumes "good_doc [] (i # is)" "i \<noteq> Blank" "fmt = key_sprintf \<or> fmt = key_snprintf" "below \<noteq> BSL"
    and g: "g \<noteq> []" "trimmed g" "CHR ''='' \<notin> set g" "hd g \<noteq> CHR ''#''" "hd g \<noteq> CHR ''[''"
      "LF \<notin> set g" "NUL \<notin> set g" "length g \<le> 1022" "last g \<noteq> BSL"
  shows "(\<exists>d. iniparser_load fmt below alloc_ok (Some (g @ LF # doc_text (i # is))) = Some (Some d) \<and> dict_wf d \<and>
      dict_abs d = updates Map.empty (doc_updates [] (i # is))) \<and>
    iniparser_load fmt below alloc_ok (Some (g @ [LF])) = Some None"
proof -
  obtain d where d: "dictionary_new all_ok 0 = Some d" "dict_wf d" "dict_abs d = Map.empty"
    using dictionary_new_spec [of all_ok 0] by blast
  let ?st = "(load_init d)\<lparr>l_key := g, l_errs := 1\<rparr>"
  have rg: "rstrip g = g" using g(1,2) by (intro rstrip_id) (simp add: trimmed_def)
  have "load_line fmt all_ok (rstrip g) (load_init d) = Some ?st"
    by (simp add: rg load_line_def load_init_def iniparser_line_bad [OF g(1-5)])
  then have step: "load_loop fmt below alloc_ok 0 [] (g @ LF # rest) (load_init d) = load_loop fmt below alloc_ok 1 [] rest ?st" for rest
    using load_loop_line [OF assms(4) g(6-8), of fmt alloc_ok 0 rest "load_init d"] g(9) rg by simp
  have i: "good_doc [] [i]" using assms(1) by (cases i) simp_all
  have "load_loop fmt below alloc_ok 1 [] (doc_text (i # is)) ?st =
      load_loop fmt below alloc_ok 1 [] (doc_text (i # is)) (?st\<lparr>l_errs := 0\<rparr>)"
    using load_line_errs [of ?st i fmt all_ok] i assms(2)
    by (simp add: doc_text_Cons load_loop_line [OF assms(4) item_line_chars [OF i], simplified] load_init_def)
  then have "\<exists>d'. load_loop fmt below alloc_ok 0 [] (g @ LF # doc_text (i # is)) (load_init d) = Some (Some d') \<and> dict_wf d' \<and>
      dict_abs d' = updates Map.empty (doc_updates [] (i # is))"
    using load_loop_doc [of "?st\<lparr>l_errs := 0\<rparr>" "i # is" fmt below 1] assms(1,3,4) d step
    by (simp add: load_init_def fmt_ok_def)
  moreover have "load_loop fmt below alloc_ok 0 [] (g @ [LF]) (load_init d) = Some None"
    using step [of "[]"] discard_wf [OF d(2)] by (simp add: load_loop.simps [of _ _ _ _ _ "[]"] load_result_def load_init_def)
  ultimately show ?thesis using d(1) by (simp add: iniparser_load_def)
qed

theorem iniparser_errors_overwritten_witness:
  "(\<exists>d. iniparser_load key_snprintf CHR ''x'' alloc_ok (Some (''bogus'' @ LF # ''[a]'' @ [LF])) = Some (Some d) \<and>
     dict_wf d \<and> dict_abs d = [''a'' \<mapsto> None]) \<and>
   iniparser_load key_snprintf CHR ''x'' alloc_ok (Some (''bogus'' @ [LF])) = Some None"
  using iniparser_errors_overwritten [of "Sec ''a''" "[]" key_snprintf "CHR ''x''" "''bogus''"]
  by (simp add: doc_text_def good_sec_def good_name_def trimmed_def isspace_def tolower_def)


definition dict_two :: dictionary where
  "dict_two = \<lparr>d_n = 2, d_size = 2, d_val = [None, Some ''1''], d_key = [Some ''a'', Some ''a:k''],
     d_hash = [dictionary_hash ''a'', dictionary_hash ''a:k'']\<rparr>"

lemma dict_two_wf: "dict_wf dict_two"
  by (auto simp: dict_wf_def dict_two_def used_def less_Suc_eq numeral_2_eq_2)


text \<open>The typed getters look the key up in lower case: \<open>iniparser_getint\<close> answers the default exactly
  when the key is absent, otherwise the \<open>strtol\<close> value of the string cut to 32 bits;
  \<open>iniparser_getboolean\<close> decides on the first character. A key stored with a null value, as every
  section name is, makes both dereference null.\<close>

theorem iniparser_getters_correct:
  assumes "dict_wf d" "length key \<le> ASCIILINESZ"
  shows "iniparser_getint (Some d) (Some key) nf = (case dict_abs d (map tolower key) of
      None \<Rightarrow> Some nf | Some None \<Rightarrow> None | Some (Some s) \<Rightarrow> Some (to_int (strtol s))) \<and>
    iniparser_getboolean (Some d) (Some key) nf = (case dict_abs d (map tolower key) of
      None \<Rightarrow> Some nf | Some None \<Rightarrow> None
    | Some (Some s) \<Rightarrow> Some (if s \<noteq> [] \<and> hd s \<in> set ''yY1tT'' then 1
        else if s \<noteq> [] \<and> hd s \<in> set ''nN0fF'' then 0 else nf)) \<and>
    iniparser_find_entry (Some d) (Some key) = Some (if dict_abs d (map tolower key) = None then 0 else 1)"
proof -
  have g: "iniparser_getstring (Some d) (Some key) Invalid =
      Some (case dict_abs d (map tolower key) of None \<Rightarrow> Invalid | Some v \<Rightarrow> ptr_of v)"
    using assms by (simp add: iniparser_getstring_def dictionary_get_spec strlwc_def)
  show ?thesis
    unfolding iniparser_getint_def iniparser_getboolean_def iniparser_find_entry_def g
    by (auto simp: ptr_of_def split: option.splits list.splits)
qed

theorem iniparser_getters_correct_witness:
  "iniparser_getint (Some dict_two) (Some ''A:K'') 7 = Some 1 \<and> iniparser_getint (Some dict_two) (Some ''a'') 7 = None"
  using iniparser_getters_correct [OF dict_two_wf, of "''A:K''" 7] iniparser_getters_correct [OF dict_two_wf, of "''a''" 7]
  by (simp add: dict_abs_def dict_two_def ASCIILINESZ_def tolower_def strtol_def unsigned_of_def digits_of_def
      digit_val_def isspace_def to_int_def char_of_def bit_0)

end
