(* ===== verification/Confparser.thy ===== *)
theory Confparser
  imports Iniparser
begin

text \<open>
  Model of \<^verbatim>\<open>c/libgs/confparser/confparser.c\<close>: reading a module's integer and string settings from an
  ini dictionary into variables. Variables are addresses; \<open>ints\<close> and \<open>strs\<close> hold their contents, a
  string variable being the array of its characters. \<open>strlcpy\<close> is \<open>strncpy\<close>, as
  \<^verbatim>\<open>confparser.h\<close> defines it. A file system is a map from names to contents.
\<close>

definition CONF_ITEM_LEN :: nat where
  "CONF_ITEM_LEN = 200"

definition MAX_PATH :: nat where
  "MAX_PATH = 1024"

definition strncpy :: "string \<Rightarrow> nat \<Rightarrow> string" where
  "strncpy s n = take n s @ replicate (n - length s) NUL"

definition set_conf_file :: "string option \<Rightarrow> string \<Rightarrow> string" where
  "set_conf_file conf_name conf_file =
    (case conf_name of None \<Rightarrow> conf_file | Some name \<Rightarrow> strncpy name MAX_PATH)"

text \<open>The environment of a load: how keys are put together, the byte below the line buffer, the
  outcomes of allocations.\<close>

type_synonym env = "(string \<Rightarrow> string \<Rightarrow> string option) \<times> char \<times> (nat \<Rightarrow> nat \<Rightarrow> bool)"

definition open_conf_file ::
  "env \<Rightarrow> (string \<Rightarrow> string option) \<Rightarrow> string \<Rightarrow> string option \<Rightarrow> dictionary option option" where
  "open_conf_file env fs conf_file conf_name =
    (case env of (fmt, below, ok) \<Rightarrow>
     case conf_name of
       Some cn \<Rightarrow> iniparser_load fmt below ok (fs cn)
     | None \<Rightarrow> if NUL \<in> set conf_file then iniparser_load fmt below ok (fs (cstr conf_file)) else None)"

definition open_conf_mem :: "env \<Rightarrow> string option \<Rightarrow> int \<Rightarrow> dictionary option option" where
  "open_conf_mem env ini len =
    (case env of (fmt, below, ok) \<Rightarrow>
     case ini of Some ini \<Rightarrow> iniparser_load_mem fmt ok ini len | None \<Rightarrow> Some None)"

record vars =
  ints :: "nat \<Rightarrow> int"
  strs :: "nat \<Rightarrow> string"

text \<open>\<open>snprintf (buf, CONF_ITEM_LEN, "%s:%s", mod_name, config_name)\<close>.\<close>

definition conf_key :: "string \<Rightarrow> string \<Rightarrow> string" where
  "conf_key mod_name config_name = take (CONF_ITEM_LEN - 1) (mod_name @ CHR '':'' # config_name)"

fun conf_ints :: "dictionary \<Rightarrow> string \<Rightarrow> (string \<times> nat) list \<Rightarrow> (nat \<Rightarrow> int) \<Rightarrow> (nat \<Rightarrow> int) option" where
  "conf_ints conf mod_name [] m = Some m"
| "conf_ints conf mod_name ((config_name, var) # cic) m = do {
     i \<leftarrow> iniparser_getint (Some conf) (Some (conf_key mod_name config_name)) (-1);
     conf_ints conf mod_name cic (if i \<noteq> -1 then m(var := i) else m) }"

fun conf_strs :: "dictionary \<Rightarrow> string \<Rightarrow> (string \<times> nat) list \<Rightarrow> (nat \<Rightarrow> string) \<Rightarrow> (nat \<Rightarrow> string) option" where
  "conf_strs conf mod_name [] m = Some m"
| "conf_strs conf mod_name ((config_name, var) # csc) m = do {
     s \<leftarrow> iniparser_getstring (Some conf) (Some (conf_key mod_name config_name)) Null;
     case s of
       Str s \<Rightarrow> conf_strs conf mod_name csc (m(var := strncpy s (CONF_ITEM_LEN + 1)))
     | Null \<Rightarrow> conf_strs conf mod_name csc m
     | Invalid \<Rightarrow> None }"

definition parse_conf_file ::
  "dictionary option \<Rightarrow> string option \<Rightarrow> (string \<times> nat) list \<Rightarrow> (string \<times> nat) list \<Rightarrow> vars \<Rightarrow> (int \<times> vars) option" where
  "parse_conf_file conf mod_name cic csc vs =
    (case (conf, mod_name) of
       (Some conf, Some mod_name) \<Rightarrow> do {
         is \<leftarrow> conf_ints conf mod_name cic (ints vs);
         ss \<leftarrow> conf_strs conf mod_name csc (strs vs);
         Some (0, \<lparr>ints = is, strs = ss\<rparr>) }
     | _ \<Rightarrow> Some (-1, vs))"

definition close_conf_file :: "dictionary option \<Rightarrow> unit option" where
  "close_conf_file conf = map_option (\<lambda>_. ()) (iniparser_freedict conf)"

definition load_from ::
  "dictionary option option \<Rightarrow> string option \<Rightarrow> (string \<times> nat) list \<Rightarrow> (string \<times> nat) list \<Rightarrow> vars \<Rightarrow> (int \<times> vars) option" where
  "load_from opened mod_name cic csc vs = do {
     conf \<leftarrow> opened;
     case conf of
       None \<Rightarrow> Some (-1, vs)
     | Some conf \<Rightarrow> do {
         (_, vs') \<leftarrow> parse_conf_file (Some conf) mod_name cic csc vs;
         _ \<leftarrow> close_conf_file (Some conf);
         Some (0, vs') } }"

definition load_conf ::
  "env \<Rightarrow> (string \<Rightarrow> string option) \<Rightarrow> string \<Rightarrow> string option \<Rightarrow> string option \<Rightarrow> (string \<times> nat) list
     \<Rightarrow> (string \<times> nat) list \<Rightarrow> vars \<Rightarrow> (int \<times> vars) option" where
  "load_conf env fs conf_file conf_name mod_name cic csc vs =
     load_from (open_conf_file env fs conf_file conf_name) mod_name cic csc vs"

definition load_conf_mem ::
  "env \<Rightarrow> string option \<Rightarrow> int \<Rightarrow> string option \<Rightarrow> (string \<times> nat) list \<Rightarrow> (string \<times> nat) list \<Rightarrow> vars
     \<Rightarrow> (int \<times> vars) option" where
  "load_conf_mem env ini len mod_name cic csc vs =
     load_from (open_conf_mem env ini len) mod_name cic csc vs"

section \<open>Specification\<close>

text \<open>What the settings of a map of bindings make of the variables.\<close>

definition conf_lookup :: "(string \<Rightarrow> string option option) \<Rightarrow> string \<Rightarrow> string \<Rightarrow> string option" where
  "conf_lookup b mod_name name = Option.bind (b (map tolower (conf_key mod_name name))) id"

definition int_setting :: "(string \<Rightarrow> string option option) \<Rightarrow> string \<Rightarrow> string \<times> nat \<Rightarrow> (nat \<Rightarrow> int) \<Rightarrow> (nat \<Rightarrow> int)" where
  "int_setting b mod_name nv m = (case conf_lookup b mod_name (fst nv) of
      None \<Rightarrow> m
    | Some s \<Rightarrow> if to_int (strtol s) = -1 then m else m(snd nv := to_int (strtol s)))"

definition str_setting :: "(string \<Rightarrow> string option option) \<Rightarrow> string \<Rightarrow> string \<times> nat \<Rightarrow> (nat \<Rightarrow> string) \<Rightarrow> (nat \<Rightarrow> string)" where
  "str_setting b mod_name nv m = (case conf_lookup b mod_name (fst nv) of
      None \<Rightarrow> m | Some s \<Rightarrow> m(snd nv := strncpy s 201))"

definition no_null :: "(string \<Rightarrow> string option option) \<Rightarrow> string \<Rightarrow> (string \<times> nat) list \<Rightarrow> bool" where
  "no_null b mod_name cic \<longleftrightarrow> (\<forall>nv \<in> set cic. b (map tolower (conf_key mod_name (fst nv))) \<noteq> Some None)"

lemma length_conf_key: "length (conf_key m n) \<le> ASCIILINESZ"
  by (simp add: conf_key_def CONF_ITEM_LEN_def ASCIILINESZ_def)

lemma getstring_spec:
  "dict_wf d \<Longrightarrow> length key \<le> ASCIILINESZ \<Longrightarrow> iniparser_getstring (Some d) (Some key) def =
     Some (case dict_abs d (map tolower key) of None \<Rightarrow> def | Some v \<Rightarrow> ptr_of v)"
  by (simp add: iniparser_getstring_def dictionary_get_spec strlwc_def)

lemma conf_ints_spec:
  "dict_wf d \<Longrightarrow> no_null (dict_abs d) mod_name cic \<Longrightarrow>
     conf_ints d mod_name cic m = Some (fold (int_setting (dict_abs d) mod_name) cic m)"
  by (induction cic arbitrary: m)
    (auto simp: iniparser_getint_def getstring_spec length_conf_key no_null_def int_setting_def conf_lookup_def
      ptr_of_def split: option.splits)

lemma conf_strs_spec:
  "dict_wf d \<Longrightarrow> conf_strs d mod_name csc m = Some (fold (str_setting (dict_abs d) mod_name) csc m)"
  by (induction csc arbitrary: m)
    (auto simp: getstring_spec length_conf_key str_setting_def conf_lookup_def ptr_of_def CONF_ITEM_LEN_def
      split: option.splits)

lemma load_from_spec:
  assumes "dict_wf d" "no_null (dict_abs d) mod_name cic"
  shows "load_from (Some (Some d)) (Some mod_name) cic csc vs =
    Some (0, \<lparr>ints = fold (int_setting (dict_abs d) mod_name) cic (ints vs),
             strs = fold (str_setting (dict_abs d) mod_name) csc (strs vs)\<rparr>)"
  using dictionary_del_wf [OF assms(1)] assms
  by (auto simp: load_from_def parse_conf_file_def conf_ints_spec conf_strs_spec close_conf_file_def iniparser_freedict_def)

lemma updates_values:
  "updates m ops k = Some v \<Longrightarrow> m k = Some v \<or> (k, Some v) \<in> set ops"
  by (induction m ops rule: updates.induct) (force split: if_splits)+

lemma doc_updates_null: "(k, Some None) \<in> set (doc_updates sec is) \<Longrightarrow> Sec k \<in> set is"
  by (induction sec "is" rule: doc_updates.induct) auto

lemma tolower_colon: "tolower CHR '':'' = CHR '':''"
  by (simp add: tolower_def)

lemma doc_no_null:
  assumes "\<And>s. Sec s \<in> set is \<Longrightarrow> CHR '':'' \<notin> set s" "length mod_name < 199"
  shows "no_null (updates Map.empty (doc_updates [] is)) mod_name cic"
  unfolding no_null_def
proof (intro ballI notI)
  fix nv assume "updates Map.empty (doc_updates [] is) (map tolower (conf_key mod_name (fst nv))) = Some None"
  then have "Sec (map tolower (conf_key mod_name (fst nv))) \<in> set is"
    using updates_values doc_updates_null by fastforce
  moreover have "CHR '':'' \<in> set (conf_key mod_name (fst nv))"
    using assms(2) by (auto simp: conf_key_def CONF_ITEM_LEN_def take_Cons' take_append)
  then have "CHR '':'' \<in> set (map tolower (conf_key mod_name (fst nv)))" using tolower_colon by force
  ultimately show False using assms(1) by blast
qed

lemma open_doc:
  assumes "good_doc [] is" "fmt = key_sprintf \<or> fmt = key_snprintf" "below \<noteq> BSL"
  shows "\<exists>d. iniparser_load fmt below alloc_ok (Some (doc_text is)) = Some (Some d) \<and> dict_wf d \<and>
      dict_abs d = updates Map.empty (doc_updates [] is)"
    and "\<exists>d. iniparser_load_mem fmt alloc_ok (doc_text is @ [NUL]) (int (length (doc_text is))) = Some (Some d) \<and>
      dict_wf d \<and> dict_abs d = updates Map.empty (doc_updates [] is)"
proof -
  obtain d where d: "dictionary_new all_ok 0 = Some d" "dict_wf d" "dict_abs d = Map.empty"
    using dictionary_new_spec [of all_ok 0] by blast
  show "\<exists>d. iniparser_load fmt below alloc_ok (Some (doc_text is)) = Some (Some d) \<and> dict_wf d \<and>
      dict_abs d = updates Map.empty (doc_updates [] is)"
    using load_loop_doc [of "load_init d" "is" fmt below 0] assms d
    by (simp add: iniparser_load_def load_init_def fmt_ok_def)
  show "\<exists>d. iniparser_load_mem fmt alloc_ok (doc_text is @ [NUL]) (int (length (doc_text is))) = Some (Some d) \<and>
      dict_wf d \<and> dict_abs d = updates Map.empty (doc_updates [] is)"
    using load_mem_loop_doc [of "load_init d" "is" fmt 0 "doc_text is @ [NUL]" "int (length (doc_text is))" 0] assms d
    by (simp add: iniparser_load_mem_def load_init_def fmt_ok_def)
qed

text \<open>The variables after the settings of an ini text have been read.\<close>

definition conf_result :: "item list \<Rightarrow> string \<Rightarrow> (string \<times> nat) list \<Rightarrow> (string \<times> nat) list \<Rightarrow> vars \<Rightarrow> vars" where
  "conf_result is mod_name cic csc vs =
    (let b = updates Map.empty (doc_updates [] is)
     in \<lparr>ints = fold (int_setting b mod_name) cic (ints vs), strs = fold (str_setting b mod_name) csc (strs vs)\<rparr>)"

section \<open>Properties\<close>


text \<open>A string setting longer than \<open>CONF_ITEM_LEN\<close> is copied without a terminator, because
  \<open>strlcpy\<close> is \<open>strncpy\<close>: \<open>load_conf\<close> returns 0 and leaves 201 characters and no zero in the variable.\<close>

theorem load_conf_unterminated:
  assumes "good_sec s" "CHR '':'' \<notin> set s" "good_key k" "good_val v" "length s + length k < 198" "201 \<le> length v" "length v \<le> 700"
    and "below \<noteq> BSL" "fs name = Some (doc_text [Sec s, KV k 0 v])"
  shows "\<exists>vs'. load_conf (key_snprintf, below, alloc_ok) fs conf_file (Some name) (Some s) [] [(k, x)] vs = Some (0, vs') \<and>
    strs vs' x = take 201 v \<and> NUL \<notin> set (strs vs' x)"
proof -
  have low: "map tolower s = s" "map tolower k = k" using assms(1,3) by (simp_all add: good_sec_def good_key_def good_name_def)
  have "good_doc [] [Sec s, KV k 0 v]" using assms by (simp add: kv_line_def)
  then obtain d where d: "iniparser_load key_snprintf below alloc_ok (Some (doc_text [Sec s, KV k 0 v])) = Some (Some d)"
    "dict_wf d" "dict_abs d = [s \<mapsto> None, s @ CHR '':'' # k \<mapsto> Some v]"
    using open_doc(1) [of "[Sec s, KV k 0 v]" key_snprintf below] assms(8) by auto
  have "conf_lookup (dict_abs d) s k = Some v"
    using assms(5) by (simp add: conf_lookup_def conf_key_def d(3) CONF_ITEM_LEN_def low tolower_colon)
  then have "load_from (Some (Some d)) (Some s) [] [(k, x)] vs = Some (0, \<lparr>ints = ints vs, strs = (strs vs)(x := strncpy v 201)\<rparr>)"
    using load_from_spec [OF d(2), of s "[]" "[(k, x)]" vs] by (simp add: no_null_def str_setting_def)
  moreover have "strncpy v 201 = take 201 v" using assms(6) by (simp add: strncpy_def)
  moreover have "NUL \<notin> set (take 201 v)" using assms(4) by (auto simp: good_val_def dest: in_set_takeD)
  ultimately show ?thesis by (simp add: load_conf_def open_conf_file_def assms(9) d(1))
qed

theorem load_conf_unterminated_witness:
  "\<exists>vs'. load_conf (key_snprintf, CHR ''x'', alloc_ok) [''f'' \<mapsto> doc_text [Sec ''a'', KV ''b'' 0 (replicate 300 CHR ''v'')]] []
      (Some ''f'') (Some ''a'') [] [(''b'', 0)] \<lparr>ints = \<lambda>_. 0, strs = \<lambda>_. []\<rparr> = Some (0, vs') \<and>
     strs vs' 0 = replicate 201 CHR ''v'' \<and> NUL \<notin> set (strs vs' 0)"
  using load_conf_unterminated [of "''a''" "''b''" "replicate 300 CHR ''v''" "CHR ''x''"
      "[''f'' \<mapsto> doc_text [Sec ''a'', KV ''b'' 0 (replicate 300 CHR ''v'')]]" "''f''" "[]" 0 "\<lparr>ints = \<lambda>_. 0, strs = \<lambda>_. []\<rparr>"]
  by (simp add: good_sec_def good_key_def good_val_def good_name_def trimmed_def isspace_def tolower_def)


end
