(* ===== verification/Ctserver.thy ===== *)
theory Ctserver
  imports Confparser
begin

text \<open>
  Model of \<^verbatim>\<open>samples/ctproxy/ctserver.c\<close>: the parent process of the proxy. It reads its settings, keeps
  a table of client slots and serves \<open>epoll\<close> events, one child process per connection. The state
  holds the table, the listening sockets, the open and the watched descriptors of the process, the
  messages written to clients and whether \<open>SIGCHLD\<close> is blocked. What the kernel answers during an
  event (\<open>accept\<close>, \<open>pipe\<close>, \<open>fork\<close>, \<open>epoll_ctl\<close>, the peer's address) is the parameter \<open>answers\<close>; an
  index outside the table is undefined behaviour, the result \<open>None\<close>. Log messages are left out, and
  so are the \<open>fcntl\<close> flags and the time \<open>safe_write\<close> takes.
\<close>

section \<open>Settings\<close>

record config =
  clog_level :: string
  cport :: string
  cmax_connect :: string
  cpidfile :: string
  child_exec :: string
  crw_timeout :: string

definition MAXLINE :: nat where "MAXLINE = 1024"
definition DEF_PORT :: string where "DEF_PORT = ''3331''"
definition DEF_MAX_WORKS :: string where "DEF_MAX_WORKS = ''128''"
definition DEF_LOG_LEVEL :: string where "DEF_LOG_LEVEL = ''8''"
definition DEF_PID_FILE :: string where "DEF_PID_FILE = ''/var/run/ctserver.pid''"
definition DEF_CHILD_EXEC :: string where "DEF_CHILD_EXEC = ''/usr/local/ctproxy/bin/ctchild''"
definition DEF_RW_TIMEOUT :: string where "DEF_RW_TIMEOUT = ''2''"

text \<open>\<open>snprintf (buf, size, "%s", s)\<close>, and a setting read with it.\<close>

definition snprintf_s :: "nat \<Rightarrow> string \<Rightarrow> string" where
  "snprintf_s sz s = take (sz - 1) s"

definition setting :: "dictionary \<Rightarrow> string \<Rightarrow> string \<Rightarrow> nat \<Rightarrow> string option" where
  "setting d key def sz = do {
     v \<leftarrow> dictionary_get d key Null;
     case v of Null \<Rightarrow> Some (snprintf_s sz def) | Str s \<Rightarrow> Some (snprintf_s sz s) | Invalid \<Rightarrow> None }"

definition get_config_file ::
  "env \<Rightarrow> (string \<Rightarrow> string option) \<Rightarrow> string \<Rightarrow> config \<Rightarrow> (int \<times> config) option" where
  "get_config_file env fs cfg_ini cfg = do {
     dict_conf \<leftarrow> open_conf_file env fs [] (Some cfg_ini);
     case dict_conf of
       None \<Rightarrow> Some (1, cfg)
     | Some d \<Rightarrow> do {
         log \<leftarrow> setting d ''server:log_level'' DEF_LOG_LEVEL 128;
         port \<leftarrow> setting d ''server:bind_port'' DEF_PORT 128;
         maxc \<leftarrow> setting d ''server:max_connect'' DEF_MAX_WORKS 128;
         pidf \<leftarrow> setting d ''server:pidfile'' DEF_PID_FILE MAXLINE;
         exe \<leftarrow> setting d ''server:child_exec'' DEF_CHILD_EXEC MAXLINE;
         rwt \<leftarrow> setting d ''server:rw_timeout'' DEF_RW_TIMEOUT 128;
         Some (0, \<lparr>clog_level = log, cport = port, cmax_connect = maxc, cpidfile = pidf, child_exec = exe, crw_timeout = rwt\<rparr>) } }"

definition atoi :: "string \<Rightarrow> int" where
  "atoi str =
    (let s = dropWhile isspace str
     in to_int (max (- (2 ^ 63)) (min (2 ^ 63 - 1)
          (case s of
             c # t \<Rightarrow> if c = CHR ''-'' then - digits_of 10 t else if c = CHR ''+'' then digits_of 10 t else digits_of 10 s
           | [] \<Rightarrow> 0))))"

section \<open>Clients\<close>

record client_st =
  used_slot :: bool
  cl_pid :: int
  cl_fd :: int
  ip :: string
  port :: string
  sid :: string
  ip_hex :: string
  pfd_r :: int
  pfd_w :: int

record server =
  clients_t :: "client_st list"
  max_connect :: int
  listen_socks :: "int list"
  epoll_num_running :: int
  open_fds :: "int set"
  watched :: "int set"
  sent :: "(int \<times> string) list"
  chld_blocked :: bool

text \<open>\<open>close\<close> of a descriptor, which also ends its \<open>epoll\<close> registration; \<open>close_fd\<close> sets its own copy
  of the number to -1 and nothing else.\<close>

definition close_fd :: "int \<Rightarrow> server \<Rightarrow> server" where
  "close_fd fd s = s\<lparr>open_fds := open_fds s - {fd}, watched := watched s - {fd}\<rparr>"

definition opened :: "int set \<Rightarrow> server \<Rightarrow> server" where
  "opened fs s = s\<lparr>open_fds := open_fds s \<union> fs\<rparr>"

definition upd_client :: "nat \<Rightarrow> client_st \<Rightarrow> server \<Rightarrow> server" where
  "upd_client i c s = s\<lparr>clients_t := (clients_t s)[i := c]\<rparr>"

definition empty_client :: client_st where
  "empty_client = \<lparr>used_slot = False, cl_pid = -1, cl_fd = -1, ip = [], port = [], sid = [], ip_hex = [], pfd_r = -1, pfd_w = -1\<rparr>"

definition init_client_with_idx :: "nat \<Rightarrow> server \<Rightarrow> server option" where
  "init_client_with_idx i s = map_option (\<lambda>cs. s\<lparr>clients_t := cs\<rparr>) (wr (clients_t s) i empty_client)"

definition close_if :: "int \<Rightarrow> server \<Rightarrow> server" where
  "close_if fd s = (if fd \<noteq> -1 then close_fd fd s else s)"

definition clean_client_with_idx :: "nat \<Rightarrow> server \<Rightarrow> server option" where
  "clean_client_with_idx i s = do {
     c \<leftarrow> rd (clients_t s) i;
     let s' = close_if (pfd_w c) (close_if (pfd_r c) (close_if (cl_fd c) s));
     Some (upd_client i empty_client s') }"

function idle_loop :: "server \<Rightarrow> nat \<Rightarrow> int option" where
  "idle_loop s i =
    (if int i < max_connect s then do {
       c \<leftarrow> rd (clients_t s) i;
       if \<not> used_slot c then Some (int i) else idle_loop s (i + 1) }
     else Some (-1))"
  by pat_completeness auto
termination by (relation "measure (\<lambda>(s, i). nat (max_connect s) - i)") auto

definition get_idle_idx_from_clients :: "server \<Rightarrow> int option" where
  "get_idle_idx_from_clients s = idle_loop s 0"

function sockfd_loop :: "server \<Rightarrow> int \<Rightarrow> nat \<Rightarrow> int option" where
  "sockfd_loop s sockfd i =
    (if int i < max_connect s then do {
       c \<leftarrow> rd (clients_t s) i;
       if pfd_r c = sockfd \<and> used_slot c then Some (int i) else sockfd_loop s sockfd (i + 1) }
     else Some (-1))"
  by pat_completeness auto
termination by (relation "measure (\<lambda>(s, sockfd, i). nat (max_connect s) - i)") auto

definition get_idx_with_sockfd :: "int \<Rightarrow> server \<Rightarrow> int option" where
  "get_idx_with_sockfd sockfd s = sockfd_loop s sockfd 0"

definition exit_child_with_sockfd :: "int \<Rightarrow> server \<Rightarrow> (int \<times> server) option" where
  "exit_child_with_sockfd sockfd s = do {
     idx \<leftarrow> get_idx_with_sockfd sockfd s;
     if idx < 0 then Some (-1, close_fd sockfd s)
     else do {
       s' \<leftarrow> clean_client_with_idx (nat idx) s;
       Some (idx, close_fd sockfd s') } }"

section \<open>Children\<close>

datatype accept_res = Conn int | Again | Fail

record answers =
  a_accept :: "nat \<Rightarrow> accept_res"
  a_scid :: string
  a_ip :: string
  a_port :: string
  a_hex :: string
  a_pipe1 :: "(int \<times> int) option"
  a_pipe2 :: "(int \<times> int) option"
  a_fork :: "int option"
  a_epoll_ctl :: bool

text \<open>The parent's side of \<open>create_child_and_exec_with_idx_clientfd\<close>: 0, or -9 when a pipe or the fork
  fails.\<close>

definition create_child_and_exec_with_idx_clientfd :: "answers \<Rightarrow> nat \<Rightarrow> int \<Rightarrow> server \<Rightarrow> (int \<times> server) option" where
  "create_child_and_exec_with_idx_clientfd a i connfd s =
    (case a_pipe1 a of
       None \<Rightarrow> Some (-9, s)
     | Some (p10, p11) \<Rightarrow>
         let s1 = opened {p10, p11} s
         in (case a_pipe2 a of
               None \<Rightarrow> Some (-9, close_fd p11 (close_fd p10 s1))
             | Some (p20, p21) \<Rightarrow>
                 let s2 = opened {p20, p21} s1
                 in (case a_fork a of
                       None \<Rightarrow> Some (-9, close_fd p21 (close_fd p20 (close_fd p11 (close_fd p10 s2))))
                     | Some pid \<Rightarrow> do {
                         c \<leftarrow> rd (clients_t s2) i;
                         let s3 = close_fd connfd (close_fd p21 (close_fd p10 s2));
                         let s4 = upd_client i (c\<lparr>cl_pid := pid, pfd_r := p20, pfd_w := p11\<rparr>) s3;
                         Some (0, if a_epoll_ctl a then s4\<lparr>watched := insert p20 (watched s4)\<rparr> else s4) })))"

text \<open>The child's side: descriptors 0, 1 and 2 become the pipes and the connection. A descriptor table
  maps numbers to open files; \<open>fd_copy\<close> and \<open>fd_move\<close> are those of \<^verbatim>\<open>utils.c\<close>. \<open>None\<close> is \<open>_exit (50)\<close>.\<close>

type_synonym 'f fdtab = "int \<Rightarrow> 'f option"

definition fd_copy :: "int \<Rightarrow> int \<Rightarrow> 'f fdtab \<Rightarrow> int \<times> 'f fdtab" where
  "fd_copy to from t =
    (if to = from then (0, t)
     else if t from = None then (-1, t)
     else (0, t(to := t from)))"

definition fd_move :: "int \<Rightarrow> int \<Rightarrow> 'f fdtab \<Rightarrow> int \<times> 'f fdtab" where
  "fd_move to from t =
    (if to = from then (0, t)
     else (case fd_copy to from t of (r, t') \<Rightarrow> if r = -1 then (-1, t') else (0, t'(from := None))))"

definition child_fds :: "int \<Rightarrow> int \<times> int \<Rightarrow> int \<times> int \<Rightarrow> int \<Rightarrow> 'f fdtab \<Rightarrow> 'f fdtab option" where
  "child_fds listen_fd pfd1 pfd2 connfd t0 =
    (let t = t0(snd pfd1 := None, fst pfd2 := None, listen_fd := None)
     in case fd_move 2 connfd t of (r1, t1) \<Rightarrow> if r1 = -1 then None
        else (case fd_move 0 (fst pfd1) t1 of (r2, t2) \<Rightarrow> if r2 = -1 then None
        else (case fd_move 1 (snd pfd2) t2 of (r3, t3) \<Rightarrow> if r3 = -1 then None else Some t3)))"

definition child_args :: "config \<Rightarrow> string \<Rightarrow> client_st \<Rightarrow> string list" where
  "child_args cfg cfg_ini c =
    [child_exec cfg, snprintf_s MAXLINE (''-i'' @ sid c), snprintf_s MAXLINE (''-r'' @ ip c @ '':'' @ port c),
     snprintf_s MAXLINE (''-c'' @ cfg_ini)]"

text \<open>The log line of the command: each \<open>snprintf\<close> appends at \<open>len\<close>, which counts untruncated lengths;
  \<open>None\<close> when the remaining size \<open>sizeof (exec_log) - len\<close> has wrapped.\<close>

fun exec_log_loop :: "nat \<Rightarrow> string list \<Rightarrow> string \<Rightarrow> string option" where
  "exec_log_loop len [] out = Some out"
| "exec_log_loop len (a # as) out =
    (if len > 3 * MAXLINE then None
     else exec_log_loop (len + length a + 1) as (out @ snprintf_s (3 * MAXLINE - len) (a @ '' '')))"

section \<open>Events\<close>

function accept_loop :: "(nat \<Rightarrow> accept_res) \<Rightarrow> nat \<Rightarrow> int" where
  "accept_loop acc accept_times =
    (case acc (accept_times + 1) of
       Conn fd \<Rightarrow> fd
     | Fail \<Rightarrow> -1
     | Again \<Rightarrow> if accept_times + 1 > 5 then -1 else accept_loop acc (accept_times + 1))"
  by pat_completeness auto
termination by (relation "measure (\<lambda>(acc, t). 6 - t)") auto

fun listen_index :: "int list \<Rightarrow> int \<Rightarrow> nat \<Rightarrow> int" where
  "listen_index [] fd i = -1"
| "listen_index (l # ls) fd i = (if fd = l then int i else listen_index ls fd (i + 1))"

definition which_is_listen :: "int \<Rightarrow> server \<Rightarrow> int" where
  "which_is_listen fd s = listen_index (listen_socks s) fd 0"

definition say :: "int \<Rightarrow> string \<Rightarrow> server \<Rightarrow> server" where
  "say fd msg s = s\<lparr>sent := sent s @ [(fd, msg)]\<rparr>"

definition admit :: "answers \<Rightarrow> int \<Rightarrow> server \<Rightarrow> server option" where
  "admit a connfd s0 = do {
     i \<leftarrow> get_idle_idx_from_clients s0;
     if i = -1 then Some (close_fd connfd (say connfd (''system error'' @ [LF]) s0))
     else do {
       c \<leftarrow> rd (clients_t s0) (nat i);
       let c' = c\<lparr>used_slot := True, cl_fd := connfd, sid := snprintf_s 512 (a_scid a), ip := snprintf_s 92 (a_ip a),
         port := snprintf_s 20 (a_port a), ip_hex := a_hex a\<rparr>;
       (ret, s2) \<leftarrow> create_child_and_exec_with_idx_clientfd a (nat i) connfd (upd_client (nat i) c' s0);
       if ret \<noteq> 0 then
         Some (close_fd connfd (say connfd (''Server Temporarily Error, Please Try Again Later'' @ [LF]) s2))
       else Some (s2\<lparr>epoll_num_running := epoll_num_running s2 + 1\<rparr>) } }"

definition new_connection :: "answers \<Rightarrow> server \<Rightarrow> server option" where
  "new_connection a s =
    (let connfd = accept_loop (a_accept a) 0
     in admit a connfd (if connfd = -1 then s else opened {connfd} s))"

definition child_hangup :: "int \<Rightarrow> server \<Rightarrow> server option" where
  "child_hangup evt_fd s = do {
     idx \<leftarrow> get_idx_with_sockfd evt_fd s;
     s' \<leftarrow> (if idx < 0 then Some s else clean_client_with_idx (nat idx) s);
     let s'' = close_fd evt_fd s';
     Some (s''\<lparr>epoll_num_running := epoll_num_running s'' - 1\<rparr>) }"

record event =
  evt_fd :: int
  EPOLLERR :: bool
  EPOLLIN :: bool
  EPOLLHUP :: bool

text \<open>One turn of the event loop. The \<open>continue\<close> of the error branch skips \<open>sig_childunblock\<close>.\<close>

definition handle_event :: "answers \<Rightarrow> event \<Rightarrow> server \<Rightarrow> server option" where
  "handle_event a e s0 =
    (let s = s0\<lparr>chld_blocked := True\<rparr>;
         listening = which_is_listen (evt_fd e) s \<noteq> -1;
         unblock = map_option (\<lambda>s. s\<lparr>chld_blocked := False\<rparr>)
     in if EPOLLERR e then Some (close_fd (evt_fd e) s)
        else if EPOLLIN e then
          (if listening then unblock (new_connection a s)
           else unblock (map_option (\<lambda>_. s) (get_idx_with_sockfd (evt_fd e) s)))
        else if EPOLLHUP e \<and> \<not> listening then unblock (child_hangup (evt_fd e) s)
        else unblock (Some s))"

fun init_loop :: "nat \<Rightarrow> server \<Rightarrow> server option" where
  "init_loop 0 s = Some s"
| "init_loop (Suc n) s = do { s' \<leftarrow> init_loop n s; init_client_with_idx n s' }"

text \<open>\<open>main\<close> up to the loop: a table of \<open>max_connect + 1\<close> slots (whatever \<open>malloc\<close> put there, \<open>junk\<close>), all
  initialised, and the bound sockets watched.\<close>

definition start_server :: "config \<Rightarrow> (nat \<Rightarrow> client_st) \<Rightarrow> int list \<Rightarrow> int set \<Rightarrow> server option" where
  "start_server cfg junk socks fds =
    (let n = nat (atoi (cmax_connect cfg) + 1)
     in init_loop n \<lparr>clients_t = map junk [0..<n], max_connect = atoi (cmax_connect cfg), listen_socks = socks,
          epoll_num_running = 0, open_fds = fds \<union> set socks, watched = set socks, sent = [], chld_blocked = False\<rparr>)"

text \<open>What the kernel guarantees: new descriptors are unused ones, and different ones.\<close>

definition kernel_ok :: "answers \<Rightarrow> server \<Rightarrow> bool" where
  "kernel_ok a s \<longleftrightarrow>
    (let c = accept_loop (a_accept a) 0;
         ps = (case a_pipe1 a of None \<Rightarrow> [] | Some (x, y) \<Rightarrow> [x, y]) @ (case a_pipe2 a of None \<Rightarrow> [] | Some (x, y) \<Rightarrow> [x, y])
     in (c = -1 \<or> 0 \<le> c \<and> c \<notin> open_fds s) \<and> distinct ps \<and>
        (\<forall>p \<in> set ps. 0 \<le> p \<and> p \<notin> open_fds s \<and> p \<noteq> c))"

inductive server_step :: "server \<Rightarrow> server \<Rightarrow> bool" where
  event: "kernel_ok a s \<Longrightarrow> 0 \<le> evt_fd e \<Longrightarrow> handle_event a e s = Some s' \<Longrightarrow> server_step s s'"

inductive server_reach :: "server \<Rightarrow> bool" where
  start: "start_server cfg junk socks fds = Some s \<Longrightarrow> server_reach s"
| step: "server_reach s \<Longrightarrow> server_step s s' \<Longrightarrow> server_reach s'"

declare idle_loop.simps [simp del] sockfd_loop.simps [simp del] accept_loop.simps [simp del]

section \<open>The client table\<close>

text \<open>The table has \<open>max_connect + 1\<close> slots and a slot that is not used is as \<open>init_client_with_idx\<close>
  leaves it.\<close>

definition table_ok :: "server \<Rightarrow> bool" where
  "table_ok s \<longleftrightarrow> length (clients_t s) = nat (max_connect s + 1) \<and> (\<forall>c \<in> set (clients_t s). \<not> used_slot c \<longrightarrow> c = empty_client)"

definition in_use :: "server \<Rightarrow> nat \<Rightarrow> bool" where
  "in_use s i \<longleftrightarrow> used_slot (clients_t s ! i)"

lemma table_index: "table_ok s \<Longrightarrow> int i < max_connect s \<Longrightarrow> i < length (clients_t s)"
  by (simp add: table_ok_def)

lemma idle_loop_spec:
  assumes "table_ok s" "\<And>j. j < i \<Longrightarrow> in_use s j"
  shows "(\<exists>k. idle_loop s i = Some (int k) \<and> int k < max_connect s \<and> \<not> in_use s k \<and> (\<forall>j < k. in_use s j)) \<or>
    idle_loop s i = Some (-1) \<and> (\<forall>j. int j < max_connect s \<longrightarrow> in_use s j)"
  using assms
proof (induction s i rule: idle_loop.induct)
  case (1 s i)
  show ?case
  proof (cases "int i < max_connect s")
    case True
    have c: "rd (clients_t s) i = Some (clients_t s ! i)" using table_index [OF 1(2) True] by simp
    show ?thesis
    proof (cases "in_use s i")
      case used: True
      then have "\<And>j. j < i + 1 \<Longrightarrow> in_use s j" using 1(3) by (auto simp: less_Suc_eq)
      then show ?thesis using 1(1) [OF True c _ 1(2)] used True c by (subst (1 2) idle_loop.simps) (auto simp: in_use_def)
    next
      case False
      then show ?thesis using True c 1(3) by (subst (1 2) idle_loop.simps) (auto simp: in_use_def)
    qed
  next
    case False
    then have "in_use s j" if "int j < max_connect s" for j using 1(3) [of j] that by linarith
    then show ?thesis using False by (subst (1 2) idle_loop.simps) auto
  qed
qed

lemma sockfd_loop_spec:
  assumes "table_ok s" "\<And>j. j < i \<Longrightarrow> \<not> (in_use s j \<and> pfd_r (clients_t s ! j) = fd)"
  shows "(\<exists>k. sockfd_loop s fd i = Some (int k) \<and> int k < max_connect s \<and> in_use s k \<and> pfd_r (clients_t s ! k) = fd \<and>
      (\<forall>j < k. \<not> (in_use s j \<and> pfd_r (clients_t s ! j) = fd))) \<or>
    sockfd_loop s fd i = Some (-1) \<and> (\<forall>j. int j < max_connect s \<longrightarrow> \<not> (in_use s j \<and> pfd_r (clients_t s ! j) = fd))"
  using assms
proof (induction s fd i rule: sockfd_loop.induct)
  case (1 s fd i)
  show ?case
  proof (cases "int i < max_connect s")
    case True
    have c: "rd (clients_t s) i = Some (clients_t s ! i)" using table_index [OF 1(2) True] by simp
    show ?thesis
    proof (cases "in_use s i \<and> pfd_r (clients_t s ! i) = fd")
      case hit: True
      then show ?thesis using True c 1(3) by (subst (1 2) sockfd_loop.simps) (auto simp: in_use_def)
    next
      case False
      then have "\<And>j. j < i + 1 \<Longrightarrow> \<not> (in_use s j \<and> pfd_r (clients_t s ! j) = fd)" using 1(3) by (auto simp: less_Suc_eq)
      then show ?thesis using 1(1) [OF True c _ 1(2)] False True c by (subst (1 2) sockfd_loop.simps) (auto simp: in_use_def)
    qed
  next
    case False
    then have "\<not> (in_use s j \<and> pfd_r (clients_t s ! j) = fd)" if "int j < max_connect s" for j using 1(3) [of j] that by linarith
    then show ?thesis using False by (subst (1 2) sockfd_loop.simps) auto
  qed
qed

lemma get_idle_cases:
  assumes "table_ok s"
  obtains (idle) k where "get_idle_idx_from_clients s = Some (int k)" "int k < max_connect s" "\<not> in_use s k" "\<And>j. j < k \<Longrightarrow> in_use s j"
  | (full) "get_idle_idx_from_clients s = Some (-1)" "\<And>j. int j < max_connect s \<Longrightarrow> in_use s j"
  using idle_loop_spec [OF assms, of 0] unfolding get_idle_idx_from_clients_def by blast

lemma get_idx_cases:
  assumes "table_ok s"
  obtains (found) k where "get_idx_with_sockfd fd s = Some (int k)" "int k < max_connect s" "in_use s k" "pfd_r (clients_t s ! k) = fd"
      "\<And>j. j < k \<Longrightarrow> \<not> (in_use s j \<and> pfd_r (clients_t s ! j) = fd)"
  | (none) "get_idx_with_sockfd fd s = Some (-1)" "\<And>j. int j < max_connect s \<Longrightarrow> \<not> (in_use s j \<and> pfd_r (clients_t s ! j) = fd)"
  using sockfd_loop_spec [OF assms, of 0 fd] unfolding get_idx_with_sockfd_def by blast

lemma table_upd: "table_ok s \<Longrightarrow> used_slot c \<or> c = empty_client \<Longrightarrow> clients_t s' = (clients_t s)[i := c] \<Longrightarrow>
    max_connect s' = max_connect s \<Longrightarrow> table_ok s'"
  by (auto simp: table_ok_def dest!: set_update_subset_insert [THEN subsetD])

lemma close_simps [simp]:
  "clients_t (close_fd fd s) = clients_t s" "max_connect (close_fd fd s) = max_connect s" "open_fds (close_fd fd s) = open_fds s - {fd}"
  "sent (close_fd fd s) = sent s" "listen_socks (close_fd fd s) = listen_socks s" "epoll_num_running (close_fd fd s) = epoll_num_running s"
  "clients_t (close_if fd s) = clients_t s" "max_connect (close_if fd s) = max_connect s" "sent (close_if fd s) = sent s"
  "listen_socks (close_if fd s) = listen_socks s" "epoll_num_running (close_if fd s) = epoll_num_running s"
  "open_fds (close_if fd s) = (if fd = -1 then open_fds s else open_fds s - {fd})"
  by (simp_all add: close_fd_def close_if_def)

lemma opened_simps [simp]:
  "clients_t (opened fs s) = clients_t s" "max_connect (opened fs s) = max_connect s" "open_fds (opened fs s) = open_fds s \<union> fs"
  "sent (opened fs s) = sent s" "listen_socks (opened fs s) = listen_socks s" "epoll_num_running (opened fs s) = epoll_num_running s"
  by (simp_all add: opened_def)

lemma say_simps [simp]:
  "clients_t (say fd w s) = clients_t s" "max_connect (say fd w s) = max_connect s" "open_fds (say fd w s) = open_fds s"
  "sent (say fd w s) = sent s @ [(fd, w)]" "listen_socks (say fd w s) = listen_socks s" "epoll_num_running (say fd w s) = epoll_num_running s"
  by (simp_all add: say_def)

lemma upd_client_simps [simp]:
  "clients_t (upd_client i c s) = (clients_t s)[i := c]" "max_connect (upd_client i c s) = max_connect s" "open_fds (upd_client i c s) = open_fds s"
  "sent (upd_client i c s) = sent s" "listen_socks (upd_client i c s) = listen_socks s" "epoll_num_running (upd_client i c s) = epoll_num_running s"
  by (simp_all add: upd_client_def)

text \<open>\<open>same_table s s'\<close>: nothing of the table has changed.\<close>

definition same_table :: "server \<Rightarrow> server \<Rightarrow> bool" where
  "same_table s s' \<longleftrightarrow> clients_t s' = clients_t s \<and> max_connect s' = max_connect s \<and> listen_socks s' = listen_socks s"

lemma create_child_cases:
  assumes "i < length (clients_t s)"
  obtains (fail) s' where "create_child_and_exec_with_idx_clientfd a i connfd s = Some (-9, s')" "same_table s s'" "sent s' = sent s"
      "a_pipe1 a = None \<or> a_pipe2 a = None \<or> a_fork a = None"
  | (forked) p10 p11 p20 p21 pid s' where "create_child_and_exec_with_idx_clientfd a i connfd s = Some (0, s')"
      "a_pipe1 a = Some (p10, p11)" "a_pipe2 a = Some (p20, p21)" "a_fork a = Some pid"
      "clients_t s' = (clients_t s)[i := (clients_t s ! i)\<lparr>cl_pid := pid, pfd_r := p20, pfd_w := p11\<rparr>]"
      "max_connect s' = max_connect s" "listen_socks s' = listen_socks s" "sent s' = sent s" "epoll_num_running s' = epoll_num_running s"
      "open_fds s' = (open_fds s \<union> {p10, p11, p20, p21}) - {p10, p21, connfd}"
proof (cases "a_pipe1 a = None \<or> a_pipe2 a = None \<or> a_fork a = None")
  case True
  then have "\<exists>s'. create_child_and_exec_with_idx_clientfd a i connfd s = Some (-9, s') \<and> same_table s s' \<and> sent s' = sent s"
    by (auto simp: create_child_and_exec_with_idx_clientfd_def Let_def same_table_def split: option.splits)
  then show thesis using fail True by blast
next
  case False
  then obtain p10 p11 p20 p21 pid where e: "a_pipe1 a = Some (p10, p11)" "a_pipe2 a = Some (p20, p21)" "a_fork a = Some pid" by auto
  let ?s = "upd_client i ((clients_t s ! i)\<lparr>cl_pid := pid, pfd_r := p20, pfd_w := p11\<rparr>)
    (close_fd connfd (close_fd p21 (close_fd p10 (opened {p20, p21} (opened {p10, p11} s)))))"
  let ?t = "if a_epoll_ctl a then ?s\<lparr>watched := insert p20 (watched ?s)\<rparr> else ?s"
  have "create_child_and_exec_with_idx_clientfd a i connfd s = Some (0, ?t)"
    using assms e by (simp add: create_child_and_exec_with_idx_clientfd_def Let_def)
  then show thesis by (rule forked [OF _ e]) auto
qed

text \<open>A slot as a new connection leaves it before the child is created.\<close>

definition taken :: "answers \<Rightarrow> int \<Rightarrow> client_st" where
  "taken a connfd = empty_client\<lparr>used_slot := True, cl_fd := connfd, sid := snprintf_s 512 (a_scid a), ip := snprintf_s 92 (a_ip a),
     port := snprintf_s 20 (a_port a), ip_hex := a_hex a\<rparr>"

lemma taken_simps [simp]: "used_slot (taken a f)" "pfd_r (taken a f) = -1" "cl_fd (taken a f) = f"
  by (simp_all add: taken_def empty_client_def)

lemma new_connection_cases:
  assumes "table_ok s" "f = accept_loop (a_accept a) 0"
  obtains (refused) s' where "new_connection a s = Some s'" "same_table s s'" "sent s' = sent s @ [(f, ''system error'' @ [LF])]"
      "\<And>j. int j < max_connect s \<Longrightarrow> in_use s j"
  | (failed) i s' where "new_connection a s = Some s'" "int i < max_connect s" "\<not> in_use s i" "\<And>j. j < i \<Longrightarrow> in_use s j"
      "clients_t s' = (clients_t s)[i := taken a f]" "max_connect s' = max_connect s" "listen_socks s' = listen_socks s"
      "a_pipe1 a = None \<or> a_pipe2 a = None \<or> a_fork a = None"
  | (served) i p10 p11 p20 p21 pid s' where "new_connection a s = Some s'" "int i < max_connect s" "\<not> in_use s i" "\<And>j. j < i \<Longrightarrow> in_use s j"
      "a_pipe1 a = Some (p10, p11)" "a_pipe2 a = Some (p20, p21)" "a_fork a = Some pid"
      "clients_t s' = (clients_t s)[i := (taken a f)\<lparr>cl_pid := pid, pfd_r := p20, pfd_w := p11\<rparr>]"
      "max_connect s' = max_connect s" "listen_socks s' = listen_socks s" "sent s' = sent s" "epoll_num_running s' = epoll_num_running s + 1"
      "open_fds s' = (open_fds s \<union> (if f = -1 then {} else {f}) \<union> {p10, p11, p20, p21}) - {p10, p21, f}"
proof -
  let ?s0 = "if f = -1 then s else opened {f} s"
  have s0: "table_ok ?s0" "clients_t ?s0 = clients_t s" "max_connect ?s0 = max_connect s" "in_use ?s0 = in_use s" "sent ?s0 = sent s"
    "listen_socks ?s0 = listen_socks s" "epoll_num_running ?s0 = epoll_num_running s"
    using assms(1) by (auto simp: table_ok_def in_use_def fun_eq_iff)
  show thesis using s0(1)
  proof (cases rule: get_idle_cases)
    case full
    have "new_connection a s = Some (close_fd f (say f (''system error'' @ [LF]) ?s0))"
      using full(1) unfolding new_connection_def Let_def assms(2) [symmetric] by (simp add: admit_def)
    then show thesis by (rule refused) (use full(2) s0 in \<open>simp_all add: same_table_def\<close>)
  next
    case (idle i)
    have i: "i < length (clients_t s)" using table_index [OF assms(1)] idle(2) s0(3) by simp
    then have c: "rd (clients_t ?s0) i = Some empty_client"
      using idle(3) assms(1) s0(2,4) by (auto simp: in_use_def table_ok_def)
    have nc: "new_connection a s = admit a f ?s0" using assms(2) by (simp add: new_connection_def Let_def)
    let ?s1 = "upd_client i (taken a f) ?s0"
    have i1: "i < length (clients_t ?s1)" using i s0(2) by simp
    show thesis using i1
    proof (cases rule: create_child_cases [where a = a and connfd = f])
      case (fail s2)
      have "new_connection a s = Some (close_fd f (say f (''Server Temporarily Error, Please Try Again Later'' @ [LF]) s2))"
        using idle(1) c fail(1) nc by (simp add: admit_def Let_def taken_def)
      then show thesis by (rule failed [of _ i]) (use idle s0 fail in \<open>auto simp: same_table_def\<close>)
    next
      case (forked p10 p11 p20 p21 pid s2)
      have "new_connection a s = Some (s2\<lparr>epoll_num_running := epoll_num_running s2 + 1\<rparr>)"
        using idle(1) c forked(1) nc by (simp add: admit_def Let_def taken_def)
      then show thesis by (rule served [of _ i p10 p11 p20 p21 pid]) (use idle s0 forked i in auto)
    qed
  qed
qed

lemma child_hangup_cases:
  assumes "table_ok s"
  obtains (unknown) s' where "child_hangup fd s = Some s'" "same_table s s'" "\<And>j. int j < max_connect s \<Longrightarrow> \<not> (in_use s j \<and> pfd_r (clients_t s ! j) = fd)"
  | (freed) k s' where "child_hangup fd s = Some s'" "int k < max_connect s" "in_use s k" "pfd_r (clients_t s ! k) = fd"
      "\<And>j. j < k \<Longrightarrow> \<not> (in_use s j \<and> pfd_r (clients_t s ! j) = fd)"
      "clients_t s' = (clients_t s)[k := empty_client]" "max_connect s' = max_connect s" "listen_socks s' = listen_socks s" "sent s' = sent s"
      "open_fds s' \<subseteq> open_fds s - {fd}" "cl_fd (clients_t s ! k) = g \<Longrightarrow> g \<noteq> -1 \<Longrightarrow> g \<notin> open_fds s'"
  using assms
proof (cases rule: get_idx_cases [where fd = fd])
  case none
  have "child_hangup fd s = Some ((close_fd fd s)\<lparr>epoll_num_running := epoll_num_running (close_fd fd s) - 1\<rparr>)"
    using none(1) by (simp add: child_hangup_def Let_def)
  then show thesis by (rule unknown) (use none(2) in \<open>auto simp: same_table_def\<close>)
next
  case (found k)
  have "rd (clients_t s) k = Some (clients_t s ! k)" using table_index [OF assms found(2)] by simp
  let ?c = "clients_t s ! k"
  let ?s = "upd_client k empty_client (close_if (pfd_w ?c) (close_if (pfd_r ?c) (close_if (cl_fd ?c) s)))"
  have "child_hangup fd s = Some ((close_fd fd ?s)\<lparr>epoll_num_running := epoll_num_running (close_fd fd ?s) - 1\<rparr>)"
    using found(1) \<open>rd (clients_t s) k = Some ?c\<close> by (simp add: child_hangup_def clean_client_with_idx_def Let_def)
  then show thesis by (rule freed [OF _ found(2-5)]) auto
qed

section \<open>Events and reachable states\<close>

lemma blocked_simps [simp]:
  "table_ok (s\<lparr>chld_blocked := b\<rparr>) = table_ok s" "in_use (s\<lparr>chld_blocked := b\<rparr>) = in_use s"
  "which_is_listen fd (s\<lparr>chld_blocked := b\<rparr>) = which_is_listen fd s"
  by (simp_all add: table_ok_def in_use_def fun_eq_iff which_is_listen_def)

text \<open>What an event may do to the table: nothing, occupy a free slot, or clear the slot whose pipe
  reported.\<close>

definition table_step :: "int \<Rightarrow> server \<Rightarrow> server \<Rightarrow> bool" where
  "table_step fd s s' \<longleftrightarrow> max_connect s' = max_connect s \<and> listen_socks s' = listen_socks s \<and>
    (clients_t s' = clients_t s \<or>
     (\<exists>i c. int i < max_connect s \<and> \<not> in_use s i \<and> used_slot c \<and> clients_t s' = (clients_t s)[i := c]) \<or>
     (\<exists>k. int k < max_connect s \<and> in_use s k \<and> pfd_r (clients_t s ! k) = fd \<and> clients_t s' = (clients_t s)[k := empty_client]))"

lemma new_connection_step:
  assumes "table_ok s"
  shows "\<exists>s'. new_connection a s = Some s' \<and> table_step fd s s'"
  using assms refl
proof (cases rule: new_connection_cases [where a = a])
  case (refused s')
  then show ?thesis by (auto simp: table_step_def same_table_def)
next
  case (failed i s')
  then have "table_step fd s s'" unfolding table_step_def
    by (intro conjI disjI2 disjI1 exI [of _ i] exI [of _ "taken a (accept_loop (a_accept a) 0)"]) simp_all
  then show ?thesis using failed(1) by blast
next
  case (served i p10 p11 p20 p21 pid s')
  then have "table_step fd s s'" unfolding table_step_def
    by (intro conjI disjI2 disjI1 exI [of _ i] exI [of _ "(taken a (accept_loop (a_accept a) 0))\<lparr>cl_pid := pid, pfd_r := p20, pfd_w := p11\<rparr>"]) simp_all
  then show ?thesis using served(1) by blast
qed

lemma child_hangup_step:
  assumes "table_ok s"
  shows "\<exists>s'. child_hangup fd s = Some s' \<and> table_step fd s s'"
  using assms
proof (cases rule: child_hangup_cases [where fd = fd and g = 0])
  case (unknown s')
  then show ?thesis by (auto simp: table_step_def same_table_def)
next
  case (freed k s')
  then have "table_step fd s s'" unfolding table_step_def by (intro conjI disjI2 exI [of _ k]) simp_all
  then show ?thesis using freed(1) by blast
qed

lemma table_step_blocked: "table_step fd (s\<lparr>chld_blocked := b\<rparr>) s' \<Longrightarrow> table_step fd s (s'\<lparr>chld_blocked := c\<rparr>)"
  by (simp add: table_step_def)

lemma handle_event_step:
  assumes "table_ok s"
  shows "\<exists>s'. handle_event a e s = Some s' \<and> table_step (evt_fd e) s s'"
proof -
  let ?s = "s\<lparr>chld_blocked := True\<rparr>"
  have ok: "table_ok ?s" using assms by simp
  obtain s1 where s1: "new_connection a ?s = Some s1" "table_step (evt_fd e) s (s1\<lparr>chld_blocked := False\<rparr>)"
    using new_connection_step [OF ok, of a "evt_fd e"] table_step_blocked by blast
  obtain s2 where s2: "child_hangup (evt_fd e) ?s = Some s2" "table_step (evt_fd e) s (s2\<lparr>chld_blocked := False\<rparr>)"
    using child_hangup_step [OF ok, of "evt_fd e"] table_step_blocked by blast
  have "get_idx_with_sockfd (evt_fd e) ?s \<noteq> None" by (rule get_idx_cases [OF ok, of "evt_fd e"]) auto
  then obtain r where r: "get_idx_with_sockfd (evt_fd e) ?s = Some r" by auto
  have same: "table_step (evt_fd e) s (s\<lparr>chld_blocked := b\<rparr>)" "table_step (evt_fd e) s (close_fd (evt_fd e) (s\<lparr>chld_blocked := b\<rparr>))" for b
    by (simp_all add: table_step_def)
  show ?thesis using s1 s2 r same by (auto simp: handle_event_def Let_def)
qed

lemma table_step_ok: "table_ok s \<Longrightarrow> table_step fd s s' \<Longrightarrow> table_ok s'"
  unfolding table_step_def by (auto simp: table_ok_def dest!: set_update_subset_insert [THEN subsetD])

lemma init_loop_ok:
  "n \<le> length (clients_t s) \<Longrightarrow> \<exists>s'. init_loop n s = Some s' \<and> length (clients_t s') = length (clients_t s) \<and>
    (\<forall>i < n. clients_t s' ! i = empty_client) \<and> max_connect s' = max_connect s \<and> listen_socks s' = listen_socks s \<and> open_fds s' = open_fds s"
proof (induction n)
  case (Suc n)
  then obtain s1 where "init_loop n s = Some s1" "length (clients_t s1) = length (clients_t s)" "\<forall>i < n. clients_t s1 ! i = empty_client"
    "max_connect s1 = max_connect s" "listen_socks s1 = listen_socks s" "open_fds s1 = open_fds s" by auto
  then show ?case using Suc.prems by (auto simp: init_client_with_idx_def less_Suc_eq)
qed simp

lemma start_server_ok: "\<exists>s. start_server cfg junk socks fds = Some s \<and> table_ok s \<and> (\<forall>c \<in> set (clients_t s). c = empty_client)"
proof -
  let ?n = "nat (atoi (cmax_connect cfg) + 1)"
  let ?s = "\<lparr>clients_t = map junk [0..<?n], max_connect = atoi (cmax_connect cfg), listen_socks = socks,
    epoll_num_running = 0, open_fds = fds \<union> set socks, watched = set socks, sent = [], chld_blocked = False\<rparr>"
  obtain s' where s': "init_loop ?n ?s = Some s'" "length (clients_t s') = ?n" "\<forall>i < ?n. clients_t s' ! i = empty_client"
    "max_connect s' = atoi (cmax_connect cfg)" using init_loop_ok [of ?n ?s] by auto
  then have "\<forall>c \<in> set (clients_t s'). c = empty_client" by (metis in_set_conv_nth)
  then show ?thesis using s' by (auto simp: start_server_def Let_def table_ok_def)
qed

inductive_cases server_stepE: "server_step s s'"

lemma server_step_table:
  assumes "table_ok s" "server_step s s'"
  obtains fd where "0 \<le> fd" "table_step fd s s'" "table_ok s'"
proof -
  obtain a e where e: "0 \<le> evt_fd e" "handle_event a e s = Some s'" using assms(2) by (rule server_stepE)
  then have "table_step (evt_fd e) s s'" using handle_event_step [OF assms(1), of a e] by auto
  then show thesis using that e(1) table_step_ok [OF assms(1)] by blast
qed

lemma server_reach_table: "server_reach s \<Longrightarrow> table_ok s"
proof (induction rule: server_reach.induct)
  case (start cfg junk socks fds s)
  then show ?case using start_server_ok [of cfg junk socks fds] by auto
next
  case (step s s')
  then show ?case using server_step_table by blast
qed

section \<open>Properties\<close>

text \<open>C21: the server starts with every setting and in every reachable state, whatever events arrive and
  whatever the kernel answers, the table keeps its \<open>max_connect + 1\<close> slots, every slot that is not
  used is blank, and the next event is handled without an access outside the table.\<close>

theorem server_invariant:
  shows "(\<exists>s0. start_server cfg junk socks fds = Some s0) \<and>
    (server_reach s \<longrightarrow> length (clients_t s) = nat (max_connect s + 1) \<and>
      (\<forall>c \<in> set (clients_t s). used_slot c \<or> c = empty_client) \<and> (\<exists>s'. handle_event a e s = Some s'))"
  using start_server_ok [of cfg junk socks fds] server_reach_table [of s] handle_event_step [of s a e]
  by (auto simp: table_ok_def)

text \<open>A slot that is used but has no pipe.\<close>

definition leaked :: "nat \<Rightarrow> server \<Rightarrow> bool" where
  "leaked i s \<longleftrightarrow> int i < max_connect s \<and> in_use s i \<and> pfd_r (clients_t s ! i) = -1"

lemma leaked_step:
  assumes "table_step fd s s'" "0 \<le> fd" "leaked i s"
  shows "leaked i s'"
proof -
  have "clients_t s' ! i = clients_t s ! i"
  proof (cases "clients_t s' = clients_t s")
    case False
    then obtain k c where k: "clients_t s' = (clients_t s)[k := c]" "\<not> in_use s k \<or> pfd_r (clients_t s ! k) = fd"
      using assms(1) by (auto simp: table_step_def)
    then have "k \<noteq> i" using assms(2,3) by (auto simp: leaked_def)
    then show ?thesis using k(1) by simp
  qed simp
  then show ?thesis using assms(1,3) by (simp add: leaked_def in_use_def table_step_def)
qed

lemma leaked_forever:
  assumes "server_step\<^sup>*\<^sup>* s s'" "table_ok s" "leaked i s"
  shows "leaked i s' \<and> table_ok s'"
  using assms
proof (induction rule: rtranclp_induct)
  case (step s1 s2)
  then show ?case using server_step_table [of s1 s2] leaked_step by metis
qed simp

text \<open>When a pipe or the fork fails, the slot taken for the connection stays in use: it has no pipe
  that could report, so no later event, however the server goes on, frees it.\<close>

theorem server_slot_leak:
  assumes "server_reach s" "which_is_listen (evt_fd e) s \<noteq> -1" "EPOLLIN e" "\<not> EPOLLERR e"
    and "a_pipe1 a = None \<or> a_pipe2 a = None \<or> a_fork a = None" "int j < max_connect s" "\<not> in_use s j"
  shows "\<exists>i s1. handle_event a e s = Some s1 \<and> \<not> in_use s i \<and>
    (\<forall>s2. server_step\<^sup>*\<^sup>* s1 s2 \<longrightarrow> in_use s2 i \<and> pfd_r (clients_t s2 ! i) = -1)"
proof -
  let ?s = "s\<lparr>chld_blocked := True\<rparr>"
  have ok: "table_ok s" "table_ok ?s" using server_reach_table [OF assms(1)] by simp_all
  show ?thesis
    using ok(2) refl
  proof (cases rule: new_connection_cases [where a = a])
    case (refused s')
    then show ?thesis using assms(6,7) by auto
  next
    case (failed i s')
    let ?s1 = "s'\<lparr>chld_blocked := False\<rparr>"
    have h: "handle_event a e s = Some ?s1" using assms(2-4) failed(1) by (simp add: handle_event_def Let_def)
    then have "table_step (evt_fd e) s ?s1" using handle_event_step [OF ok(1), of a e] by auto
    then have "table_ok ?s1" by (rule table_step_ok [OF ok(1)])
    moreover have "leaked i ?s1" using failed(2,5,6) table_index [OF ok(1)] by (simp add: leaked_def in_use_def)
    ultimately show ?thesis using leaked_forever [of ?s1 _ i] h failed(3) unfolding leaked_def by (intro exI [of _ i] exI [of _ ?s1]) auto
  next
    case (served i p10 p11 p20 p21 pid s')
    then show ?thesis using assms(5) by auto
  qed
qed

text \<open>What the kernel answers when everything works.\<close>

definition served_by :: "answers \<Rightarrow> int \<Rightarrow> int \<times> int \<Rightarrow> int \<times> int \<Rightarrow> int \<Rightarrow> bool" where
  "served_by a f p q pid \<longleftrightarrow> accept_loop (a_accept a) 0 = f \<and> f \<noteq> -1 \<and> a_pipe1 a = Some p \<and> a_pipe2 a = Some q \<and> a_fork a = Some pid"

lemma serve_event:
  assumes "table_ok s" "which_is_listen (evt_fd e) s \<noteq> -1" "EPOLLIN e" "\<not> EPOLLERR e"
    and "served_by a f p q pid" "int j < max_connect s" "\<not> in_use s j"
  obtains i s' where "handle_event a e s = Some s'" "\<not> in_use s i" "\<And>k. k < i \<Longrightarrow> in_use s k" "i \<le> j"
    "clients_t s' = (clients_t s)[i := (taken a f)\<lparr>cl_pid := pid, pfd_r := fst q, pfd_w := snd p\<rparr>]" "sent s' = sent s"
    "max_connect s' = max_connect s" "listen_socks s' = listen_socks s" "epoll_num_running s' = epoll_num_running s + 1" "\<not> chld_blocked s'"
    "open_fds s' = (open_fds s \<union> {f, fst p, snd p, fst q, snd q}) - {fst p, snd q, f}"
proof -
  let ?s = "s\<lparr>chld_blocked := True\<rparr>"
  have ok: "table_ok ?s" using assms(1) by simp
  have f: "f = accept_loop (a_accept a) 0" using assms(5) by (simp add: served_by_def)
  show thesis
    using ok f
  proof (cases rule: new_connection_cases)
    case (refused s')
    then show ?thesis using assms(6,7) by auto
  next
    case (failed i s')
    then show ?thesis using assms(5) by (auto simp: served_by_def)
  next
    case (served i p10 p11 p20 p21 pid' s')
    have h: "handle_event a e s = Some (s'\<lparr>chld_blocked := False\<rparr>)" using assms(2-4) served(1) by (simp add: handle_event_def Let_def)
    have "i \<le> j" using served(4) [of j] assms(7) by (cases "i \<le> j") auto
    moreover have pq: "p = (p10, p11)" "q = (p20, p21)" "f \<noteq> -1" using assms(5) served(5,6) by (simp_all add: served_by_def)
    moreover from pq have "open_fds s' = (open_fds s \<union> {f, fst p, snd p, fst q, snd q}) - {fst p, snd q, f}"
      unfolding served(13) by auto
    ultimately show ?thesis
      by (intro that [OF h, of i]) (use served(3-12) assms(5) in \<open>simp_all add: served_by_def\<close>)
  qed
qed

text \<open>C22: a connection is served whenever a slot is free: the first free slot gets the descriptors of the
  connection and of the child's pipes, the other slots stay as they are, nothing is sent to the
  client, and of the descriptors opened for it exactly the parent's two pipe ends stay open.\<close>

theorem server_serves:
  assumes "server_reach s" "kernel_ok a s" "which_is_listen (evt_fd e) s \<noteq> -1" "EPOLLIN e" "\<not> EPOLLERR e"
    and "served_by a f (p10, p11) (p20, p21) pid" "int j < max_connect s" "\<not> in_use s j"
  shows "\<exists>i s'. handle_event a e s = Some s' \<and> \<not> in_use s i \<and> (\<forall>k < i. in_use s k) \<and>
    clients_t s' = (clients_t s)[i := \<lparr>used_slot = True, cl_pid = pid, cl_fd = f, ip = take 91 (a_ip a), port = take 19 (a_port a),
      sid = take 511 (a_scid a), ip_hex = a_hex a, pfd_r = p20, pfd_w = p11\<rparr>] \<and>
    sent s' = sent s \<and> epoll_num_running s' = epoll_num_running s + 1 \<and> open_fds s' = open_fds s \<union> {p20, p11}"
proof -
  obtain i s' where "handle_event a e s = Some s'" "\<not> in_use s i" "\<And>k. k < i \<Longrightarrow> in_use s k"
    "clients_t s' = (clients_t s)[i := (taken a f)\<lparr>cl_pid := pid, pfd_r := p20, pfd_w := p11\<rparr>]" "sent s' = sent s"
    "epoll_num_running s' = epoll_num_running s + 1" and fds: "open_fds s' = (open_fds s \<union> {f, p10, p11, p20, p21}) - {p10, p21, f}"
    by (rule serve_event [OF server_reach_table [OF assms(1)] assms(3-8)]) simp
  moreover have "(open_fds s \<union> {f, p10, p11, p20, p21}) - {p10, p21, f} = open_fds s \<union> {p20, p11}"
    using assms(2,6) by (auto simp: kernel_ok_def served_by_def Let_def)
  ultimately show ?thesis by (intro exI [of _ i] exI [of _ s']) (simp add: taken_def empty_client_def snprintf_s_def)
qed

text \<open>C23: a full server recovers: when the pipe of a child hangs up its slot is cleared, and the next
  connection the kernel can serve is not turned away.\<close>

theorem server_recovers:
  assumes "server_reach s" "int k < max_connect s" "in_use s k" "pfd_r (clients_t s ! k) = r" "0 \<le> r" "which_is_listen r s = -1"
    and "which_is_listen l s \<noteq> -1" "served_by a f p q pid"
  shows "\<exists>i s1 s2. handle_event a0 \<lparr>evt_fd = r, EPOLLERR = False, EPOLLIN = False, EPOLLHUP = True\<rparr> s = Some s1 \<and>
    i \<le> k \<and> clients_t s1 = (clients_t s)[i := empty_client] \<and> pfd_r (clients_t s ! i) = r \<and>
    handle_event a \<lparr>evt_fd = l, EPOLLERR = False, EPOLLIN = True, EPOLLHUP = h\<rparr> s1 = Some s2 \<and> sent s2 = sent s \<and>
    (\<exists>j. in_use s2 j \<and> cl_fd (clients_t s2 ! j) = f \<and> cl_pid (clients_t s2 ! j) = pid)"
proof -
  let ?s = "s\<lparr>chld_blocked := True\<rparr>" let ?e = "\<lparr>evt_fd = l, EPOLLERR = False, EPOLLIN = True, EPOLLHUP = h\<rparr>"
  have ok: "table_ok s" "table_ok ?s" using server_reach_table [OF assms(1)] by simp_all
  show ?thesis
    using ok(2)
  proof (cases rule: child_hangup_cases [where fd = r and g = 0])
    case (unknown s')
    then show ?thesis using assms(2-4) by auto
  next
    case (freed i s')
    let ?s1 = "s'\<lparr>chld_blocked := False\<rparr>"
    have h1: "handle_event a0 \<lparr>evt_fd = r, EPOLLERR = False, EPOLLIN = False, EPOLLHUP = True\<rparr> s = Some ?s1"
      using freed(1) assms(6) by (simp add: handle_event_def Let_def)
    have i: "i \<le> k" using freed(5) [of k] assms(3,4) by (cases "i \<le> k") auto
    have "table_step r s ?s1"
      using handle_event_step [OF ok(1), of a0 "\<lparr>evt_fd = r, EPOLLERR = False, EPOLLIN = False, EPOLLHUP = True\<rparr>"] h1 by simp
    then have ok1: "table_ok ?s1" by (rule table_step_ok [OF ok(1)])
    have idle: "int i < max_connect ?s1" "\<not> in_use ?s1 i"
      using freed(2,6,7) table_index [OF ok(1), of i] by (simp_all add: in_use_def empty_client_def)
    have "which_is_listen (evt_fd ?e) ?s1 \<noteq> -1" using assms(7) freed(8) by (simp add: which_is_listen_def)
    then obtain j s2 where s2: "handle_event a ?e ?s1 = Some s2" "\<not> in_use ?s1 j" "j \<le> i"
      "clients_t s2 = (clients_t ?s1)[j := (taken a f)\<lparr>cl_pid := pid, pfd_r := fst q, pfd_w := snd p\<rparr>]" "sent s2 = sent ?s1"
      by (rule serve_event [OF ok1 _ _ _ assms(8) idle, where e = ?e]) simp_all
    have "j < length (clients_t ?s1)" using s2(3) idle(1) table_index [OF ok1, of i] by simp
    then show ?thesis using h1 i freed(4,6,9) s2
      by (intro exI [of _ i] exI [of _ ?s1] exI [of _ s2]) (auto simp: in_use_def intro!: exI [of _ j])
  qed
qed

text \<open>The hang-up of a child closes the number its slot holds for the connection, whoever owns it now.\<close>

lemma stale_hangup:
  assumes "table_ok s" "which_is_listen r s = -1" "int i < max_connect s" "in_use s i" "cl_fd (clients_t s ! i) = f" "f \<noteq> -1"
    "pfd_r (clients_t s ! i) = r" "\<And>k. k < length (clients_t s) \<Longrightarrow> k \<noteq> i \<Longrightarrow> pfd_r (clients_t s ! k) \<noteq> r"
  shows "\<exists>s'. handle_event a \<lparr>evt_fd = r, EPOLLERR = False, EPOLLIN = False, EPOLLHUP = True\<rparr> s = Some s' \<and> f \<notin> open_fds s' \<and>
    (\<forall>j. j \<noteq> i \<longrightarrow> clients_t s' ! j = clients_t s ! j)"
proof -
  let ?s = "s\<lparr>chld_blocked := True\<rparr>"
  have ok: "table_ok ?s" using assms(1) by simp
  show ?thesis
    using ok
  proof (cases rule: child_hangup_cases [where fd = r and g = f])
    case (unknown s')
    then show ?thesis using unknown(3) [of i] assms(3,4,7) by simp
  next
    case (freed k s')
    then have k: "k = i" using assms(8) [of k] table_index [OF assms(1), of k] by auto
    have "handle_event a \<lparr>evt_fd = r, EPOLLERR = False, EPOLLIN = False, EPOLLHUP = True\<rparr> s = Some (s'\<lparr>chld_blocked := False\<rparr>)"
      using freed(1) assms(2) by (simp add: handle_event_def Let_def)
    then show ?thesis using freed(6,11) k assms(5,6) by simp
  qed
qed

text \<open>The parent closes its copy of a connection after the fork but keeps the number in the slot. The
  kernel may hand the number out again, say for the pipe of the next child; when the first child
  exits, \<open>clean_client_with_idx\<close> closes it, and the second child's pipe is lost while its slot
  stays in use.\<close>

theorem server_stale_close:
  assumes "server_reach s" "which_is_listen l s \<noteq> -1" "which_is_listen r s = -1"
    and "i0 < j0" "int j0 < max_connect s" "\<not> in_use s i0" "\<not> in_use s j0" "\<forall>c \<in> set (clients_t s). pfd_r c \<noteq> r"
    and "served_by a1 f p1 (r, w1) pid1" "served_by a2 g p2 (f, w2) pid2" "distinct [f, g, fst p2, snd p2, w2]" "r \<noteq> f" "0 \<le> r"
  shows "\<exists>s1 s2 s3 j. handle_event a1 \<lparr>evt_fd = l, EPOLLERR = False, EPOLLIN = True, EPOLLHUP = False\<rparr> s = Some s1 \<and> f \<notin> open_fds s1 \<and>
    handle_event a2 \<lparr>evt_fd = l, EPOLLERR = False, EPOLLIN = True, EPOLLHUP = False\<rparr> s1 = Some s2 \<and> f \<in> open_fds s2 \<and>
    handle_event a3 \<lparr>evt_fd = r, EPOLLERR = False, EPOLLIN = False, EPOLLHUP = True\<rparr> s2 = Some s3 \<and>
    in_use s3 j \<and> cl_pid (clients_t s3 ! j) = pid2 \<and> pfd_r (clients_t s3 ! j) = f \<and> f \<notin> open_fds s3"
proof -
  let ?e = "\<lparr>evt_fd = l, EPOLLERR = False, EPOLLIN = True, EPOLLHUP = False\<rparr>"
  have ok: "table_ok s" using server_reach_table [OF assms(1)] .
  have i0: "int i0 < max_connect s" using assms(4,5) by simp
  have ev: "which_is_listen (evt_fd ?e) s \<noteq> -1" "EPOLLIN ?e" "\<not> EPOLLERR ?e" using assms(2) by simp_all
  obtain i s1 where s1: "handle_event a1 ?e s = Some s1" "\<not> in_use s i" "i \<le> i0"
      "clients_t s1 = (clients_t s)[i := (taken a1 f)\<lparr>cl_pid := pid1, pfd_r := r, pfd_w := snd p1\<rparr>]"
      "max_connect s1 = max_connect s" "listen_socks s1 = listen_socks s" "f \<notin> open_fds s1"
    by (rule serve_event [OF ok ev assms(9) i0 assms(6)]) simp
  have i: "i < length (clients_t s)" using table_index [OF ok assms(5)] s1(3) assms(4) by simp
  have "table_step l s s1" using handle_event_step [OF ok, of a1 ?e] s1(1) by simp
  then have ok1: "table_ok s1" by (rule table_step_ok [OF ok])
  have u1: "in_use s1 k = (k = i \<or> in_use s k)" for k using s1(4) i by (simp add: in_use_def nth_list_update)
  have j0: "int j0 < max_connect s1" "\<not> in_use s1 j0" using assms(4,5,7) s1(3,5) u1 by auto
  have l1: "which_is_listen l s1 \<noteq> -1" "which_is_listen r s1 = -1" using assms(2,3) s1(6) by (simp_all add: which_is_listen_def)
  have ev1: "which_is_listen (evt_fd ?e) s1 \<noteq> -1" using l1(1) by simp
  obtain j s2 where s2: "handle_event a2 ?e s1 = Some s2" "\<not> in_use s1 j" "j \<le> j0"
      "clients_t s2 = (clients_t s1)[j := (taken a2 g)\<lparr>cl_pid := pid2, pfd_r := f, pfd_w := snd p2\<rparr>]"
      "max_connect s2 = max_connect s1" "listen_socks s2 = listen_socks s1"
      "open_fds s2 = (open_fds s1 \<union> {g, fst p2, snd p2, f, w2}) - {fst p2, w2, g}"
    by (rule serve_event [OF ok1 ev1 ev(2,3) assms(10) j0]) simp
  have ij: "i \<noteq> j" "j < length (clients_t s)" using s2(2,3) u1 table_index [OF ok assms(5)] by auto
  have "table_step l s1 s2" using handle_event_step [OF ok1, of a2 ?e] s2(1) by simp
  then have ok2: "table_ok s2" by (rule table_step_ok [OF ok1])
  have slots: "clients_t s2 ! i = (taken a1 f)\<lparr>cl_pid := pid1, pfd_r := r, pfd_w := snd p1\<rparr>"
    "clients_t s2 ! j = (taken a2 g)\<lparr>cl_pid := pid2, pfd_r := f, pfd_w := snd p2\<rparr>"
    "\<And>k. k \<noteq> i \<Longrightarrow> k \<noteq> j \<Longrightarrow> clients_t s2 ! k = clients_t s ! k" "length (clients_t s2) = length (clients_t s)"
    using s1(4) s2(4) i ij by simp_all
  have only: "pfd_r (clients_t s2 ! k) \<noteq> r" if "k < length (clients_t s2)" "k \<noteq> i" for k
    using that slots assms(8,12) by (cases "k = j") auto
  have "which_is_listen r s2 = -1" using l1(2) s2(6) by (simp add: which_is_listen_def)
  then obtain s3 where "handle_event a3 \<lparr>evt_fd = r, EPOLLERR = False, EPOLLIN = False, EPOLLHUP = True\<rparr> s2 = Some s3"
    "f \<notin> open_fds s3" "clients_t s3 ! j = clients_t s2 ! j"
    using stale_hangup [OF ok2 _ _ _ _ _ _ only, of i f a3] slots(1) s1(3,5) s2(5) assms(4,5,9) ij(1) by (auto simp: in_use_def served_by_def)
  moreover have "f \<in> open_fds s2" using s2(7) assms(11) by auto
  ultimately show ?thesis using s1(1,7) s2(1) slots(2)
    by (intro exI [of _ s1] exI [of _ s2] exI [of _ s3] exI [of _ j]) (simp add: in_use_def)
qed

section \<open>Examples\<close>

definition reply :: "int \<Rightarrow> int \<times> int \<Rightarrow> int \<times> int \<Rightarrow> int option \<Rightarrow> answers" where
  "reply f p q pid = \<lparr>a_accept = (\<lambda>_. Conn f), a_scid = ''A1'', a_ip = ''10.0.0.1'', a_port = ''4000'', a_hex = ''100000A'',
     a_pipe1 = Some p, a_pipe2 = Some q, a_fork = pid, a_epoll_ctl = True\<rparr>"

lemma reply_served: "f \<noteq> -1 \<Longrightarrow> served_by (reply f p q (Some pid)) f p q pid"
  by (simp add: served_by_def reply_def accept_loop.simps)

definition cfg2 :: config where
  "cfg2 = \<lparr>clog_level = ''8'', cport = ''3331'', cmax_connect = ''2'', cpidfile = [], child_exec = ''c'', crw_timeout = ''2''\<rparr>"

lemma atoi_2: "atoi ''2'' = 2"
  by (simp add: atoi_def isspace_def digits_of_def digit_val_def to_int_def)

lemma cfg2_server:
  obtains s where "server_reach s" "max_connect s = 2" "listen_socks s = [3]" "open_fds s = {0, 1, 2, 3}" "\<And>i. i < 3 \<Longrightarrow> clients_t s ! i = empty_client"
    "length (clients_t s) = 3"
proof -
  let ?s = "\<lparr>clients_t = map (\<lambda>_. empty_client) [0..<3], max_connect = 2, listen_socks = [3],
    epoll_num_running = 0, open_fds = {0, 1, 2} \<union> set [3], watched = set [3], sent = [], chld_blocked = False\<rparr>"
  have l: "length (clients_t ?s) = 3" by simp
  obtain s where s: "init_loop 3 ?s = Some s" "length (clients_t s) = length (clients_t ?s)" "\<forall>i < 3. clients_t s ! i = empty_client"
    "max_connect s = max_connect ?s" "listen_socks s = listen_socks ?s" "open_fds s = open_fds ?s"
    using init_loop_ok [of 3 ?s] l by (metis order_refl)
  have "start_server cfg2 (\<lambda>_. empty_client) [3] {0, 1, 2} = Some s"
    using s(1) by (simp add: start_server_def cfg2_def atoi_2)
  then show thesis using that [of s] s(2-6) server_reach.start by auto
qed

abbreviation listen_event :: event where
  "listen_event \<equiv> \<lparr>evt_fd = 3, EPOLLERR = False, EPOLLIN = True, EPOLLHUP = False\<rparr>"

lemma cfg2_facts:
  assumes "max_connect s = 2" "listen_socks s = [3]" "\<And>i. i < 3 \<Longrightarrow> clients_t s ! i = empty_client" "length (clients_t s) = 3"
  shows "\<And>i. i < 3 \<Longrightarrow> \<not> in_use s i" "which_is_listen 3 s \<noteq> -1" "r \<noteq> 3 \<Longrightarrow> which_is_listen r s = -1" "\<forall>c \<in> set (clients_t s). c = empty_client"
  using assms by (auto simp: in_use_def which_is_listen_def empty_client_def in_set_conv_nth)

theorem server_invariant_witness:
  "\<exists>s s'. server_reach s \<and> length (clients_t s) = 3 \<and> handle_event (reply 4 (5, 6) (7, 8) (Some 99)) listen_event s = Some s'"
proof -
  obtain s where "server_reach s" "max_connect s = 2" by (rule cfg2_server)
  then show ?thesis
    using server_invariant [of cfg2 "\<lambda>_. empty_client" "[3]" "{}" s "reply 4 (5, 6) (7, 8) (Some 99)" listen_event] by auto
qed

theorem server_slot_leak_witness:
  "\<exists>s i s1. server_reach s \<and> handle_event (reply 4 (5, 6) (7, 8) None) listen_event s = Some s1 \<and>
    (\<forall>s2. server_step\<^sup>*\<^sup>* s1 s2 \<longrightarrow> in_use s2 i)"
proof -
  obtain s where s: "server_reach s" "max_connect s = 2" "listen_socks s = [3]" "\<And>i. i < 3 \<Longrightarrow> clients_t s ! i = empty_client" "length (clients_t s) = 3"
    by (rule cfg2_server) blast
  have f: "a_fork (reply 4 (5, 6) (7, 8) None) = None" by (simp add: reply_def)
  obtain i s1 where "handle_event (reply 4 (5, 6) (7, 8) None) listen_event s = Some s1"
    "\<forall>s2. server_step\<^sup>*\<^sup>* s1 s2 \<longrightarrow> in_use s2 i \<and> pfd_r (clients_t s2 ! i) = -1"
    using server_slot_leak [OF s(1), of listen_event "reply 4 (5, 6) (7, 8) None" 0] cfg2_facts(1,2) [OF s(2-5)] s(2) f by auto
  then show ?thesis using s(1) by blast
qed

theorem server_serves_witness:
  "\<exists>s i s'. handle_event (reply 4 (5, 6) (7, 8) (Some 99)) listen_event s = Some s' \<and> cl_fd (clients_t s' ! i) = 4 \<and>
    open_fds s' = {0, 1, 2, 3, 6, 7}"
proof -
  obtain s where s: "server_reach s" "max_connect s = 2" "listen_socks s = [3]" "\<And>i. i < 3 \<Longrightarrow> clients_t s ! i = empty_client" "length (clients_t s) = 3"
    and fds: "open_fds s = {0, 1, 2, 3}" by (rule cfg2_server) blast
  let ?a = "reply 4 (5, 6) (7, 8) (Some 99)"
  note facts = cfg2_facts(1,2) [OF s(2-5)]
  have k: "kernel_ok ?a s" using fds by (simp add: kernel_ok_def reply_def accept_loop.simps)
  obtain i s' where r: "handle_event ?a listen_event s = Some s'" "\<forall>k < i. in_use s k"
    "clients_t s' = (clients_t s)[i := \<lparr>used_slot = True, cl_pid = 99, cl_fd = 4, ip = take 91 (a_ip ?a), port = take 19 (a_port ?a),
      sid = take 511 (a_scid ?a), ip_hex = a_hex ?a, pfd_r = 7, pfd_w = 6\<rparr>]" "open_fds s' = open_fds s \<union> {7, 6}"
    using server_serves [OF s(1) k _ _ _ reply_served, of listen_event 0] facts s(2) by auto
  have "i = 0" using r(2) facts(1) [of 0] by (cases i) auto
  then show ?thesis using r s(5) fds by (intro exI [of _ s] exI [of _ i] exI [of _ s']) auto
qed

theorem server_recovers_witness:
  "\<exists>s s1 s2. handle_event (reply 4 (5, 6) (7, 8) None) \<lparr>evt_fd = 7, EPOLLERR = False, EPOLLIN = False, EPOLLHUP = True\<rparr> s = Some s1 \<and>
    handle_event (reply 4 (5, 6) (7, 8) (Some 98)) listen_event s1 = Some s2 \<and> sent s2 = sent s"
proof -
  obtain s0 where s: "server_reach s0" "max_connect s0 = 2" "listen_socks s0 = [3]" "\<And>i. i < 3 \<Longrightarrow> clients_t s0 ! i = empty_client" "length (clients_t s0) = 3"
    and fds: "open_fds s0 = {0, 1, 2, 3}" by (rule cfg2_server) blast
  let ?a = "reply 4 (5, 6) (7, 8) (Some 99)"
  note facts = cfg2_facts [OF s(2-5)]
  have k: "kernel_ok ?a s0" using fds by (simp add: kernel_ok_def reply_def accept_loop.simps)
  have ev: "which_is_listen (evt_fd listen_event) s0 \<noteq> -1" "EPOLLIN listen_event" "\<not> EPOLLERR listen_event" using facts(2) by simp_all
  have sb: "served_by ?a 4 (5, 6) (7, 8) 99" by (rule reply_served) simp
  have idle: "int 0 < max_connect s0" "\<not> in_use s0 0" using s(2) facts(1) by simp_all
  obtain i s1 where r: "handle_event ?a listen_event s0 = Some s1" "i \<le> 0"
    "clients_t s1 = (clients_t s0)[i := (taken ?a 4)\<lparr>cl_pid := 99, pfd_r := 7, pfd_w := 6\<rparr>]"
    "max_connect s1 = max_connect s0" "listen_socks s1 = listen_socks s0"
    by (rule serve_event [OF server_reach_table [OF s(1)] ev sb idle]) simp
  have "server_step s0 s1" by (rule server_step.event [OF k _ r(1)]) simp
  then have "server_reach s1" by (rule server_reach.step [OF s(1)])
  moreover have "in_use s1 0" "pfd_r (clients_t s1 ! 0) = 7" using r(2,3) s(5) by (auto simp: in_use_def)
  moreover have "which_is_listen 7 s1 = -1" "which_is_listen 3 s1 \<noteq> -1" using facts(2,3) r(5) by (simp_all add: which_is_listen_def)
  ultimately show ?thesis
    using server_recovers [of s1 0 7 3 "reply 4 (5, 6) (7, 8) (Some 98)" 4 "(5, 6)" "(7, 8)" 98 "reply 4 (5, 6) (7, 8) None" False] reply_served [of 4] r(4) s(2)
    by auto
qed

theorem server_stale_close_witness:
  "\<exists>s s1 s2 s3 j. server_reach s \<and> handle_event (reply 4 (5, 6) (7, 8) (Some 99)) listen_event s = Some s1 \<and>
    handle_event (reply 5 (8, 9) (4, 10) (Some 98)) listen_event s1 = Some s2 \<and> 4 \<in> open_fds s2 \<and>
    handle_event (reply 11 (12, 13) (14, 15) None) \<lparr>evt_fd = 7, EPOLLERR = False, EPOLLIN = False, EPOLLHUP = True\<rparr> s2 = Some s3 \<and>
    in_use s3 j \<and> pfd_r (clients_t s3 ! j) = 4 \<and> 4 \<notin> open_fds s3"
proof -
  obtain s where s: "server_reach s" "max_connect s = 2" "listen_socks s = [3]" "\<And>i. i < 3 \<Longrightarrow> clients_t s ! i = empty_client" "length (clients_t s) = 3"
    by (rule cfg2_server) blast
  note facts = cfg2_facts [OF s(2-5)]
  have "\<forall>c \<in> set (clients_t s). pfd_r c \<noteq> 7" using facts(4) by (auto simp: empty_client_def)
  then obtain s1 s2 s3 j where "handle_event (reply 4 (5, 6) (7, 8) (Some 99)) listen_event s = Some s1"
    "handle_event (reply 5 (8, 9) (4, 10) (Some 98)) listen_event s1 = Some s2" "4 \<in> open_fds s2"
    "handle_event (reply 11 (12, 13) (14, 15) None) \<lparr>evt_fd = 7, EPOLLERR = False, EPOLLIN = False, EPOLLHUP = True\<rparr> s2 = Some s3"
    "in_use s3 j" "pfd_r (clients_t s3 ! j) = 4" "4 \<notin> open_fds s3"
    using server_stale_close [OF s(1) facts(2), of 7 0 1 "reply 4 (5, 6) (7, 8) (Some 99)" 4 "(5, 6)" 8 99
      "reply 5 (8, 9) (4, 10) (Some 98)" 5 "(8, 9)" 10 98 "reply 11 (12, 13) (14, 15) None"]
      facts(1,3) reply_served [of 4] reply_served [of 5] s(2) by auto
  then show ?thesis using s(1) by blast
qed

section \<open>The child and the settings\<close>

text \<open>With descriptors above 2 the child ends up with the read end of the first pipe as 0, the write end
  of the second as 1 and the connection as 2, and nothing else of what the parent opened.\<close>

lemma child_fds_correct:
  assumes "distinct [l, p10, p11, p20, p21, c]" "\<forall>x \<in> {l, p10, p11, p20, p21, c}. 2 < x"
    "t p10 = Some A" "t p21 = Some B" "t c = Some C"
  shows "\<exists>t'. child_fds l (p10, p11) (p20, p21) c t = Some t' \<and> t' 0 = Some A \<and> t' 1 = Some B \<and> t' 2 = Some C \<and>
    (\<forall>x \<in> {l, p10, p11, p20, p21, c}. t' x = None)"
  using assms by (auto simp: child_fds_def fd_move_def fd_copy_def Let_def)

lemma exec_log_fits:
  "len + sum_list (map (\<lambda>a. length a + 1) as) < 3 * MAXLINE \<Longrightarrow> exec_log_loop len as out = Some (out @ concat (map (\<lambda>a. a @ '' '') as))"
  by (induction as arbitrary: len out) (auto simp: snprintf_s_def)

text \<open>The buffer for the command line in the log is large enough for every slot and configuration.\<close>

lemma exec_log_safe:
  assumes "length (child_exec cfg) < MAXLINE" "length (sid c) < 512" "length (ip c) < 92" "length (port c) < 20"
  shows "exec_log_loop 0 (child_args cfg cfg_ini c) [] = Some (concat (map (\<lambda>a. a @ '' '') (child_args cfg cfg_ini c)))"
proof -
  have "0 + sum_list (map (\<lambda>a. length a + 1) (child_args cfg cfg_ini c)) < 3 * MAXLINE"
    using assms by (auto simp: child_args_def snprintf_s_def MAXLINE_def min_def)
  from exec_log_fits [OF this, of "[]"] show ?thesis by simp
qed

definition setting_of :: "(string \<Rightarrow> string option option) \<Rightarrow> string \<Rightarrow> string \<Rightarrow> nat \<Rightarrow> string" where
  "setting_of b key def sz = take (sz - 1) (case b key of Some (Some v) \<Rightarrow> v | _ \<Rightarrow> def)"

lemma setting_spec: "dict_wf d \<Longrightarrow> setting d key def sz = Some (setting_of (dict_abs d) key def sz)"
  by (auto simp: setting_def dictionary_get_spec setting_of_def ptr_of_def snprintf_s_def split: option.splits)

text \<open>Loading a text of sections and settings gives every variable its setting, or its default, cut to
  the variable's size.\<close>

lemma get_config_file_correct:
  assumes "good_doc [] is" "fmt = key_sprintf \<or> fmt = key_snprintf" "below \<noteq> BSL" "fs cfg_ini = Some (doc_text is)"
    and "b = updates Map.empty (doc_updates [] is)"
  shows "get_config_file (fmt, below, alloc_ok) fs cfg_ini cfg = Some (0,
    \<lparr>clog_level = setting_of b ''server:log_level'' DEF_LOG_LEVEL 128, cport = setting_of b ''server:bind_port'' DEF_PORT 128,
     cmax_connect = setting_of b ''server:max_connect'' DEF_MAX_WORKS 128, cpidfile = setting_of b ''server:pidfile'' DEF_PID_FILE MAXLINE,
     child_exec = setting_of b ''server:child_exec'' DEF_CHILD_EXEC MAXLINE, crw_timeout = setting_of b ''server:rw_timeout'' DEF_RW_TIMEOUT 128\<rparr>)"
proof -
  obtain d where "iniparser_load fmt below alloc_ok (Some (doc_text is)) = Some (Some d)" "dict_wf d" "dict_abs d = b"
    using open_doc(1) [OF assms(1-3)] assms(5) by blast
  then show ?thesis using assms(4) by (simp add: get_config_file_def open_conf_file_def setting_spec)
qed

end
