(* ===== verification/Ctserver_start.thy ===== *)
theory Ctserver_start
  imports Ctserver
begin

text \<open>
  Model of the start and the end of \<^verbatim>\<open>samples/ctproxy/ctserver.c\<close>: options, pid file, daemon, listening
  sockets and \<open>epoll\<close>, up to the event loop of \<open>Ctserver\<close>; \<open>server_exit\<close>, the handler of the termination
  signals; and \<open>sigchld_exit\<close>, the handler of \<open>SIGCHLD\<close>. The file system is a map from names to contents;
  what the kernel and the resolver answer is the parameter \<open>boot\<close>. The result is \<open>Inl\<close> an exit status or
  \<open>Inr\<close> a running server, together with the files; \<open>None\<close> is undefined behaviour. Messages on the
  terminal and in the log are left out.
\<close>

section \<open>The pid file\<close>

type_synonym files = "string \<Rightarrow> string option"

fun dec :: "nat \<Rightarrow> string" where
  "dec n = (if n < 10 then [char_of (48 + n)] else dec (n div 10) @ [char_of (48 + n mod 10)])"

record boot =
  b_pid :: nat
  b_pid_open :: bool
  b_pid_write :: nat

text \<open>Creating the file fails if it exists (\<open>O_EXCL\<close>). A short write leaves what was written.\<close>

definition create_pid_file :: "boot \<Rightarrow> string \<Rightarrow> files \<Rightarrow> (int + unit) \<times> files" where
  "create_pid_file b pidfile fs =
    (if pidfile = [] then (Inr (), fs)
     else if fs pidfile \<noteq> None \<or> \<not> b_pid_open b then (Inl 70, fs)
     else
       let pidbuf = snprintf_s 16 (dec (b_pid b) @ [LF]); n = min (b_pid_write b) (length pidbuf);
           fs' = fs(pidfile \<mapsto> take n pidbuf)
       in if n \<noteq> length pidbuf then (Inl 70, fs') else (Inr (), fs'))"

text \<open>\<open>server_exit\<close>: the pid file is removed, whoever wrote it.\<close>

definition server_exit :: "string \<Rightarrow> files \<Rightarrow> int \<times> files" where
  "server_exit pidfile fs = (1, fs(pidfile := None))"

text \<open>\<open>become_daemon\<close> from the point of view of the process that goes on: the child, when there is a fork,
  whose parent ends with status 0. Descriptors 0 to 2 stay open.\<close>

record daemon = boot +
  b_fork :: bool

definition become_daemon :: "daemon \<Rightarrow> bool \<Rightarrow> string \<Rightarrow> files \<Rightarrow> (int + unit) \<times> files" where
  "become_daemon b is_daemon pidfile fs =
    (if \<not> is_daemon then create_pid_file (boot.truncate b) pidfile fs
     else if \<not> b_fork b then (Inl 70, fs)
     else create_pid_file (boot.truncate b) pidfile fs)"

section \<open>Listening sockets\<close>

datatype family = AF_INET | AF_INET6 | AF_OTHER

record addr =
  ad_family :: family
  ad_nameinfo :: bool
  ad_socket :: "int option"
  ad_ndelay :: bool
  ad_reuse :: bool
  ad_bind :: bool
  ad_listen :: bool

text \<open>The loop over the addresses: the sockets with their types, the status of an exit and whether it goes
  through \<open>server_exit\<close>. The arrays have 128 elements. \<open>ipv\<close> keeps its value for other families.\<close>

datatype stop = Quit | Server_exit

fun listen_loop :: "addr list \<Rightarrow> int \<Rightarrow> (int \<times> int) list \<Rightarrow> (stop + (int \<times> int) list) option" where
  "listen_loop [] ipv socks = Some (Inr socks)"
| "listen_loop (p # ps) ipv socks =
    (if \<not> ad_nameinfo p then listen_loop ps ipv socks
     else (case ad_socket p of
         None \<Rightarrow> listen_loop ps ipv socks
       | Some tmp_fd \<Rightarrow>
           if \<not> ad_ndelay p then listen_loop ps ipv socks
           else if \<not> ad_reuse p then Some (Inl Server_exit)
           else
             let ipv' = (case ad_family p of AF_INET6 \<Rightarrow> 6 | AF_INET \<Rightarrow> 4 | AF_OTHER \<Rightarrow> ipv)
             in if \<not> ad_bind p then listen_loop ps ipv' socks
                else if 128 \<le> length socks then None
                else if \<not> ad_listen p then Some (Inl Quit)
                else listen_loop ps ipv' (socks @ [(tmp_fd, ipv')])))"

text \<open>\<open>create_and_bind\<close>, which the server no longer calls: the second argument is the value of \<open>sfd\<close>, \<open>None\<close>
  before the first assignment.\<close>

fun bind_loop :: "addr list \<Rightarrow> int option \<Rightarrow> int option" where
  "bind_loop [] sfd = sfd"
| "bind_loop (rp # rps) sfd =
    (case ad_socket rp of
       None \<Rightarrow> bind_loop rps (Some (-1))
     | Some s \<Rightarrow> if \<not> ad_bind rp then bind_loop rps (Some s) else if \<not> ad_reuse rp then Some (-1) else Some s)"

definition create_and_bind :: "addr list option \<Rightarrow> int option" where
  "create_and_bind result = (case result of None \<Rightarrow> Some (-1) | Some addrs \<Rightarrow> bind_loop addrs None)"

text \<open>When no address can be bound it returns the last socket, which it has closed.\<close>

lemma create_and_bind_closed: "ad_socket p = Some s \<Longrightarrow> \<not> ad_bind p \<Longrightarrow> create_and_bind (Some [p]) = Some s"
  by (simp add: create_and_bind_def)

text \<open>\<open>epoll_add_socket\<close> for every socket.\<close>

fun epoll_add_all :: "(int \<Rightarrow> bool) \<Rightarrow> int list \<Rightarrow> bool" where
  "epoll_add_all ctl_ok [] = True"
| "epoll_add_all ctl_ok (s # ss) = (if ctl_ok s then epoll_add_all ctl_ok ss else False)"

section \<open>\<open>main\<close>\<close>

text \<open>\<open>getopt\<close> with the option string \<open>c:hd\<close>, up to the first \<open>h\<close> or unknown option; the first argument are
  the letters left of the current word.\<close>

function server_getopt :: "string \<Rightarrow> string list \<Rightarrow> (char \<times> string) list" where
  "server_getopt [] [] = []"
| "server_getopt [] (a # as) =
    (if a = ''--'' then []
     else if length a < 2 \<or> hd a \<noteq> CHR ''-'' then server_getopt [] as
     else server_getopt (tl a) as)"
| "server_getopt (c # cs) as =
    (if c = CHR ''c'' then
       (if cs \<noteq> [] then (c, cs) # server_getopt [] as
        else (case as of [] \<Rightarrow> [(CHR ''?'', [])] | b # bs \<Rightarrow> (c, b) # server_getopt [] bs))
     else if c = CHR ''d'' then (c, []) # server_getopt cs as
     else [(c, [])])"
  by pat_completeness auto
termination
  by (relation "measure (\<lambda>(cs, as). length cs + sum_list (map (\<lambda>a. length a + 1) as))") auto

text \<open>The configuration file and whether to become a daemon; \<open>None\<close> is \<open>exit (1)\<close> after the usage message.\<close>

fun server_options :: "(char \<times> string) list \<Rightarrow> string \<times> bool \<Rightarrow> (string \<times> bool) option" where
  "server_options [] s = Some s"
| "server_options ((ch, optarg) # os) (cfg_ini, am_daemon) =
    (if ch = CHR ''c'' then server_options os (snprintf_s MAXLINE optarg, am_daemon)
     else if ch = CHR ''d'' then server_options os (cfg_ini, True)
     else None)"

record start_env = daemon +
  b_clients :: bool
  b_junk :: "nat \<Rightarrow> client_st"
  b_addrs :: "addr list option"
  b_events :: bool
  b_epoll :: bool
  b_ctl :: "int \<Rightarrow> bool"

definition config0 :: config where
  "config0 = \<lparr>clog_level = [], cport = [], cmax_connect = [], cpidfile = [], child_exec = [], crw_timeout = []\<rparr>"

text \<open>\<open>main\<close> after \<open>become_daemon\<close>, and \<open>main\<close> up to the loop.\<close>

definition server_setup :: "start_env \<Rightarrow> config \<Rightarrow> files \<Rightarrow> ((int + server) \<times> files) option" where
  "server_setup b cfg fs =
    (let quit = (case server_exit (cpidfile cfg) fs of (c, fs') \<Rightarrow> Some (Inl c, fs'))
     in if \<not> b_clients b then quit
        else (case b_addrs b of
            None \<Rightarrow> quit
          | Some addrs \<Rightarrow> do {
              r \<leftarrow> listen_loop addrs 4 [];
              case r of
                Inl Quit \<Rightarrow> Some (Inl 1, fs)
              | Inl Server_exit \<Rightarrow> quit
              | Inr socks \<Rightarrow>
                  if \<not> b_events b \<or> \<not> b_epoll b then quit
                  else if \<not> epoll_add_all (b_ctl b) (map fst socks) then quit
                  else do { s \<leftarrow> start_server cfg (b_junk b) (map fst socks) {0, 1, 2}; Some (Inr s, fs) } }))"

definition server_main :: "env \<Rightarrow> start_env \<Rightarrow> string list \<Rightarrow> files \<Rightarrow> ((int + server) \<times> files) option" where
  "server_main env b args fs =
    (case server_options (server_getopt [] args) ([], False) of
       None \<Rightarrow> Some (Inl 1, fs)
     | Some (cfg_ini, am_daemon) \<Rightarrow> do {
         (r, cfg) \<leftarrow> get_config_file env fs cfg_ini config0;
         if r = 1 then Some (Inl 0, fs)
         else (case become_daemon (daemon.truncate b) am_daemon (cpidfile cfg) fs of
             (Inl c, fs') \<Rightarrow> Some (Inl c, fs')
           | (Inr _, fs') \<Rightarrow> server_setup b cfg fs') })"

section \<open>Terminated children\<close>

text \<open>\<open>sigchld_exit\<close> on the statuses of the children that have ended and not been waited for; the result
  are those that remain. A child that crashed ends the loop.\<close>

fun sigchld_exit :: "nat list \<Rightarrow> nat list" where
  "sigchld_exit [] = []"
| "sigchld_exit (wstat # ws) = (if wstat mod 128 \<noteq> 0 then ws else sigchld_exit ws)"

lemma sigchld_exit_eq: "sigchld_exit ws = tl (dropWhile (\<lambda>w. w mod 128 = 0) ws)"
  by (induction ws) auto

text \<open>All are collected exactly when at most the last one crashed.\<close>

lemma sigchld_exit_all: "sigchld_exit ws = [] \<longleftrightarrow> (\<forall>w \<in> set (butlast ws). w mod 128 = 0)"
  by (induction ws) auto

declare dec.simps [simp del]

section \<open>Life of the pid file\<close>

text \<open>What is left of the files: \<open>pid_line\<close> is the line of a process.\<close>

definition pid_line :: "nat \<Rightarrow> string" where
  "pid_line pid = snprintf_s 16 (dec pid @ [LF])"

lemma create_pid_file_cases:
  assumes "pf \<noteq> []"
  obtains (refused) "create_pid_file b pf fs = (Inl 70, fs)" "fs pf \<noteq> None \<or> \<not> b_pid_open b"
  | (short) t where "create_pid_file b pf fs = (Inl 70, fs(pf \<mapsto> t))" "fs pf = None" "b_pid_write b < length (pid_line (b_pid b))"
  | (created) "create_pid_file b pf fs = (Inr (), fs(pf \<mapsto> pid_line (b_pid b)))" "fs pf = None"
proof -
  consider "fs pf \<noteq> None \<or> \<not> b_pid_open b" | "fs pf = None" "b_pid_open b" "b_pid_write b < length (pid_line (b_pid b))"
    | "fs pf = None" "b_pid_open b" "length (pid_line (b_pid b)) \<le> b_pid_write b" by fastforce
  then show thesis
  proof cases
    case 1
    then show thesis by (intro refused) (use assms in \<open>auto simp: create_pid_file_def\<close>)
  next
    case 2
    then show thesis
      by (intro short [of "take (min (b_pid_write b) (length (pid_line (b_pid b)))) (pid_line (b_pid b))"])
        (use assms in \<open>auto simp: create_pid_file_def Let_def pid_line_def\<close>)
  next
    case 3
    then show thesis by (intro created) (use assms in \<open>auto simp: create_pid_file_def Let_def pid_line_def\<close>)
  qed
qed

definition listen_fails :: "start_env \<Rightarrow> bool" where
  "listen_fails b \<longleftrightarrow> (\<exists>addrs. b_addrs b = Some addrs \<and> (\<exists>p \<in> set addrs. ad_socket p \<noteq> None \<and> ad_bind p \<and> \<not> ad_listen p))"

lemma listen_loop_quit: "listen_loop addrs ipv socks = Some (Inl Quit) \<Longrightarrow> \<exists>p \<in> set addrs. ad_socket p \<noteq> None \<and> ad_bind p \<and> \<not> ad_listen p"
  by (induction addrs ipv socks rule: listen_loop.induct) (auto simp: Let_def split: if_splits option.splits)

lemma server_setup_files:
  assumes "server_setup b cfg fs = Some (r, fs')"
  shows "(\<exists>s socks. r = Inr s \<and> start_server cfg (b_junk b) socks {0, 1, 2} = Some s) \<and> fs' = fs \<or> r = Inl 1 \<and> (fs' = fs(cpidfile cfg := None) \<or> fs' = fs \<and> listen_fails b)"
proof (cases "b_clients b")
  case True
  show ?thesis
  proof (cases "b_addrs b")
    case (Some addrs)
    show ?thesis
    proof (cases "listen_loop addrs 4 []")
      case l: (Some res)
      show ?thesis
      proof (cases res)
        case (Inl st)
        then show ?thesis using assms True Some l listen_loop_quit [of addrs 4 "[]"]
          by (cases st) (auto simp: server_setup_def server_exit_def Let_def listen_fails_def)
      next
        case (Inr socks)
        then show ?thesis using assms True Some l
          by (cases "start_server cfg (b_junk b) (map fst socks) {0, 1, 2}") (auto simp: server_setup_def server_exit_def Let_def split: if_splits)
      qed
    qed (use assms True Some in \<open>simp add: server_setup_def server_exit_def Let_def\<close>)
  qed (use assms True in \<open>simp add: server_setup_def server_exit_def Let_def\<close>)
qed (use assms in \<open>simp add: server_setup_def server_exit_def Let_def\<close>)

text \<open>A start with given options and settings.\<close>

definition starts :: "env \<Rightarrow> string list \<Rightarrow> files \<Rightarrow> config \<Rightarrow> bool \<Rightarrow> bool" where
  "starts env args fs cfg am_daemon \<longleftrightarrow>
    (\<exists>cfg_ini. server_options (server_getopt [] args) ([], False) = Some (cfg_ini, am_daemon) \<and> get_config_file env fs cfg_ini config0 = Some (0, cfg) \<and>
      cpidfile cfg \<noteq> [] \<and> cpidfile cfg \<noteq> cfg_ini)"

lemma starts_main:
  assumes "starts env args fs cfg d"
  shows "server_main env b args fs = (case become_daemon (daemon.truncate b) d (cpidfile cfg) fs of
      (Inl c, fs') \<Rightarrow> Some (Inl c, fs') | (Inr _, fs') \<Rightarrow> server_setup b cfg fs')"
  using assms by (auto simp: starts_def server_main_def)

lemma starts_again:
  assumes "starts env args fs cfg d" "\<And>f. f \<noteq> cpidfile cfg \<Longrightarrow> fs' f = fs f"
  shows "starts env args fs' cfg d"
proof -
  obtain i where i: "server_options (server_getopt [] args) ([], False) = Some (i, d)" "get_config_file env fs i config0 = Some (0, cfg)"
    "cpidfile cfg \<noteq> []" "cpidfile cfg \<noteq> i" using assms(1) by (auto simp: starts_def)
  have "open_conf_file env fs' [] (Some i) = open_conf_file env fs [] (Some i)" using assms(2) [of i] i(4) by (simp add: open_conf_file_def)
  then have "get_config_file env fs' i config0 = Some (0, cfg)" using i(2) by (simp add: get_config_file_def)
  then show ?thesis using i by (auto simp: starts_def)
qed

text \<open>While the pid file exists every start ends with 70, or, if the fork fails, also with 70.\<close>

lemma starts_refused:
  assumes "starts env args fs cfg d" "fs (cpidfile cfg) \<noteq> None"
  shows "server_main env b args fs = Some (Inl 70, fs)"
proof -
  have "cpidfile cfg \<noteq> []" using assms(1) by (auto simp: starts_def)
  then have "create_pid_file b' (cpidfile cfg) fs = (Inl 70, fs)" for b' using assms(2) by (simp add: create_pid_file_def)
  then show ?thesis by (simp add: starts_main [OF assms(1)] become_daemon_def)
qed

lemma become_daemon_cases:
  assumes "pf \<noteq> []"
  obtains (refused) "become_daemon b d pf fs = (Inl 70, fs)"
  | (short) t where "become_daemon b d pf fs = (Inl 70, fs(pf \<mapsto> t))" "fs pf = None" "b_pid_write b < length (pid_line (b_pid b))"
  | (created) "become_daemon b d pf fs = (Inr (), fs(pf \<mapsto> pid_line (b_pid b)))" "fs pf = None"
proof (cases "d \<and> \<not> b_fork b")
  case True
  then show thesis by (intro refused) (simp add: become_daemon_def)
next
  case False
  then have bd: "become_daemon b d pf fs = create_pid_file (boot.truncate b) pf fs" by (auto simp: become_daemon_def)
  have sel: "b_pid_write (boot.truncate b) = b_pid_write b" "b_pid (boot.truncate b) = b_pid b" by (simp_all add: boot.defs)
  show thesis
    by (rule create_pid_file_cases [OF assms, of "boot.truncate b" fs]) (use bd sel that in auto)
qed


section \<open>Properties\<close>

text \<open>C31: a pid file belongs to one running server. A start that succeeds found no pid file, leaves one with
  its own number and a server in an initial state; while the file exists every other start with the
  same settings, whatever the kernel answers, ends with status 70 and changes nothing. The termination
  handler removes the file again.\<close>

theorem pid_file_exclusive:
  assumes "starts env args fs cfg d" "server_main env b args fs = Some (Inr s, fs')"
  shows "fs (cpidfile cfg) = None \<and> fs' = fs(cpidfile cfg \<mapsto> pid_line (b_pid b)) \<and> server_reach s \<and>
    (\<forall>b'. server_main env b' args fs' = Some (Inl 70, fs')) \<and> server_exit (cpidfile cfg) fs' = (1, fs)"
proof -
  have pf: "cpidfile cfg \<noteq> []" using assms(1) by (auto simp: starts_def)
  have sel: "b_pid (daemon.truncate b) = b_pid b" by (simp add: daemon.defs)
  show ?thesis
  proof (rule become_daemon_cases [OF pf, of "daemon.truncate b" d fs])
    assume c: "become_daemon (daemon.truncate b) d (cpidfile cfg) fs = (Inr (), fs(cpidfile cfg \<mapsto> pid_line (b_pid (daemon.truncate b))))" "fs (cpidfile cfg) = None"
    then have su: "server_setup b cfg (fs(cpidfile cfg \<mapsto> pid_line (b_pid b))) = Some (Inr s, fs')"
      using assms(2) sel by (simp add: starts_main [OF assms(1)])
    then have fs': "fs' = fs(cpidfile cfg \<mapsto> pid_line (b_pid b))" using server_setup_files [OF su] by auto
    have "\<exists>socks. start_server cfg (b_junk b) socks {0, 1, 2} = Some s" using server_setup_files [OF su] by auto
    then have r: "server_reach s" using server_reach.start by blast
    have "starts env args fs' cfg d" using starts_again [OF assms(1), of fs'] fs' by simp
    then have "server_main env b' args fs' = Some (Inl 70, fs')" for b' using starts_refused fs' by simp
    moreover have "fs'(cpidfile cfg := None) = fs" using fs' c(2) by auto
    ultimately show ?thesis using c(2) fs' r by (simp add: server_exit_def)
  qed (use assms(2) in \<open>simp_all add: starts_main [OF assms(1)]\<close>)
qed

text \<open>A start that fails leaves no pid file behind, with two exceptions: the file could not be written
  completely (status 70), or \<open>listen\<close> failed on a bound socket (status 1, \<open>exit\<close> instead of
  \<open>server_exit\<close>). Then every later start with these settings ends with 70, although no server is running.\<close>

theorem pid_file_leftover:
  assumes "starts env args fs cfg d" "server_main env b args fs = Some (Inl c, fs')" "fs (cpidfile cfg) = None"
  shows "if fs' (cpidfile cfg) = None then fs' = fs
    else (c = 70 \<and> b_pid_write b < length (pid_line (b_pid b)) \<or> c = 1 \<and> listen_fails b) \<and>
      (\<forall>b'. server_main env b' args fs' = Some (Inl 70, fs'))"
proof -
  have pf: "cpidfile cfg \<noteq> []" using assms(1) by (auto simp: starts_def)
  have sel: "b_pid (daemon.truncate b) = b_pid b" "b_pid_write (daemon.truncate b) = b_pid_write b" by (simp_all add: daemon.defs)
  have again: "server_main env b' args fs' = Some (Inl 70, fs')" if "fs' = fs(cpidfile cfg \<mapsto> t)" for b' t
    using starts_refused [OF starts_again [OF assms(1), of fs']] that by simp
  show ?thesis
  proof (rule become_daemon_cases [OF pf, of "daemon.truncate b" d fs])
    assume "become_daemon (daemon.truncate b) d (cpidfile cfg) fs = (Inl 70, fs)"
    then show ?thesis using assms(2,3) by (simp add: starts_main [OF assms(1)])
  next
    fix t assume s: "become_daemon (daemon.truncate b) d (cpidfile cfg) fs = (Inl 70, fs(cpidfile cfg \<mapsto> t))"
      "b_pid_write (daemon.truncate b) < length (pid_line (b_pid (daemon.truncate b)))"
    then have "fs' = fs(cpidfile cfg \<mapsto> t)" "c = 70" using assms(2) by (simp_all add: starts_main [OF assms(1)])
    then show ?thesis using again s(2) sel by simp
  next
    assume cr: "become_daemon (daemon.truncate b) d (cpidfile cfg) fs = (Inr (), fs(cpidfile cfg \<mapsto> pid_line (b_pid (daemon.truncate b))))"
    then have su: "server_setup b cfg (fs(cpidfile cfg \<mapsto> pid_line (b_pid b))) = Some (Inl c, fs')"
      using assms(2) sel by (simp add: starts_main [OF assms(1)])
    then consider "c = 1" "fs' = (fs(cpidfile cfg \<mapsto> pid_line (b_pid b)))(cpidfile cfg := None)"
      | "c = 1" "fs' = fs(cpidfile cfg \<mapsto> pid_line (b_pid b))" "listen_fails b" using server_setup_files [OF su] by auto
    then show ?thesis
    proof cases
      case 1
      then show ?thesis using assms(3) by auto
    next
      case 2
      then show ?thesis using again by simp
    qed
  qed
qed

text \<open>A server for which no address could be bound runs without a socket.\<close>

lemma no_socket_runs: "listen_loop (filter (\<lambda>p. \<not> ad_nameinfo p \<or> ad_socket p = None \<or> \<not> ad_ndelay p) ps) ipv [] = Some (Inr [])"
  by (induction ps arbitrary: ipv) (auto split: option.splits)

section \<open>Examples\<close>

definition server_doc :: "item list" where
  "server_doc = [Sec ''server'', KV ''max_connect'' 0 ''2'', KV ''pidfile'' 0 ''/p'']"

definition server_files :: files where
  "server_files = [''a.ini'' \<mapsto> doc_text server_doc]"

definition booted :: "bool \<Rightarrow> start_env" where
  "booted l = \<lparr>b_pid = 321, b_pid_open = True, b_pid_write = 9, b_fork = True, b_clients = True, b_junk = (\<lambda>_. empty_client),
     b_addrs = Some [\<lparr>ad_family = AF_INET, ad_nameinfo = True, ad_socket = Some 3, ad_ndelay = True, ad_reuse = True, ad_bind = True, ad_listen = l\<rparr>],
     b_events = True, b_epoll = True, b_ctl = (\<lambda>_. True)\<rparr>"

lemma server_doc_good: "good_doc [] server_doc"
  by (simp add: server_doc_def good_sec_def good_key_def good_val_def good_name_def trimmed_def isspace_def tolower_def kv_line_def)

lemma server_doc_starts:
  obtains cfg where "starts (key_snprintf, CHR ''x'', alloc_ok) [''-d'', ''-ca.ini''] server_files cfg True" "cpidfile cfg = ''/p''"
proof -
  have o: "server_options (server_getopt [] [''-d'', ''-ca.ini'']) ([], False) = Some (''a.ini'', True)"
    by (simp add: snprintf_s_def MAXLINE_def)
  have f: "server_files ''a.ini'' = Some (doc_text server_doc)" by (simp add: server_files_def)
  have "updates Map.empty (doc_updates [] server_doc) ''server:pidfile'' = Some (Some ''/p'')" by (simp add: server_doc_def)
  then have p: "setting_of (updates Map.empty (doc_updates [] server_doc)) ''server:pidfile'' DEF_PID_FILE MAXLINE = ''/p''"
    by (simp add: setting_of_def MAXLINE_def)
  have x: "CHR ''x'' \<noteq> BSL" by simp
  have k: "key_snprintf = key_sprintf \<or> key_snprintf = key_snprintf" by simp
  note c = get_config_file_correct [OF server_doc_good k x, where fs = server_files and cfg_ini = "''a.ini''" and cfg = config0, OF f refl]
  show thesis by (rule that) (use o c p in \<open>auto simp: starts_def\<close>)
qed

lemma booted_main:
  assumes "starts env args fs cfg True" "cpidfile cfg = ''/p''" "fs ''/p'' = None"
  shows "server_main env (booted l) args fs =
    (if l then map_option (\<lambda>s. (Inr s, fs(''/p'' \<mapsto> ''321'' @ [LF]))) (start_server cfg (\<lambda>_. empty_client) [3] {0, 1, 2})
     else Some (Inl 1, fs(''/p'' \<mapsto> ''321'' @ [LF])))"
proof -
  have d: "dec 321 = ''321''" by (simp add: dec.simps char_of_def bit_0)
  have "become_daemon (daemon.truncate (booted l)) True ''/p'' fs = (Inr (), fs(''/p'' \<mapsto> ''321'' @ [LF]))"
    using assms(3) by (simp add: become_daemon_def create_pid_file_def booted_def daemon.defs boot.defs d snprintf_s_def Let_def)
  then show ?thesis using assms(2)
    by (cases "start_server cfg (\<lambda>_. empty_client) [3] {0, 1, 2}")
      (simp_all add: starts_main [OF assms(1)] server_setup_def booted_def Let_def)
qed

theorem pid_file_exclusive_witness:
  "\<exists>(cfg :: config) s fs'. server_main (key_snprintf, CHR ''x'', alloc_ok) (booted True) [''-d'', ''-ca.ini''] server_files = Some (Inr s, fs') \<and>
    server_main (key_snprintf, CHR ''x'', alloc_ok) (booted True) [''-d'', ''-ca.ini''] fs' = Some (Inl 70, fs') \<and>
    server_exit (cpidfile cfg) fs' = (1, server_files)"
proof -
  obtain cfg where c: "starts (key_snprintf, CHR ''x'', alloc_ok) [''-d'', ''-ca.ini''] server_files cfg True" "cpidfile cfg = ''/p''" by (rule server_doc_starts)
  obtain s where "start_server cfg (\<lambda>_. empty_client) [3] {0, 1, 2} = Some s" using start_server_ok by blast
  then have m: "server_main (key_snprintf, CHR ''x'', alloc_ok) (booted True) [''-d'', ''-ca.ini''] server_files = Some (Inr s, server_files(''/p'' \<mapsto> ''321'' @ [LF]))"
    using booted_main [OF c, of True] by (simp add: server_files_def)
  then show ?thesis using pid_file_exclusive [OF c(1) m] by blast
qed

theorem pid_file_leftover_witness:
  "\<exists>fs'. server_main (key_snprintf, CHR ''x'', alloc_ok) (booted False) [''-d'', ''-ca.ini''] server_files = Some (Inl 1, fs') \<and> fs' ''/p'' \<noteq> None \<and>
    server_main (key_snprintf, CHR ''x'', alloc_ok) (booted True) [''-d'', ''-ca.ini''] fs' = Some (Inl 70, fs')"
proof -
  obtain cfg where c: "starts (key_snprintf, CHR ''x'', alloc_ok) [''-d'', ''-ca.ini''] server_files cfg True" "cpidfile cfg = ''/p''" by (rule server_doc_starts)
  have n: "server_files (cpidfile cfg) = None" using c(2) by (simp add: server_files_def)
  have m: "server_main (key_snprintf, CHR ''x'', alloc_ok) (booted False) [''-d'', ''-ca.ini''] server_files = Some (Inl 1, server_files(''/p'' \<mapsto> ''321'' @ [LF]))"
    using booted_main [OF c, of False] n c(2) by simp
  show ?thesis using pid_file_leftover [OF c(1) m n] m c(2) by auto
qed

end
