(* ===== verification/Ctutils.thy ===== *)
theory Ctutils
  imports Prelude "HOL-Library.Sublist"
begin

text \<open>
  Model of \<^verbatim>\<open>samples/ctproxy/utils.c\<close>: session ids from a UUID, addresses in hexadecimal, the flags of
  descriptors, and signals. The UUID and the result of \<open>inet_pton\<close> are parameters; buffers have a length
  and a write outside of one is undefined behaviour, \<open>None\<close>. Descriptors are copied and moved in \<open>Ctserver\<close>.
\<close>

section \<open>Hexadecimal digits\<close>

definition hex_digit :: "nat \<Rightarrow> byte" where
  "hex_digit n = (if n < 10 then 48 + of_nat n else 55 + of_nat n)"

text \<open>\<open>%X\<close>, and \<open>%0kX\<close> of a value with at most \<open>k\<close> digits.\<close>

fun hex :: "nat \<Rightarrow> byte list" where
  "hex n = (if n < 16 then [hex_digit n] else hex (n div 16) @ [hex_digit (n mod 16)])"

definition hex_pad :: "nat \<Rightarrow> nat \<Rightarrow> byte list" where
  "hex_pad k n = replicate (k - length (hex n)) 48 @ hex n"

section \<open>\<open>create_unique_id\<close>\<close>

text \<open>The two characters of each byte are stored one by one; no terminator follows and \<open>mid_size\<close> is not
  looked at. \<open>ch\<close> has room for the two digits and the terminator.\<close>

fun unique_id_loop :: "byte list \<Rightarrow> nat \<Rightarrow> byte list \<Rightarrow> byte list option" where
  "unique_id_loop [] i mid = Some mid"
| "unique_id_loop (p # ps) i mid = do {
     let ch = hex_pad 2 (unat p);
     mid1 \<leftarrow> wr mid (i * 2) (ch ! 0);
     mid2 \<leftarrow> wr mid1 (i * 2 + 1) (ch ! 1);
     unique_id_loop ps (i + 1) mid2 }"

definition create_unique_id :: "byte list \<Rightarrow> byte list \<Rightarrow> nat \<Rightarrow> (int \<times> byte list) option" where
  "create_unique_id uuid mid mid_size = map_option (Pair (int (length uuid))) (unique_id_loop uuid 0 mid)"

section \<open>\<open>conv_ip_to_hex_str_family\<close>\<close>

datatype family = AF_INET | AF_INET6 | AF_OTHER

text \<open>\<open>inet_pton\<close> gives the four bytes of an IPv4 address or the eight 16-bit groups of an IPv6 address,
  already in host order here, or fails. The IPv4 bytes are read as a little-endian word. \<open>sprintf\<close> does
  not look at \<open>ip_hex_str_size\<close>.\<close>

fun v6_loop :: "u16 list \<Rightarrow> nat \<Rightarrow> int \<Rightarrow> byte list \<Rightarrow> (int \<times> byte list) option" where
  "v6_loop [] i n buf = Some (n, buf)"
| "v6_loop (g # gs) i n buf = do {
     buf' \<leftarrow> memcpy buf (4 * i) (hex_pad 4 (unat g) @ [0]);
     v6_loop gs (i + 1) (n + int (length (hex_pad 4 (unat g)))) buf' }"

definition le_word :: "byte list \<Rightarrow> nat" where
  "le_word bs = (\<Sum>k<length bs. unat (bs ! k) * 256 ^ k)"

definition snprintf_bytes :: "byte list \<Rightarrow> nat \<Rightarrow> byte list \<Rightarrow> (int \<times> byte list) option" where
  "snprintf_bytes buf sz s =
    (if sz = 0 then Some (int (length s), buf)
     else map_option (Pair (int (length s))) (memcpy buf 0 (take (sz - 1) s @ [0])))"

definition conv_ip_to_hex_str_family ::
  "(byte list \<Rightarrow> byte list option) \<Rightarrow> (byte list \<Rightarrow> u16 list option) \<Rightarrow> family \<Rightarrow> byte list \<Rightarrow> byte list \<Rightarrow> nat \<Rightarrow> (int \<times> byte list) option" where
  "conv_ip_to_hex_str_family pton4 pton6 sa_family ip_str ip_hex_str ip_hex_str_size =
    (case sa_family of
       AF_INET6 \<Rightarrow> (case pton6 ip_str of None \<Rightarrow> Some (0, ip_hex_str) | Some gs \<Rightarrow> v6_loop gs 0 0 ip_hex_str)
     | AF_INET \<Rightarrow> (case pton4 ip_str of None \<Rightarrow> Some (0, ip_hex_str) | Some bs \<Rightarrow> snprintf_bytes ip_hex_str ip_hex_str_size (hex (le_word bs)))
     | AF_OTHER \<Rightarrow> Some (0, ip_hex_str))"

section \<open>Reading hexadecimal digits\<close>

definition digit_value :: "byte \<Rightarrow> nat" where
  "digit_value c = (if c < 58 then unat c - 48 else unat c - 55)"

definition unhex :: "byte list \<Rightarrow> nat" where
  "unhex = foldl (\<lambda>acc c. acc * 16 + digit_value c) 0"

declare hex.simps [simp del]

lemma digit_value_hex: "n < 16 \<Longrightarrow> digit_value (hex_digit n) = n"
proof -
  have "\<forall>n \<in> {0..<16}. digit_value (hex_digit n) = n" by code_simp
  then show "n < 16 \<Longrightarrow> digit_value (hex_digit n) = n" by simp
qed

lemma unhex_snoc: "unhex (xs @ [c]) = unhex xs * 16 + digit_value c"
  by (simp add: unhex_def)

lemma unhex_hex: "unhex (hex n) = n"
proof (induction n rule: hex.induct)
  case (1 n)
  then show ?case
    by (subst hex.simps) (auto simp: unhex_snoc digit_value_hex unhex_def)
qed

lemma unhex_pad: "unhex (hex_pad k n) = n"
proof -
  have "foldl (\<lambda>acc c. acc * 16 + digit_value c) 0 (replicate m 48) = 0" for m
    by (induction m) (simp_all add: digit_value_def)
  then show ?thesis using unhex_hex [of n] by (simp add: hex_pad_def unhex_def)
qed

lemma length_hex: "n < 16 ^ k \<Longrightarrow> 0 < k \<Longrightarrow> length (hex n) \<le> k"
proof (induction k arbitrary: n)
  case (Suc k)
  show ?case
  proof (cases "n < 16")
    case False
    then have "n div 16 < 16 ^ k" "0 < k" using Suc.prems by (auto intro!: gr0I simp: less_mult_imp_div_less)
    then show ?thesis using Suc.IH [of "n div 16"] by (subst hex.simps) simp
  qed (simp add: hex.simps)
qed simp

lemma length_hex_pad: "n < 16 ^ k \<Longrightarrow> 0 < k \<Longrightarrow> length (hex_pad k n) = k"
  using length_hex [of n k] by (simp add: hex_pad_def)

lemma byte_hex: "length (hex_pad 2 (unat (p :: byte))) = 2"
  using unsigned_less [of p, where ?'a = nat] by (intro length_hex_pad) auto

lemma group_hex: "length (hex_pad 4 (unat (g :: u16))) = 4"
  using unsigned_less [of g, where ?'a = nat] by (intro length_hex_pad) auto

text \<open>The texts of a UUID and of an IPv6 address, and reading them.\<close>

definition id_text :: "byte list \<Rightarrow> byte list" where
  "id_text uuid = concat (map (\<lambda>p. hex_pad 2 (unat p)) uuid)"

fun id_parse :: "byte list \<Rightarrow> byte list" where
  "id_parse (a # b # r) = of_nat (unhex [a, b]) # id_parse r"
| "id_parse _ = []"

definition v6_text :: "u16 list \<Rightarrow> byte list" where
  "v6_text gs = concat (map (\<lambda>g. hex_pad 4 (unat g)) gs)"

fun v6_parse :: "byte list \<Rightarrow> u16 list" where
  "v6_parse (a # b # c # d # r) = of_nat (unhex [a, b, c, d]) # v6_parse r"
| "v6_parse _ = []"

lemma id_text_Cons [simp]: "id_text [] = []" "id_text (p # ps) = hex_pad 2 (unat p) @ id_text ps"
  by (simp_all add: id_text_def)

lemma v6_text_Cons [simp]: "v6_text [] = []" "v6_text (g # gs) = hex_pad 4 (unat g) @ v6_text gs"
  by (simp_all add: v6_text_def)

lemma length_id_text: "length (id_text uuid) = 2 * length uuid"
  by (induction uuid) (simp_all add: byte_hex)

lemma length_v6_text: "length (v6_text gs) = 4 * length gs"
  by (induction gs) (simp_all add: group_hex)

lemma id_parse_text: "id_parse (id_text uuid) = uuid"
proof (induction uuid)
  case (Cons p ps)
  obtain a b where "hex_pad 2 (unat p) = [a, b]" using byte_hex [of p] by (auto simp: length_Suc_conv numeral_2_eq_2)
  then show ?case using Cons unhex_pad [of 2 "unat p"] by simp
qed simp

lemma v6_parse_text: "v6_parse (v6_text gs) = gs"
proof (induction gs)
  case (Cons g gs)
  obtain a b c d where "hex_pad 4 (unat g) = [a, b, c, d]"
    using group_hex [of g] by (auto simp: length_Suc_conv numeral_eq_Suc)
  then show ?case using Cons unhex_pad [of 4 "unat g"] by simp
qed simp

lemma unique_id_loop_spec:
  "length pre = 2 * i \<Longrightarrow> unique_id_loop ps i (pre @ b) = (if 2 * length ps \<le> length b then Some (pre @ id_text ps @ drop (2 * length ps) b) else None)"
proof (induction ps arbitrary: i pre b)
  case (Cons p ps)
  obtain x y where xy: "hex_pad 2 (unat p) = [x, y]" using byte_hex [of p] by (auto simp: length_Suc_conv numeral_2_eq_2)
  show ?case
  proof (cases b rule: list.exhaust)
    case Nil
    then show ?thesis using Cons.prems by (simp add: wr_def)
  next
    case c1: (Cons u b1)
    show ?thesis
    proof (cases b1)
      case Nil
      then show ?thesis using Cons.prems c1 by (simp add: wr_def Let_def xy)
    next
      case c2: (Cons v b2)
      have "wr (pre @ u # v # b2) (i * 2) x = Some (pre @ x # v # b2)" "wr (pre @ x # v # b2) (i * 2 + 1) y = Some ((pre @ [x, y]) @ b2)"
        using Cons.prems by (simp_all add: wr_def list_update_append)
      then show ?thesis using Cons.IH [of "pre @ [x, y]" "i + 1" b2] Cons.prems c1 c2 xy by (simp add: Let_def)
    qed
  qed
qed simp

lemma v6_loop_spec:
  "length pre = 4 * i \<Longrightarrow> 4 * length gs < length b \<Longrightarrow> gs \<noteq> [] \<Longrightarrow>
    v6_loop gs i n (pre @ b) = Some (n + 4 * int (length gs), pre @ v6_text gs @ 0 # drop (4 * length gs + 1) b)"
proof (induction gs arbitrary: i n pre b)
  case (Cons g gs)
  let ?h = "hex_pad 4 (unat g)"
  have m: "memcpy (pre @ b) (4 * i) (?h @ [0]) = Some ((pre @ ?h) @ 0 # drop 5 b)"
    using Cons.prems by (simp add: memcpy_def group_hex)
  show ?case
  proof (cases "gs = []")
    case False
    have "v6_loop gs (i + 1) (n + 4) ((pre @ ?h) @ 0 # drop 5 b)
        = Some (n + 4 + 4 * int (length gs), (pre @ ?h) @ v6_text gs @ 0 # drop (4 * length gs + 1) (0 # drop 5 b))"
      using Cons.prems False by (intro Cons.IH) (auto simp: group_hex)
    then show ?thesis using m by (simp add: group_hex add.commute)
  qed (use m in \<open>simp add: group_hex\<close>)
qed simp

lemma v6_loop_overrun:
  "length pre = 4 * i \<Longrightarrow> length b \<le> 4 * length gs \<Longrightarrow> gs \<noteq> [] \<Longrightarrow> v6_loop gs i n (pre @ b) = None"
proof (induction gs arbitrary: i n pre b)
  case (Cons g gs)
  let ?h = "hex_pad 4 (unat g)"
  show ?case
  proof (cases "5 \<le> length b")
    case True
    then have "memcpy (pre @ b) (4 * i) (?h @ [0]) = Some ((pre @ ?h) @ 0 # drop 5 b)"
      using Cons.prems by (simp add: memcpy_def group_hex)
    moreover have "v6_loop gs (i + 1) (n + int (length ?h)) ((pre @ ?h) @ 0 # drop 5 b) = None"
      using Cons.prems True by (intro Cons.IH) (auto simp: group_hex)
    ultimately show ?thesis by simp
  qed (use Cons.prems in \<open>simp add: memcpy_def group_hex\<close>)
qed simp

text \<open>The session id is the UUID in 32 hexadecimal characters, from which the UUID can be read back, so
  that different UUIDs give different ids. Exactly 32 characters are stored, without a terminator, and
  with a shorter buffer the function writes past its end, whatever \<open>mid_size\<close> says.\<close>

theorem unique_id_roundtrip:
  assumes "length uuid = 16"
  shows "create_unique_id uuid mid sz = (if 32 \<le> length mid then Some (16, id_text uuid @ drop 32 mid) else None)"
    and "length (id_text uuid) = 32" "id_parse (id_text uuid) = uuid"
  using unique_id_loop_spec [of "[]" 0 uuid mid] assms
  by (simp_all add: create_unique_id_def length_id_text id_parse_text)

text \<open>An IPv6 address becomes 32 hexadecimal characters and a terminator, from which the groups can be
  read back; the buffer must have 33 bytes, and with fewer the function writes past its end although
  it is given the size. An IPv4 address becomes the shortest hexadecimal text of its little-endian
  word, cut to the size, with the full length as the result.\<close>

theorem conv_ip_correct:
  assumes "length gs = 8" "pton6 ip = Some gs" "pton4 ip = Some bs"
  shows "conv_ip_to_hex_str_family pton4 pton6 AF_INET6 ip buf sz =
      (if 33 \<le> length buf then Some (32, v6_text gs @ 0 # drop 33 buf) else None)"
    and "v6_parse (v6_text gs) = gs"
    and "0 < sz \<Longrightarrow> length (hex (le_word bs)) < sz \<Longrightarrow> sz \<le> length buf \<Longrightarrow>
      conv_ip_to_hex_str_family pton4 pton6 AF_INET ip buf sz =
        Some (int (length (hex (le_word bs))), hex (le_word bs) @ 0 # drop (length (hex (le_word bs)) + 1) buf)"
    and "unhex (hex (le_word bs)) = le_word bs"
proof -
  have "gs \<noteq> []" using assms(1) by auto
  then show "conv_ip_to_hex_str_family pton4 pton6 AF_INET6 ip buf sz =
      (if 33 \<le> length buf then Some (32, v6_text gs @ 0 # drop 33 buf) else None)"
    using v6_loop_spec [of "[]" 0 gs buf 0] v6_loop_overrun [of "[]" 0 buf gs 0] assms
    by (simp add: conv_ip_to_hex_str_family_def)
  show "v6_parse (v6_text gs) = gs" by (rule v6_parse_text)
  show "unhex (hex (le_word bs)) = le_word bs" by (rule unhex_hex)
qed (use assms(3) in \<open>simp add: conv_ip_to_hex_str_family_def snprintf_bytes_def memcpy_def\<close>)

section \<open>Blocking and non-blocking descriptors\<close>

text \<open>The flags of the open descriptors, with the system's values of the constants. \<open>F_SETFL\<close> changes the
  flags in \<open>settable\<close> only (\<open>O_APPEND\<close>, \<open>O_ASYNC\<close>, \<open>O_DIRECT\<close>, \<open>O_NOATIME\<close> and \<open>O_NONBLOCK\<close>, of which only the last
  occurs in the code); both commands fail for a descriptor that is not open.\<close>

type_synonym fd_flags = "int \<Rightarrow> u32 option"

definition O_NONBLOCK :: u32 where "O_NONBLOCK = 2048"
definition settable :: u32 where "settable = 0x46C00"

definition F_GETFL :: "fd_flags \<Rightarrow> int \<Rightarrow> u32" where
  "F_GETFL t fd = (case t fd of None \<Rightarrow> -1 | Some fl \<Rightarrow> fl)"

definition F_SETFL :: "fd_flags \<Rightarrow> int \<Rightarrow> u32 \<Rightarrow> int \<times> fd_flags" where
  "F_SETFL t fd v = (case t fd of None \<Rightarrow> (-1, t) | Some fl \<Rightarrow> (0, t(fd \<mapsto> (fl AND NOT settable) OR (v AND settable))))"

definition ndelay_on :: "fd_flags \<Rightarrow> int \<Rightarrow> int \<times> fd_flags" where
  "ndelay_on t fd = F_SETFL t fd (F_GETFL t fd OR O_NONBLOCK)"

definition ndelay_off :: "fd_flags \<Rightarrow> int \<Rightarrow> int \<times> fd_flags" where
  "ndelay_off t fd = F_SETFL t fd (F_GETFL t fd AND NOT O_NONBLOCK)"

lemma settable_nonblock: "O_NONBLOCK AND settable = O_NONBLOCK"
  by (simp add: O_NONBLOCK_def settable_def)

lemma set_on: "(fl AND NOT settable) OR ((fl OR O_NONBLOCK) AND settable) = fl OR O_NONBLOCK"
proof -
  have "bit ((fl AND NOT settable) OR ((fl OR O_NONBLOCK) AND settable)) n = bit (fl OR O_NONBLOCK) n" if "n < 32" for n
  proof -
    have "bit (O_NONBLOCK AND settable) n = bit O_NONBLOCK n" by (simp only: settable_nonblock)
    then show ?thesis using that by (auto simp: bit_simps)
  qed
  then show ?thesis by (auto intro!: bit_word_eqI)
qed

lemma set_off: "(fl AND NOT settable) OR ((fl AND NOT O_NONBLOCK) AND settable) = fl AND NOT O_NONBLOCK"
proof -
  have "bit ((fl AND NOT settable) OR ((fl AND NOT O_NONBLOCK) AND settable)) n = bit (fl AND NOT O_NONBLOCK) n" if "n < 32" for n
  proof -
    have "bit (O_NONBLOCK AND settable) n = bit O_NONBLOCK n" by (simp only: settable_nonblock)
    then show ?thesis using that by (auto simp: bit_simps)
  qed
  then show ?thesis by (auto intro!: bit_word_eqI)
qed

text \<open>For an open descriptor exactly the one flag is set or cleared and the result is 0; a closed one gives
  -1 and changes nothing. \<open>ndelay_off\<close> after \<open>ndelay_on\<close> restores a descriptor that was blocking, but
  not one that was not: \<open>write_fd_timeout\<close> leaves every descriptor blocking.\<close>

lemma ndelay_on_correct:
  "ndelay_on t fd = (case t fd of None \<Rightarrow> (-1, t) | Some fl \<Rightarrow> (0, t(fd \<mapsto> fl OR O_NONBLOCK)))"
  by (simp add: ndelay_on_def F_SETFL_def F_GETFL_def set_on split: option.splits)

lemma ndelay_off_correct:
  "ndelay_off t fd = (case t fd of None \<Rightarrow> (-1, t) | Some fl \<Rightarrow> (0, t(fd \<mapsto> fl AND NOT O_NONBLOCK)))"
  by (simp add: ndelay_off_def F_SETFL_def F_GETFL_def set_off split: option.splits)

lemma ndelay_on_off:
  assumes "t fd = Some fl"
  shows "snd (ndelay_off (snd (ndelay_on t fd)) fd) = t(fd \<mapsto> fl AND NOT O_NONBLOCK)"
proof -
  have "(fl OR O_NONBLOCK) AND NOT O_NONBLOCK = fl AND NOT O_NONBLOCK" by (auto intro!: bit_word_eqI simp: bit_simps)
  then show ?thesis using assms by (simp add: ndelay_on_correct ndelay_off_correct)
qed

lemma ndelay_restores:
  assumes "t fd = Some fl"
  shows "snd (ndelay_off (snd (ndelay_on t fd)) fd) = t \<longleftrightarrow> fl AND O_NONBLOCK = 0"
proof -
  have "fl AND NOT O_NONBLOCK = fl \<longleftrightarrow> fl AND O_NONBLOCK = 0"
  proof
    assume "fl AND NOT O_NONBLOCK = fl"
    then have "fl AND O_NONBLOCK = (fl AND NOT O_NONBLOCK) AND O_NONBLOCK" by simp
    also have "\<dots> = 0" by (auto intro!: bit_word_eqI simp: bit_simps)
    finally show "fl AND O_NONBLOCK = 0" .
  next
    assume z: "fl AND O_NONBLOCK = 0"
    have "fl = (fl AND O_NONBLOCK) OR (fl AND NOT O_NONBLOCK)" by (auto intro!: bit_word_eqI simp: bit_simps)
    then show "fl AND NOT O_NONBLOCK = fl" using z by simp
  qed
  then show ?thesis using ndelay_on_off [of t fd fl, OF assms] assms by (auto simp: fun_upd_idem_iff)
qed

section \<open>Signals\<close>

text \<open>The handlers and the blocked signals of the process.\<close>

datatype 'h handler = SIG_DFL | SIG_IGN | Handler 'h

record 'h signals =
  sig_actions :: "nat \<Rightarrow> 'h handler"
  sig_mask :: "nat set"

definition SIGPIPE :: nat where "SIGPIPE = 13"
definition SIGCHLD :: nat where "SIGCHLD = 17"

definition sig_catch :: "nat \<Rightarrow> 'h handler \<Rightarrow> 'h signals \<Rightarrow> 'h signals" where
  "sig_catch sig f s = s\<lparr>sig_actions := (sig_actions s)(sig := f)\<rparr>"

definition sig_block :: "nat \<Rightarrow> 'h signals \<Rightarrow> 'h signals" where
  "sig_block sig s = s\<lparr>sig_mask := sig_mask s \<union> {sig}\<rparr>"

definition sig_unblock :: "nat \<Rightarrow> 'h signals \<Rightarrow> 'h signals" where
  "sig_unblock sig s = s\<lparr>sig_mask := sig_mask s - {sig}\<rparr>"

definition sig_pipeignore :: "'h signals \<Rightarrow> 'h signals" where
  "sig_pipeignore = sig_catch SIGPIPE SIG_IGN"

definition sig_childblock :: "'h signals \<Rightarrow> 'h signals" where
  "sig_childblock = sig_block SIGCHLD"

definition sig_childunblock :: "'h signals \<Rightarrow> 'h signals" where
  "sig_childunblock = sig_unblock SIGCHLD"

text \<open>Around an event that is handled completely the mask is as before when \<open>SIGCHLD\<close> was let through.\<close>

lemma sig_child_around: "SIGCHLD \<notin> sig_mask s \<Longrightarrow> sig_childunblock (sig_childblock s) = s"
  by (simp add: sig_childunblock_def sig_childblock_def sig_block_def sig_unblock_def)

end
