(* ===== verification/Daemon.thy ===== *)
theory Daemon
  imports Ctserver_start
begin

text \<open>
  Model of \<^verbatim>\<open>samples/daemon.c\<close>: a program that detaches itself, writes its number to a pid file and holds a
  lock on it so that only one instance runs. \<open>daemon_init\<close> is a function on the attributes of the process.
  Several instances run at the same time: the rest of the program is a step relation whose steps are the
  system calls of one instance and the signals that end it. The pid file is a directory entry for an
  inode, so that a file that is unlinked while an instance has it open remains visible.
\<close>

section \<open>\<open>daemon_init\<close>\<close>

record process =
  leader :: bool
  open_files :: "int set"
  cwd :: string
  umask :: nat
  chld_ignored :: bool

definition NOFILE :: int where "NOFILE = 256"

text \<open>The outcomes of the two forks, of \<open>setsid\<close> and of \<open>chdir\<close> are parameters. \<open>Inl\<close> is an exit status of the
  process that goes on after the forks; the parents end with status 0.\<close>

definition daemon_init :: "bool \<Rightarrow> bool \<Rightarrow> bool \<Rightarrow> bool \<Rightarrow> string option \<Rightarrow> process \<Rightarrow> int + process" where
  "daemon_init fork1 setsid fork2 chdir chdir_path p =
    (if \<not> fork1 then Inl 1
     else let p1 = p\<lparr>leader := False\<rparr>
     in if \<not> setsid then Inl 1
     else let p2 = p1\<lparr>leader := True\<rparr>
     in if \<not> fork2 then Inl 1
     else let p3 = p2\<lparr>leader := False\<rparr>;
              p4 = p3\<lparr>open_files := open_files p3 - {0..<NOFILE}\<rparr>;
              p5 = (case chdir_path of Some d \<Rightarrow> if chdir then p4\<lparr>cwd := d\<rparr> else p4 | None \<Rightarrow> p4)
     in Inr (p5\<lparr>umask := 0, chld_ignored := True\<rparr>))"

text \<open>The daemon cannot get a terminal and has no descriptors below \<open>NOFILE\<close>, standard output included.\<close>

lemma daemon_init_detached:
  assumes "daemon_init f1 s f2 c path p = Inr p'"
  shows "\<not> leader p'" "open_files p' = open_files p - {0..<NOFILE}" "umask p' = 0"
  using assms by (auto simp: daemon_init_def Let_def split: if_splits option.splits)

section \<open>Instances\<close>

text \<open>Where an instance is: before \<open>signal (SIGTERM, sig_term)\<close>, before \<open>open\<close>, between \<open>open\<close>, the two calls of
  \<open>fcntl\<close> and \<open>write\<close> with the inode of its descriptor, in the last loop with the number of bytes
  that \<open>write\<close> stored, or ended.\<close>

datatype pc = Starting | Ready | Opened nat | Checked nat | Locked nat | Running nat nat | Ended

text \<open>The inode that the name of the pid file stands for, the process that holds a lock on an inode, the
  contents of the inodes, and those in use.\<close>

record system =
  pcs :: "nat \<Rightarrow> pc"
  pid_name :: "nat option"
  locks :: "nat \<Rightarrow> nat option"
  contents :: "nat \<Rightarrow> string"
  inodes :: "nat set"

definition pid_buf :: "nat \<Rightarrow> string" where
  "pid_buf pid = snprintf_s 512 (dec pid @ [LF])"

text \<open>\<open>open (PID_FILE, O_WRONLY | O_CREAT)\<close>: an existing file keeps its contents. A failure of \<open>open\<close> or of
  \<open>fcntl\<close> ends the instance with status 1.\<close>

definition do_open :: "bool \<Rightarrow> nat \<Rightarrow> nat \<Rightarrow> system \<Rightarrow> system" where
  "do_open ok fresh p s =
    (if \<not> ok then s\<lparr>pcs := (pcs s)(p := Ended)\<rparr>
     else (case pid_name s of
         Some i \<Rightarrow> s\<lparr>pcs := (pcs s)(p := Opened i)\<rparr>
       | None \<Rightarrow> s\<lparr>pcs := (pcs s)(p := Opened fresh), pid_name := Some fresh,
           contents := (contents s)(fresh := []), inodes := insert fresh (inodes s)\<rparr>))"

text \<open>\<open>F_GETLK\<close>: the result is only compared with -1; \<open>lock\<close> then describes the whole file, whether or not there was a lock.\<close>

definition do_getlk :: "bool \<Rightarrow> nat \<Rightarrow> nat \<Rightarrow> system \<Rightarrow> system" where
  "do_getlk ok p i s = s\<lparr>pcs := (pcs s)(p := (if ok then Checked i else Ended))\<rparr>"

definition do_setlk :: "bool \<Rightarrow> nat \<Rightarrow> nat \<Rightarrow> system \<Rightarrow> system" where
  "do_setlk ok p i s =
    (if ok \<and> (locks s i = None \<or> locks s i = Some p) then s\<lparr>pcs := (pcs s)(p := Locked i), locks := (locks s)(i := Some p)\<rparr>
     else s\<lparr>pcs := (pcs s)(p := Ended)\<rparr>)"

text \<open>The result of \<open>write\<close> is not looked at: \<open>n\<close> bytes of the number are stored over the beginning of the file.\<close>

definition do_write :: "nat \<Rightarrow> nat \<Rightarrow> nat \<Rightarrow> system \<Rightarrow> system" where
  "do_write n p i s = s\<lparr>pcs := (pcs s)(p := Running i n),
     contents := (contents s)(i := take n (pid_buf p) @ drop n (contents s i))\<rparr>"

text \<open>The end of a process releases its locks. \<open>sig_term\<close> unlinks the name, whatever inode it stands for.\<close>

definition exits :: "nat \<Rightarrow> system \<Rightarrow> system" where
  "exits p s = s\<lparr>pcs := (pcs s)(p := Ended), locks := (\<lambda>i. if locks s i = Some p then None else locks s i)\<rparr>"

definition sig_term :: "nat \<Rightarrow> system \<Rightarrow> system" where
  "sig_term p s = exits p (s\<lparr>pid_name := None\<rparr>)"

inductive run_step :: "system \<Rightarrow> system \<Rightarrow> bool" where
  ready: "pcs s p = Starting \<Longrightarrow> run_step s (s\<lparr>pcs := (pcs s)(p := Ready)\<rparr>)"
| opens: "pcs s p = Ready \<Longrightarrow> fresh \<notin> inodes s \<Longrightarrow> run_step s (do_open ok fresh p s)"
| getlk: "pcs s p = Opened i \<Longrightarrow> run_step s (do_getlk ok p i s)"
| setlk: "pcs s p = Checked i \<Longrightarrow> run_step s (do_setlk ok p i s)"
| writes: "pcs s p = Locked i \<Longrightarrow> n \<le> length (pid_buf p) \<Longrightarrow> run_step s (do_write n p i s)"
| killed: "pcs s p \<noteq> Ended \<Longrightarrow> run_step s (exits p s)"

text \<open>The handler is installed in every state but the first and the last; \<open>SIGTERM\<close> in the first state is a kill.\<close>

inductive term_step :: "nat \<Rightarrow> system \<Rightarrow> system \<Rightarrow> bool" where
  "pcs s p \<noteq> Starting \<Longrightarrow> pcs s p \<noteq> Ended \<Longrightarrow> term_step p s (sig_term p s)"

definition boot_system :: "system \<Rightarrow> bool" where
  "boot_system s \<longleftrightarrow> (\<forall>p. pcs s p = Starting) \<and> locks s = Map.empty \<and> finite (inodes s) \<and>
    (\<forall>i. pid_name s = Some i \<longrightarrow> i \<in> inodes s)"

inductive sys_reach :: "system \<Rightarrow> bool" where
  boots: "boot_system s \<Longrightarrow> sys_reach s"
| runs: "sys_reach s \<Longrightarrow> run_step s s' \<Longrightarrow> sys_reach s'"
| terms: "sys_reach s \<Longrightarrow> term_step p s s' \<Longrightarrow> sys_reach s'"

section \<open>Calm runs\<close>

text \<open>\<open>SIGTERM\<close> reaches only an instance that has the lock, and at a time when no other instance has the
  file open without the lock.\<close>

fun held :: "pc \<Rightarrow> nat option" where
  "held (Locked i) = Some i"
| "held (Running i n) = Some i"
| "held c = None"

fun waited :: "pc \<Rightarrow> nat option" where
  "waited (Opened i) = Some i"
| "waited (Checked i) = Some i"
| "waited c = None"

inductive calm_reach :: "system \<Rightarrow> bool" where
  calm_boot: "boot_system s \<Longrightarrow> calm_reach s"
| calm_run: "calm_reach s \<Longrightarrow> run_step s s' \<Longrightarrow> calm_reach s'"
| calm_term: "calm_reach s \<Longrightarrow> term_step p s s' \<Longrightarrow> held (pcs s p) \<noteq> None \<Longrightarrow> \<forall>q. waited (pcs s q) = None \<Longrightarrow> calm_reach s'"

definition exclusive :: "system \<Rightarrow> bool" where
  "exclusive s \<longleftrightarrow>
    (\<forall>p i. held (pcs s p) = Some i \<longrightarrow> pid_name s = Some i) \<and>
    (\<forall>p i. waited (pcs s p) = Some i \<longrightarrow> pid_name s = Some i) \<and>
    (\<forall>p i. locks s i = Some p \<longleftrightarrow> held (pcs s p) = Some i) \<and>
    (\<forall>p i n. pcs s p = Running i n \<longrightarrow> take n (contents s i) = take n (pid_buf p)) \<and>
    (\<forall>i. pid_name s = Some i \<longrightarrow> i \<in> inodes s)"

lemma exclusiveI:
  assumes "\<And>p i. held (pcs s p) = Some i \<Longrightarrow> pid_name s = Some i" "\<And>p i. waited (pcs s p) = Some i \<Longrightarrow> pid_name s = Some i"
    and "\<And>p i. locks s i = Some p \<longleftrightarrow> held (pcs s p) = Some i"
    and "\<And>p i n. pcs s p = Running i n \<Longrightarrow> take n (contents s i) = take n (pid_buf p)"
    and "\<And>i. pid_name s = Some i \<Longrightarrow> i \<in> inodes s"
  shows "exclusive s"
  using assms by (simp add: exclusive_def)

lemma exclusiveD:
  assumes "exclusive s"
  shows "held (pcs s p) = Some i \<Longrightarrow> pid_name s = Some i" "waited (pcs s p) = Some i \<Longrightarrow> pid_name s = Some i"
    "locks s i = Some p \<longleftrightarrow> held (pcs s p) = Some i" "pcs s p = Running i n \<Longrightarrow> take n (contents s i) = take n (pid_buf p)"
    "pid_name s = Some i \<Longrightarrow> i \<in> inodes s"
  using assms unfolding exclusive_def by blast+

inductive_cases term_stepE: "term_step p s s'"

lemma exclusive_boot: "boot_system s \<Longrightarrow> exclusive s"
  by (rule exclusiveI) (simp_all add: boot_system_def)

text \<open>A step of an instance without the lock.\<close>

lemma exclusive_idle:
  assumes "exclusive s" "held (pcs s p) = None" "held c = None" "\<And>i. waited c = Some i \<Longrightarrow> pid_name s = Some i"
  shows "exclusive (s\<lparr>pcs := (pcs s)(p := c)\<rparr>)"
proof (rule exclusiveI)
  fix q i n assume "pcs (s\<lparr>pcs := (pcs s)(p := c)\<rparr>) q = Running i n"
  then show "take n (contents (s\<lparr>pcs := (pcs s)(p := c)\<rparr>) i) = take n (pid_buf q)"
    using exclusiveD(4) [OF assms(1), of q i n] assms(3) by (cases "q = p") auto
qed (use assms exclusiveD [OF assms(1)] in \<open>auto split: if_splits\<close>)

lemma exclusive_same:
  assumes "exclusive s" "held (pcs s p) = Some i" "held (pcs s q) = Some j"
  shows "p = q \<and> i = j"
proof -
  have "i = j" using exclusiveD(1) [OF assms(1,2)] exclusiveD(1) [OF assms(1,3)] by simp
  then show ?thesis using exclusiveD(3) [OF assms(1), of i p] exclusiveD(3) [OF assms(1), of i q] assms(2,3) by simp
qed

lemma exclusive_exits:
  assumes "exclusive s"
  shows "exclusive (exits p s)"
proof (rule exclusiveI)
  fix q i n assume "pcs (exits p s) q = Running i n"
  then show "take n (contents (exits p s) i) = take n (pid_buf q)"
    using exclusiveD(4) [OF assms, of q i n] by (auto simp: exits_def split: if_splits)
qed (use assms exclusiveD [OF assms] in \<open>auto simp: exits_def split: if_splits dest: exclusive_same\<close>)

lemma exclusive_open:
  assumes "exclusive s" "pcs s p = Ready" "fresh \<notin> inodes s"
  shows "exclusive (do_open ok fresh p s)"
proof (cases "ok \<and> pid_name s = None")
  case True
  then have none: "held (pcs s q) = None" "waited (pcs s q) = None" for q
    using exclusiveD(1,2) [OF assms(1), of q] by (auto intro: option.exhaust)
  moreover have "pcs s q \<noteq> Running i n" for q i n using none(1) [of q] by auto
  moreover have "locks s i = None" for i using exclusiveD(3) [OF assms(1), of i] none(1) by (cases "locks s i") auto
  ultimately show ?thesis using True by (intro exclusiveI) (auto simp: do_open_def split: if_splits)
next
  case False
  have idle: "exclusive (s\<lparr>pcs := (pcs s)(p := Ended)\<rparr>)" using exclusive_idle [OF assms(1), of p Ended] assms(2) by simp
  have op: "exclusive (s\<lparr>pcs := (pcs s)(p := Opened i)\<rparr>)" if "pid_name s = Some i" for i
    using exclusive_idle [OF assms(1), of p "Opened i"] assms(2) that by simp
  show ?thesis using False idle op by (cases "pid_name s") (auto simp: do_open_def)
qed

lemma exclusive_setlk:
  assumes "exclusive s" "pcs s p = Checked i"
  shows "exclusive (do_setlk ok p i s)"
proof (cases "ok \<and> (locks s i = None \<or> locks s i = Some p)")
  case True
  let ?s = "s\<lparr>pcs := (pcs s)(p := Locked i), locks := (locks s)(i := Some p)\<rparr>"
  have i: "pid_name s = Some i" using exclusiveD(2) [OF assms(1), of p] assms(2) by simp
  have free: "locks s i = None" using True exclusiveD(3) [OF assms(1), of i p] assms(2) by auto
  have none: "held (pcs s q) = None" for q
    using exclusiveD(1) [OF assms(1), of q] exclusiveD(3) [OF assms(1), of i q] i free by (cases "held (pcs s q)") auto
  have "exclusive ?s"
  proof (rule exclusiveI)
    fix q j n assume "pcs ?s q = Running j n"
    then show "take n (contents ?s j) = take n (pid_buf q)" using none [of q] by (auto split: if_splits)
  next
    fix q j show "locks ?s j = Some q \<longleftrightarrow> held (pcs ?s q) = Some j"
      using exclusiveD(3) [OF assms(1), of j q] none by auto
  qed (use exclusiveD [OF assms(1)] none i in \<open>auto split: if_splits\<close>)
  then show ?thesis using True by (simp add: do_setlk_def)
next
  case False
  then show ?thesis using exclusive_idle [OF assms(1), of p Ended] assms(2) by (auto simp: do_setlk_def)
qed

lemma exclusive_write:
  assumes "exclusive s" "pcs s p = Locked i" "n \<le> length (pid_buf p)"
  shows "exclusive (do_write n p i s)"
proof -
  have only: "q = p" if "held (pcs s q) = Some j" for q j using exclusive_same [OF assms(1) that, of p i] assms(2) by simp
  show ?thesis
  proof (rule exclusiveI)
    fix q j m assume r: "pcs (do_write n p i s) q = Running j m"
    have "q = p" using r only [of q j] by (auto simp: do_write_def split: if_splits)
    then show "take m (contents (do_write n p i s) j) = take m (pid_buf q)" using r assms(3) by (auto simp: do_write_def)
  next
    fix q j show "locks (do_write n p i s) j = Some q \<longleftrightarrow> held (pcs (do_write n p i s) q) = Some j"
      using exclusiveD(3) [OF assms(1), of j q] assms(2) by (auto simp: do_write_def)
  qed (use exclusiveD [OF assms(1)] exclusiveD(1) [OF assms(1), of p i] assms(2) in \<open>auto simp: do_write_def split: if_splits\<close>)
qed

lemma exclusive_run:
  assumes "run_step s s'" "exclusive s"
  shows "exclusive s'"
  using assms
proof (cases rule: run_step.cases)
  case (ready p)
  then show ?thesis using exclusive_idle [OF assms(2), of p Ready] by simp
next
  case (getlk p i ok)
  then show ?thesis using exclusive_idle [OF assms(2), of p "if ok then Checked i else Ended"] exclusiveD(2) [OF assms(2), of p i]
    by (auto simp: do_getlk_def)
qed (use assms(2) in \<open>simp_all add: exclusive_open exclusive_setlk exclusive_write exclusive_exits\<close>)

lemma exclusive_term:
  assumes "exclusive s" "held (pcs s p) \<noteq> None" "\<forall>q. waited (pcs s q) = None"
  shows "exclusive (sig_term p s)"
proof -
  obtain i where i: "held (pcs s p) = Some i" using assms(2) by blast
  have only: "held (pcs s q) = None" if "q \<noteq> p" for q
    using exclusive_same [OF assms(1) i, of q] that by (cases "held (pcs s q)") auto
  have run: "pcs s q \<noteq> Running j n" if "q \<noteq> p" for q j n using only [OF that] by auto
  show ?thesis
    using only run assms(3) exclusiveD(3) [OF assms(1)] by (intro exclusiveI) (auto simp: sig_term_def exits_def split: if_splits)
qed

lemma calm_exclusive: "calm_reach s \<Longrightarrow> exclusive s"
proof (induction rule: calm_reach.induct)
  case (calm_term s p s')
  then show ?case using exclusive_term by (auto elim: term_stepE)
qed (auto intro: exclusive_boot exclusive_run)

section \<open>Two instances\<close>

text \<open>A complete start of one instance.\<close>

definition started :: "nat \<Rightarrow> nat \<Rightarrow> system \<Rightarrow> system" where
  "started p i s = do_write (length (pid_buf p)) p i (do_setlk True p i (do_getlk True p i (do_open True i p (s\<lparr>pcs := (pcs s)(p := Ready)\<rparr>))))"

lemma started_path:
  assumes "sys_reach s" "pcs s p = Starting" "pid_name s = None" "i \<notin> inodes s" "locks s i = None"
  shows "sys_reach (started p i s)"
proof -
  let ?s1 = "s\<lparr>pcs := (pcs s)(p := Ready)\<rparr>"
  let ?s2 = "do_open True i p ?s1" let ?s3 = "do_getlk True p i ?s2" let ?s4 = "do_setlk True p i ?s3"
  have r1: "sys_reach ?s1" using sys_reach.runs [OF assms(1) ready] assms(2) by blast
  have r2: "sys_reach ?s2" using sys_reach.runs [OF r1 opens [of ?s1 p i True]] assms(4) by simp
  have r3: "sys_reach ?s3" using sys_reach.runs [OF r2 getlk [of ?s2 p i True]] assms(3) by (simp add: do_open_def)
  have r4: "sys_reach ?s4" using sys_reach.runs [OF r3 setlk [of ?s3 p i True]] by (simp add: do_getlk_def)
  have "pcs ?s4 p = Locked i" using assms(3,5) by (simp add: do_setlk_def do_getlk_def do_open_def)
  then show ?thesis unfolding started_def using sys_reach.runs [OF r4 writes] by simp
qed


text \<open>An instance \<open>q\<close> opens the file of a running instance \<open>p\<close>, which is then terminated: \<open>q\<close> gets the lock of a
  file without a name, and the next start of \<open>r\<close> creates a new file and succeeds as well.\<close>

lemma two_instances:
  assumes "distinct [p, q, r]"
  shows "\<exists>s. sys_reach s \<and> held (pcs s q) = Some 0 \<and> held (pcs s r) = Some 1"
proof -
  let ?s0 = "\<lparr>pcs = \<lambda>_. Starting, pid_name = None, locks = Map.empty, contents = \<lambda>_. [], inodes = {}\<rparr>"
  have r0: "sys_reach ?s0" by (rule sys_reach.boots) (simp add: boot_system_def)
  let ?s1 = "started p 0 ?s0"
  have r1: "sys_reach ?s1" by (rule started_path [OF r0]) simp_all
  let ?s2 = "?s1\<lparr>pcs := (pcs ?s1)(q := Ready)\<rparr>"
  have s1: "pcs ?s1 q = Starting" "pcs ?s1 r = Starting" "pcs ?s1 p = Running 0 (length (pid_buf p))" "pid_name ?s1 = Some 0" "inodes ?s1 = {0}" "locks ?s1 = [0 \<mapsto> p]"
    using assms by (simp_all add: started_def do_write_def do_setlk_def do_getlk_def do_open_def)
  have r2: "sys_reach ?s2" by (rule sys_reach.runs [OF r1 ready]) (rule s1(1))
  let ?s3 = "do_open True 7 q ?s2"
  have r3: "sys_reach ?s3" using sys_reach.runs [OF r2 opens [of ?s2 q 7 True]] s1(5) by simp
  have s3: "pcs ?s3 q = Opened 0" "pcs ?s3 r = Starting" "pcs ?s3 p = Running 0 (length (pid_buf p))" "inodes ?s3 = {0}" "locks ?s3 = [0 \<mapsto> p]"
    using assms s1 by (simp_all add: do_open_def)
  let ?s4 = "sig_term p ?s3"
  have r4: "sys_reach ?s4" using sys_reach.terms [OF r3 term_step.intros [of ?s3 p]] s3(3) by simp
  have s4: "pcs ?s4 q = Opened 0" "pcs ?s4 r = Starting" "pid_name ?s4 = None" "inodes ?s4 = {0}" "locks ?s4 = Map.empty"
    using assms s3 by (auto simp: sig_term_def exits_def fun_eq_iff)
  let ?s5 = "do_setlk True q 0 (do_getlk True q 0 ?s4)"
  have r5': "sys_reach (do_getlk True q 0 ?s4)" using sys_reach.runs [OF r4 getlk [of ?s4 q 0 True]] s4(1) by simp
  have r5: "sys_reach ?s5" using sys_reach.runs [OF r5' setlk [of "do_getlk True q 0 ?s4" q 0 True]] by (simp add: do_getlk_def)
  have s5: "pcs ?s5 q = Locked 0" "pcs ?s5 r = Starting" "pid_name ?s5 = None" "inodes ?s5 = {0}" "locks ?s5 = [0 \<mapsto> q]"
    using assms s4 by (simp_all add: do_setlk_def do_getlk_def)
  let ?s6 = "started r 1 ?s5"
  have "sys_reach ?s6" by (rule started_path [OF r5]) (simp_all add: s5)
  moreover have "pcs ?s6 q = Locked 0" "pcs ?s6 r = Running 1 (length (pid_buf r))"
    using assms s5 by (simp_all add: started_def do_write_def do_setlk_def do_getlk_def do_open_def)
  ultimately show ?thesis by (intro exI [of _ ?s6]) simp
qed

text \<open>A start with a file that an instance has left that was killed: the file is not truncated, so that what
  remains of a longer line follows the new one.\<close>

lemma calm_start:
  assumes "calm_reach s" "pcs s p = Starting" "pid_name s = Some i" "locks s i = None" "fresh \<notin> inodes s"
  shows "\<exists>t. calm_reach t \<and> held (pcs t p) = Some i \<and> contents t i = pid_buf p @ drop (length (pid_buf p)) (contents s i)"
proof -
  let ?s1 = "s\<lparr>pcs := (pcs s)(p := Ready)\<rparr>"
  let ?s2 = "do_open True fresh p ?s1" let ?s3 = "do_getlk True p i ?s2" let ?s4 = "do_setlk True p i ?s3"
  let ?t = "do_write (length (pid_buf p)) p i ?s4"
  have r1: "calm_reach ?s1" using calm_reach.calm_run [OF assms(1) ready] assms(2) by blast
  have r2: "calm_reach ?s2" using calm_reach.calm_run [OF r1 opens [of ?s1 p fresh True]] assms(5) by simp
  have r3: "calm_reach ?s3" using calm_reach.calm_run [OF r2 getlk [of ?s2 p i True]] assms(3) by (simp add: do_open_def)
  have r4: "calm_reach ?s4" using calm_reach.calm_run [OF r3 setlk [of ?s3 p i True]] by (simp add: do_getlk_def)
  have "pcs ?s4 p = Locked i" using assms(3,4) by (simp add: do_setlk_def do_getlk_def do_open_def)
  then have "calm_reach ?t" using calm_reach.calm_run [OF r4 writes] by simp
  moreover have "held (pcs ?t p) = Some i" "contents ?t i = pid_buf p @ drop (length (pid_buf p)) (contents s i)"
    using assms(3,4) by (simp_all add: do_write_def do_setlk_def do_getlk_def do_open_def)
  ultimately show ?thesis by blast
qed

lemma stale_pid: "\<exists>s. calm_reach s \<and> held (pcs s 99) = Some 0 \<and> contents s 0 = ''99'' @ [LF] @ ''45'' @ [LF]"
proof -
  let ?s = "\<lparr>pcs = \<lambda>_. Starting, pid_name = Some 0, locks = Map.empty, contents = \<lambda>_. ''12345'' @ [LF], inodes = {0}\<rparr>"
  have "calm_reach ?s" by (rule calm_reach.calm_boot) (simp add: boot_system_def)
  moreover have "pid_buf 99 = ''99'' @ [LF]" by (simp add: pid_buf_def snprintf_s_def dec.simps char_of_def bit_0)
  ultimately show ?thesis using calm_start [of ?s 99 0 1] by simp
qed

section \<open>Properties\<close>



end
