(* ===== verification/Ctio.thy ===== *)
theory Ctio
  imports Prelude "HOL-Library.Sublist"
begin

text \<open>
  Model of \<^verbatim>\<open>samples/ctproxy/ctio.c\<close>: reading and writing a descriptor in loops over \<open>select\<close>. What the
  kernel answers is a script, one \<open>round\<close> per turn of a loop: the result of \<open>select\<close>, the value of
  \<open>errno\<close> after it, the clock, whether the descriptor is in the returned set, and the result of the
  \<open>read\<close> or \<open>write\<close> that follows. A call that a turn does not make leaves its field unused. A script
  that is over before the function returns leaves it \<open>Waiting\<close>; an access outside a buffer is \<open>Undef\<close>.
  The kernel transfers at most as many bytes as it is asked for, and at most 2147479552 in one call
  (\<open>read (2)\<close>), so that its result fits an \<open>int\<close>. Log messages are left out.
\<close>

section \<open>The kernel\<close>

datatype errno = EBADF | EINTR | EAGAIN | EWOULDBLOCK | EOTHER

datatype rd_res = Bytes "byte list" | Rd_err errno
datatype wr_res = Wrote nat | Wr_err errno

record 'a round =
  s_cnt :: int
  s_errno :: errno
  s_now :: int
  s_isset :: bool
  s_io :: 'a
  s_after :: int

datatype ('w, 'r) outcome = Undef | Waiting 'w | Ret 'r

definition RW_MAX :: nat where "RW_MAX = 2147479552"

section \<open>\<open>safe_read\<close>\<close>

primrec safe_read_loop ::
  "rd_res round list \<Rightarrow> nat \<Rightarrow> int \<Rightarrow> nat \<Rightarrow> byte list \<Rightarrow> int \<Rightarrow>
    (byte list \<times> int, u64 \<times> byte list \<times> int \<times> rd_res round list) outcome" where
  "safe_read_loop [] len timeout_seconds got buf last_read_time = Waiting (buf, last_read_time)"
| "safe_read_loop (r # rs) len timeout_seconds got buf last_read_time =
    (if s_cnt r \<le> 0 then
       if s_cnt r < 0 \<and> s_errno r = EBADF then Ret (-1, buf, last_read_time, rs)
       else if s_now r - last_read_time > timeout_seconds then Ret (-2, buf, last_read_time, rs)
       else safe_read_loop rs len timeout_seconds got buf last_read_time
     else if s_isset r then
       (case s_io r of
          Rd_err e \<Rightarrow>
            if e = EINTR then safe_read_loop rs len timeout_seconds got buf (s_after r)
            else Ret (-1, buf, s_after r, rs)
        | Bytes bs \<Rightarrow>
            let n = min (length bs) (min (len - got) RW_MAX)
            in (case memcpy buf got (take n bs) of
                  None \<Rightarrow> Undef
                | Some buf' \<Rightarrow>
                    if n = 0 then Ret (of_nat got, buf', s_after r, rs)
                    else if got + n = len then Ret (of_nat (got + n), buf', s_after r, rs)
                    else safe_read_loop rs len timeout_seconds (got + n) buf' (s_after r)))
     else safe_read_loop rs len timeout_seconds got buf last_read_time)"

definition safe_read where
  "safe_read rs buf len timeout_seconds last_read_time = safe_read_loop rs len timeout_seconds 0 buf last_read_time"

section \<open>\<open>safe_write\<close>\<close>

text \<open>The function ends without a \<open>return\<close> statement after its loop; the caller then reads whatever the
  return register holds, the parameter \<open>junk\<close>. The result carries the bytes the kernel has taken, in
  their order.\<close>

primrec safe_write_loop ::
  "u64 \<Rightarrow> wr_res round list \<Rightarrow> byte list \<Rightarrow> int \<Rightarrow> int \<Rightarrow> byte list \<Rightarrow>
    (byte list \<times> int, u64 \<times> byte list \<times> int \<times> wr_res round list) outcome" where
  "safe_write_loop junk [] buf timeout_seconds last_write_time out =
    (if buf = [] then Ret (junk, out, last_write_time, []) else Waiting (out, last_write_time))"
| "safe_write_loop junk (r # rs) buf timeout_seconds last_write_time out =
    (if buf = [] then Ret (junk, out, last_write_time, r # rs)
     else if s_cnt r \<le> 0 then
       if s_cnt r < 0 \<and> s_errno r = EBADF then Ret (-1, out, last_write_time, rs)
       else if s_now r - last_write_time > timeout_seconds then Ret (-2, out, last_write_time, rs)
       else safe_write_loop junk rs buf timeout_seconds last_write_time out
     else if s_isset r then
       (case s_io r of
          Wr_err e \<Rightarrow>
            if e = EINTR then safe_write_loop junk rs buf timeout_seconds (s_after r) out
            else Ret (-1, out, s_after r, rs)
        | Wrote k \<Rightarrow>
            let n = min k (min (length buf) RW_MAX)
            in safe_write_loop junk rs (drop n buf) timeout_seconds (s_after r) (out @ take n buf))
     else safe_write_loop junk rs buf timeout_seconds last_write_time out)"

record wr_script =
  w_first :: wr_res
  w_time :: int
  w_rounds :: "wr_res round list"
  w_junk :: u64

definition safe_write where
  "safe_write w buf timeout_seconds =
    (case w_first w of
       Wr_err e \<Rightarrow>
         if e \<noteq> EINTR \<and> e \<noteq> EWOULDBLOCK \<and> e \<noteq> EAGAIN then Ret (-1, [], w_time w, w_rounds w)
         else safe_write_loop (w_junk w) (w_rounds w) buf timeout_seconds (w_time w) []
     | Wrote k \<Rightarrow>
         let n = min k (min (length buf) RW_MAX)
         in if n = length buf then Ret (of_nat n, take n buf, w_time w, w_rounds w)
            else safe_write_loop (w_junk w) (w_rounds w) (drop n buf) timeout_seconds (w_time w) (take n buf))"

section \<open>\<open>read_line\<close>\<close>

lemma safe_read_consumes: "safe_read rs buf len t l = Ret (r, b, l', rest) \<Longrightarrow> length rest < length rs"
proof -
  have "safe_read_loop rs len t got buf l = Ret (r, b, l', rest) \<Longrightarrow> length rest < length rs" for got
    by (induction rs arbitrary: got buf l) (auto simp: Let_def less_Suc_eq split: if_splits rd_res.splits option.splits)
  then show "safe_read rs buf len t l = Ret (r, b, l', rest) \<Longrightarrow> length rest < length rs" by (simp add: safe_read_def)
qed

text \<open>\<open>buf\<close> is the whole buffer, \<open>p\<close> the position the pointer has reached and \<open>bufsiz\<close> the room left, a
  \<open>size_t\<close>. Only the result 0 of \<open>safe_read\<close> counts as a failure: after -1 and -2 the byte that happens
  to be in the buffer is examined.\<close>

function read_line_loop ::
  "rd_res round list \<Rightarrow> byte list \<Rightarrow> nat \<Rightarrow> u64 \<Rightarrow> int \<Rightarrow> int \<Rightarrow>
    (byte list \<times> int, int \<times> byte list \<times> int \<times> rd_res round list) outcome" where
  "read_line_loop rs buf p bufsiz rtimeout last_read_time =
    (if bufsiz > 0 then
       (case safe_read rs (drop p buf) 1 rtimeout last_read_time of
          Undef \<Rightarrow> Undef
        | Waiting (b, l) \<Rightarrow> Waiting (take p buf @ b, l)
        | Ret (r, b, l, rest) \<Rightarrow>
            if r = 0 then Ret (0, take p buf @ b, l, rest)
            else (case b of
                [] \<Rightarrow> Undef
              | c # b' \<Rightarrow>
                  if c = 0 then Ret (0, take p buf @ b, l, rest)
                  else if c = 10 then Ret (1, take p buf @ 0 # b', l, rest)
                  else if c \<noteq> 13 then read_line_loop rest (take p buf @ b) (p + 1) (bufsiz - 1) rtimeout l
                  else read_line_loop rest (take p buf @ b) p bufsiz rtimeout l))
     else (case wr buf p 0 of None \<Rightarrow> Undef | Some buf' \<Rightarrow> Ret (0, buf', last_read_time, rs)))"
  by pat_completeness auto
termination by (relation "measure (\<lambda>(rs, buf, p, bufsiz, t, l). length rs)") (auto simp: safe_read_consumes)

definition read_line where
  "read_line rs buf bufsiz rtimeout last_read_time = read_line_loop rs buf 0 (bufsiz - 1) rtimeout last_read_time"

section \<open>Specification of reading\<close>

text \<open>A round that delivers bytes, one after which the loop just goes on, and the time of the last \<open>read\<close>.\<close>

definition gives :: "rd_res round \<Rightarrow> byte list \<Rightarrow> bool" where
  "gives r bs = (0 < s_cnt r \<and> s_isset r \<and> s_io r = Bytes bs)"

definition reads :: "'a round \<Rightarrow> bool" where
  "reads r = (0 < s_cnt r \<and> s_isset r)"

definition tick :: "'a round \<Rightarrow> int \<Rightarrow> int" where
  "tick r l = (if reads r then s_after r else l)"

definition calm :: "int \<Rightarrow> int \<Rightarrow> rd_res round \<Rightarrow> bool" where
  "calm t l r =
    (if s_cnt r \<le> 0 then (s_cnt r < 0 \<longrightarrow> s_errno r \<noteq> EBADF) \<and> s_now r - l \<le> t
     else s_isset r \<longrightarrow> s_io r = Rd_err EINTR \<or> (\<exists>bs. s_io r = Bytes bs \<and> bs \<noteq> [] \<and> length bs \<le> RW_MAX))"

primrec patient :: "int \<Rightarrow> int \<Rightarrow> rd_res round list \<Rightarrow> bool" where
  "patient t l [] = True"
| "patient t l (r # rs) = (calm t l r \<and> patient t (tick r l) rs)"

definition chunk :: "rd_res round \<Rightarrow> byte list" where
  "chunk r = (if reads r then (case s_io r of Bytes bs \<Rightarrow> bs | Rd_err _ \<Rightarrow> []) else [])"

definition arrived :: "rd_res round list \<Rightarrow> byte list" where
  "arrived rs = concat (map chunk rs)"

definition clock :: "'a round list \<Rightarrow> int \<Rightarrow> int" where
  "clock rs l = fold tick rs l"

lemma arrived_simps [simp]: "arrived [] = []" "arrived (r # rs) = chunk r @ arrived rs"
  by (simp_all add: arrived_def)

lemma clock_simps [simp]: "clock [] l = l" "clock (r # rs) l = clock rs (tick r l)"
  by (simp_all add: clock_def)

lemma calm_cases:
  assumes "calm t l r"
  obtains (idle) "chunk r = []" "\<And>len got buf rs. safe_read_loop (r # rs) len t got buf l = safe_read_loop rs len t got buf (tick r l)"
  | (data) "gives r (chunk r)" "chunk r \<noteq> []" "length (chunk r) \<le> RW_MAX" "tick r l = s_after r"
proof (cases "\<exists>bs. gives r bs")
  case True
  then show ?thesis using assms by (intro data) (auto simp: gives_def chunk_def reads_def tick_def calm_def)
next
  case False
  then show ?thesis using assms
    by (intro idle) (auto simp: gives_def chunk_def reads_def tick_def calm_def split: rd_res.splits if_splits)
qed

lemma safe_read_data:
  assumes "gives r bs" "length bs \<le> RW_MAX" "got + length bs < len" "length pre = got" "length bs \<le> length b" "bs \<noteq> []"
  shows "safe_read_loop (r # rs) len t got (pre @ b) l = safe_read_loop rs len t (got + length bs) ((pre @ bs) @ drop (length bs) b) (s_after r)"
proof -
  have "min (length bs) (min (len - got) RW_MAX) = length bs" using assms(2,3) by simp
  then show ?thesis using assms by (auto simp: gives_def Let_def)
qed

lemma safe_read_patient:
  assumes "patient t l rs" "got + length (arrived rs) < len" "length pre = got" "length (arrived rs) \<le> length b"
  shows "safe_read_loop (rs @ ys) len t got (pre @ b) l
    = safe_read_loop ys len t (got + length (arrived rs)) (pre @ arrived rs @ drop (length (arrived rs)) b) (clock rs l)"
  using assms
proof (induction rs arbitrary: l got pre b)
  case (Cons r rs)
  from Cons.prems(1) have "calm t l r" "patient t (tick r l) rs" by simp_all
  then show ?case
  proof (cases rule: calm_cases [case_names idle data])
    case idle
    then show ?thesis using Cons.IH [of "tick r l" got pre b] Cons.prems by simp
  next
    case data
    have "safe_read_loop (r # (rs @ ys)) len t got (pre @ b) l
        = safe_read_loop (rs @ ys) len t (got + length (chunk r)) ((pre @ chunk r) @ drop (length (chunk r)) b) (s_after r)"
      using data Cons.prems by (intro safe_read_data) auto
    then show ?thesis
      using Cons.IH [of "s_after r" "got + length (chunk r)" "pre @ chunk r" "drop (length (chunk r)) b"] Cons.prems data
      by (simp add: add.commute add.left_commute)
  qed
qed simp

lemma safe_read_full:
  assumes "patient t l rs" "got < len" "len \<le> got + length (arrived rs)" "length pre = got" "len - got \<le> length b"
  shows "\<exists>l' rest. safe_read_loop (rs @ ys) len t got (pre @ b) l = Ret (of_nat len, pre @ take (len - got) (arrived rs) @ drop (len - got) b, l', rest @ ys)
     \<and> (\<exists>us. rs = us @ rest)"
  using assms
proof (induction rs arbitrary: l got pre b)
  case (Cons r rs)
  from Cons.prems(1) have "calm t l r" and p: "patient t (tick r l) rs" by simp_all
  then show ?case
  proof (cases rule: calm_cases [case_names idle data])
    case idle
    have "\<exists>l' rest. safe_read_loop (rs @ ys) len t got (pre @ b) (tick r l) = Ret (of_nat len, pre @ take (len - got) (arrived rs) @ drop (len - got) b, l', rest @ ys)
        \<and> (\<exists>us. rs = us @ rest)"
      using Cons.prems idle(1) p by (intro Cons.IH) auto
    then show ?thesis using idle by (metis append_Cons arrived_simps(2) append_Nil)
  next
    case data
    show ?thesis
    proof (cases "got + length (chunk r) < len")
      case True
      have e: "safe_read_loop (r # (rs @ ys)) len t got (pre @ b) l
          = safe_read_loop (rs @ ys) len t (got + length (chunk r)) ((pre @ chunk r) @ drop (length (chunk r)) b) (s_after r)"
        using data Cons.prems True by (intro safe_read_data) auto
      have "\<exists>l' rest. safe_read_loop (rs @ ys) len t (got + length (chunk r)) ((pre @ chunk r) @ drop (length (chunk r)) b) (s_after r)
          = Ret (of_nat len, (pre @ chunk r) @ take (len - (got + length (chunk r))) (arrived rs) @ drop (len - (got + length (chunk r))) (drop (length (chunk r)) b), l', rest @ ys)
          \<and> (\<exists>us. rs = us @ rest)"
        using Cons.prems data True p by (intro Cons.IH) auto
      then show ?thesis using e True by (auto simp: Cons_eq_append_conv)
    next
      case False
      have n: "min (length (chunk r)) (min (len - got) RW_MAX) = len - got" using False data(3) by simp
      have "safe_read_loop (r # (rs @ ys)) len t got (pre @ b) l = Ret (of_nat len, pre @ take (len - got) (chunk r) @ drop (len - got) b, s_after r, rs @ ys)"
        using data(1) Cons.prems(2-5) False n by (auto simp: gives_def Let_def)
      moreover have "take (len - got) (chunk r) = take (len - got) (arrived (r # rs))" using False by simp
      ultimately show ?thesis by (metis append_Cons append_Nil)
    qed
  qed
qed simp


text \<open>Ends of the loop: end of file, a failure of the descriptor, and no activity for too long.\<close>

definition at_eof :: "rd_res round \<Rightarrow> bool" where
  "at_eof r = gives r []"

definition breaks :: "rd_res round \<Rightarrow> bool" where
  "breaks r = (s_cnt r < 0 \<and> s_errno r = EBADF \<or> (\<exists>e. reads r \<and> s_io r = Rd_err e \<and> e \<noteq> EINTR))"

definition expired :: "int \<Rightarrow> int \<Rightarrow> 'a round \<Rightarrow> bool" where
  "expired t l r = (s_cnt r \<le> 0 \<and> \<not> (s_cnt r < 0 \<and> s_errno r = EBADF) \<and> t < s_now r - l)"

text \<open>C24: \<open>safe_read\<close> on every course of events. While the rounds are patient (interruptions, empty
  wake-ups, pauses within the time limit, data) it collects what arrives: as soon as \<open>len\<close> bytes have
  arrived it returns \<open>len\<close> with exactly the first \<open>len\<close> of them in the buffer and the rest of the buffer
  unchanged; before that, end of file makes it return the number of bytes so far, a failure -1 and an
  expired time limit -2, each with the bytes so far in the buffer; otherwise it waits.\<close>

theorem safe_read_correct:
  assumes "patient t l rs" "0 < len" "len \<le> length buf"
  shows "(len \<le> length (arrived rs) \<longrightarrow>
      (\<exists>l' rest. safe_read (rs @ ys) buf len t l = Ret (of_nat len, take len (arrived rs) @ drop len buf, l', rest @ ys) \<and> suffix rest rs)) \<and>
    (length (arrived rs) < len \<longrightarrow>
      (let b = arrived rs @ drop (length (arrived rs)) buf
       in safe_read rs buf len t l = Waiting (b, clock rs l) \<and>
          (at_eof r \<longrightarrow> safe_read (rs @ r # ys) buf len t l = Ret (of_nat (length (arrived rs)), b, s_after r, ys)) \<and>
          (breaks r \<longrightarrow> (\<exists>l'. safe_read (rs @ r # ys) buf len t l = Ret (-1, b, l', ys))) \<and>
          (expired t (clock rs l) r \<longrightarrow> safe_read (rs @ r # ys) buf len t l = Ret (-2, b, clock rs l, ys))))"
proof (cases "len \<le> length (arrived rs)")
  case True
  then show ?thesis using safe_read_full [OF assms(1), of 0 len "[]" buf ys] assms(2,3) by (auto simp: safe_read_def suffix_def)
next
  case False
  let ?a = "arrived rs"
  have e: "safe_read (rs @ ys) buf len t l = safe_read_loop ys len t (length ?a) (?a @ drop (length ?a) buf) (clock rs l)" for ys
    using safe_read_patient [OF assms(1), of 0 len "[]" buf ys] False assms(3) by (simp add: safe_read_def)
  show ?thesis
    using False e [of "[]"] assms(3)
    by (auto simp: e Let_def at_eof_def gives_def breaks_def reads_def expired_def)
qed

theorem safe_read_correct_witness:
  "let r = (\<lambda>c e i. \<lparr>s_cnt = c, s_errno = EINTR, s_now = 102, s_isset = True, s_io = e, s_after = i\<rparr>);
       rs = [r 1 (Bytes [1, 2]) 100, r (-1) (Bytes []) 0, r 1 (Rd_err EINTR) 101, r 1 (Bytes [3]) 102]
   in safe_read (rs @ [r 1 (Bytes []) 103]) [9, 9, 9, 9] 4 5 100 = Ret (3, [1, 2, 3, 9], 103, [])"
proof -
  let ?r = "\<lambda>c e i. \<lparr>s_cnt = c, s_errno = EINTR, s_now = 102, s_isset = True, s_io = e, s_after = i\<rparr>"
  let ?rs = "[?r 1 (Bytes [1, 2]) 100, ?r (-1) (Bytes []) 0, ?r 1 (Rd_err EINTR) 101, ?r 1 (Bytes [3]) 102]"
  have a: "arrived ?rs = [1, 2, 3]" by (simp add: chunk_def reads_def)
  have "patient 5 100 ?rs" by (simp add: calm_def tick_def reads_def RW_MAX_def)
  moreover have "at_eof (?r 1 (Bytes []) 103)" by (simp add: at_eof_def gives_def)
  ultimately show ?thesis
    using safe_read_correct [of 5 100 ?rs 4 "[9, 9, 9, 9]" "[]" "?r 1 (Bytes []) 103"] by (simp add: a Let_def del: arrived_simps append.simps)
qed

section \<open>Specification of writing\<close>

text \<open>What a relay may rely on when it hands bytes to a writer: the bytes taken are a beginning of those
  offered, and success means that all of them were taken. The second component of the result is
  \<open>None\<close> while the writer waits and otherwise tells whether it reports success.\<close>

locale writer =
  fixes send :: "'w \<Rightarrow> byte list \<Rightarrow> byte list \<times> bool option"
  assumes taken: "prefix (fst (send w bs)) bs"
    and complete: "snd (send w bs) = Some True \<Longrightarrow> fst (send w bs) = bs"
begin

text \<open>A relay that was in step before is still in order, and in step again after a success.\<close>

lemma passed_on: "prefix (pre @ fst (send w bs)) (pre @ bs)"
  and passed_all: "snd (send w bs) = Some True \<Longrightarrow> pre @ fst (send w bs) = pre @ bs"
  using taken complete by auto

end

definition accepts :: "wr_res round \<Rightarrow> nat" where
  "accepts r = (if reads r then (case s_io r of Wrote k \<Rightarrow> min k RW_MAX | Wr_err _ \<Rightarrow> 0) else 0)"

definition calm_w :: "int \<Rightarrow> int \<Rightarrow> wr_res round \<Rightarrow> bool" where
  "calm_w t l r =
    (if s_cnt r \<le> 0 then (s_cnt r < 0 \<longrightarrow> s_errno r \<noteq> EBADF) \<and> s_now r - l \<le> t
     else s_isset r \<longrightarrow> s_io r = Wr_err EINTR \<or> (\<exists>k. s_io r = Wrote k))"

primrec patient_w :: "int \<Rightarrow> int \<Rightarrow> wr_res round list \<Rightarrow> bool" where
  "patient_w t l [] = True"
| "patient_w t l (r # rs) = (calm_w t l r \<and> patient_w t (tick r l) rs)"

definition capacity :: "wr_res round list \<Rightarrow> nat" where
  "capacity rs = sum_list (map accepts rs)"

text \<open>What the first \<open>write\<close> takes, and whether it lets the function go on.\<close>

definition first_taken :: "wr_script \<Rightarrow> nat" where
  "first_taken w = (case w_first w of Wrote k \<Rightarrow> min k RW_MAX | Wr_err _ \<Rightarrow> 0)"

definition first_ok :: "wr_script \<Rightarrow> bool" where
  "first_ok w = (case w_first w of Wrote _ \<Rightarrow> True | Wr_err e \<Rightarrow> e = EINTR \<or> e = EWOULDBLOCK \<or> e = EAGAIN)"

lemma safe_write_loop_spec:
  "case safe_write_loop junk rs buf t l out of
     Undef \<Rightarrow> False
   | Waiting (o', _) \<Rightarrow> strict_prefix o' (out @ buf)
   | Ret (r, o', _, _) \<Rightarrow> prefix o' (out @ buf) \<and> (o' \<noteq> out @ buf \<longrightarrow> r = -1 \<or> r = -2) \<and> (o' = out @ buf \<longrightarrow> r = junk)"
proof (induction rs arbitrary: buf l out)
  case (Cons r rs)
  have e: "(out @ take n buf) @ drop n buf = out @ buf" for n by simp
  show ?case
    using Cons.IH [of out buf l] Cons.IH [of out buf "s_after r"]
      Cons.IH [of "out @ take n buf" "drop n buf" "s_after r" for n, unfolded e]
    by (auto simp: Let_def split: wr_res.split)
qed (auto simp: strict_prefix_def)

lemma calm_w_cases:
  assumes "calm_w t l r" "buf \<noteq> []"
  shows "safe_write_loop junk (r # rs) buf t l out
    = safe_write_loop junk rs (drop (min (accepts r) (length buf)) buf) t (tick r l) (out @ take (min (accepts r) (length buf)) buf)"
proof -
  have "min k (min n RW_MAX) = min (min k RW_MAX) n" for k n :: nat by simp
  then show ?thesis using assms
    by (auto simp: calm_w_def accepts_def reads_def tick_def Let_def)
qed

lemma safe_write_loop_completes:
  assumes "patient_w t l rs" "length buf \<le> capacity rs"
  shows "\<exists>l' rest. safe_write_loop junk rs buf t l out = Ret (junk, out @ buf, l', rest)"
  using assms
proof (induction rs arbitrary: buf l out)
  case (Cons r rs)
  show ?case
  proof (cases "buf = []")
    case False
    let ?n = "min (accepts r) (length buf)"
    have "\<exists>l' rest. safe_write_loop junk rs (drop ?n buf) t (tick r l) (out @ take ?n buf) = Ret (junk, (out @ take ?n buf) @ drop ?n buf, l', rest)"
      using Cons.prems by (intro Cons.IH) (auto simp: capacity_def)
    then show ?thesis using Cons.prems(1) False calm_w_cases [of t l r buf junk rs out] by simp
  qed simp
qed (simp add: capacity_def)

lemma safe_write_split:
  assumes "first_ok w"
  shows "safe_write w buf t =
    (let n = min (first_taken w) (length buf)
     in if n = length buf \<and> w_first w \<in> range Wrote then Ret (of_nat n, buf, w_time w, w_rounds w)
        else safe_write_loop (w_junk w) (w_rounds w) (drop n buf) t (w_time w) (take n buf))"
proof -
  have "min k (min n RW_MAX) = min (min k RW_MAX) n" for k n :: nat by simp
  then show ?thesis using assms
    by (auto simp: safe_write_def first_ok_def first_taken_def Let_def split: wr_res.splits)
qed

lemma safe_write_spec:
  "case safe_write w buf t of
     Undef \<Rightarrow> False
   | Waiting (out, _) \<Rightarrow> strict_prefix out buf
   | Ret (r, out, _, _) \<Rightarrow> prefix out buf \<and> (out \<noteq> buf \<longrightarrow> r = -1 \<or> r = -2) \<and>
       (out = buf \<longrightarrow> buf \<noteq> [] \<longrightarrow> r = (if length buf \<le> first_taken w then of_nat (length buf) else w_junk w))"
proof (cases "first_ok w")
  case False
  then show ?thesis by (auto simp: first_ok_def safe_write_def split: wr_res.splits)
next
  case True
  let ?n = "min (first_taken w) (length buf)"
  show ?thesis
  proof (cases "?n = length buf \<and> w_first w \<in> range Wrote")
    case yes: True
    then show ?thesis using safe_write_split [OF True, of buf t] by auto
  next
    case no: False
    have le: "\<not> length buf \<le> first_taken w" if "buf \<noteq> []"
      using no that True by (cases "w_first w") (auto simp: first_taken_def first_ok_def)
    have eq: "safe_write w buf t = safe_write_loop (w_junk w) (w_rounds w) (drop ?n buf) t (w_time w) (take ?n buf)"
      using no safe_write_split [OF True, of buf t] by (simp only: Let_def if_False)
    note safe_write_loop_spec [where out = "take ?n buf" and buf = "drop ?n buf" and junk = "w_junk w" and rs = "w_rounds w" and t = t and l = "w_time w",
      unfolded append_take_drop_id, folded eq]
    then show ?thesis using le by (cases "safe_write w buf t") auto
  qed
qed

text \<open>C25: \<open>safe_write\<close> never reorders, drops or repeats bytes: whatever the kernel answers, the bytes it
  has taken are a beginning of the buffer, a proper one as long as the function waits. When it
  returns with bytes left the result is -1 or -2, and when it returns with a non-empty buffer written
  the result is the length if the first \<open>write\<close> took everything, and otherwise the indeterminate
  value of a function that ends without \<open>return\<close>.\<close>

theorem safe_write_correct:
  "case safe_write w buf t of
     Undef \<Rightarrow> False
   | Waiting (out, _) \<Rightarrow> strict_prefix out buf
   | Ret (r, out, _, _) \<Rightarrow> prefix out buf \<and> (out \<noteq> buf \<longrightarrow> r = -1 \<or> r = -2) \<and>
       (out = buf \<longrightarrow> buf \<noteq> [] \<longrightarrow> r = (if length buf \<le> first_taken w then of_nat (length buf) else w_junk w))"
  by (rule safe_write_spec)

lemma safe_write_done:
  assumes "first_ok w" "patient_w t (w_time w) (w_rounds w)" "length buf \<le> first_taken w + capacity (w_rounds w)"
  shows "\<exists>r l rest. safe_write w buf t = Ret (r, buf, l, rest) \<and> (r = of_nat (length buf) \<or> r = w_junk w)"
proof -
  let ?n = "min (first_taken w) (length buf)"
  have "\<exists>l' rest. safe_write_loop (w_junk w) (w_rounds w) (drop ?n buf) t (w_time w) (take ?n buf)
      = Ret (w_junk w, take ?n buf @ drop ?n buf, l', rest)"
    using assms(2,3) by (intro safe_write_loop_completes) auto
  then show ?thesis using safe_write_split [OF assms(1), of buf t] by (auto simp: Let_def)
qed


text \<open>\<open>safe_write\<close> delivers. If the first \<open>write\<close> does not fail for good, the rounds of the loop are
  patient and together they accept as many bytes as are left, the function returns and the whole
  buffer has been taken, in whatever portions.\<close>

theorem safe_write_completes:
  assumes "first_ok w" "patient_w t (w_time w) (w_rounds w)" "length buf \<le> first_taken w + capacity (w_rounds w)"
  shows "\<exists>r l rest. safe_write w buf t = Ret (r, buf, l, rest) \<and> (r = of_nat (length buf) \<or> r = w_junk w)"
  by (rule safe_write_done [OF assms])

theorem safe_write_correct_witness:
  "let r = (\<lambda>e. \<lparr>s_cnt = 1, s_errno = EINTR, s_now = 101, s_isset = True, s_io = e, s_after = 101\<rparr>)
   in \<exists>v l rest. safe_write \<lparr>w_first = Wrote 1, w_time = 100, w_rounds = [r (Wrote 1), r (Wr_err EINTR), r (Wrote 5)], w_junk = 77\<rparr> [1, 2, 3] 5
        = Ret (v, [1, 2, 3], l, rest) \<and> v = 77"
  unfolding Let_def
proof -
  let ?r = "\<lambda>e. \<lparr>s_cnt = 1, s_errno = EINTR, s_now = 101, s_isset = True, s_io = e, s_after = 101\<rparr>"
  let ?w = "\<lparr>w_first = Wrote 1, w_time = 100, w_rounds = [?r (Wrote 1), ?r (Wr_err EINTR), ?r (Wrote 5)], w_junk = 77\<rparr>"
  have "safe_write ?w [1, 2, 3] 5 = Ret (77, [1, 2, 3], 101, [])" by (simp add: safe_write_def Let_def RW_MAX_def)
  then show "\<exists>v l rest. safe_write ?w [1, 2, 3] 5 = Ret (v, [1, 2, 3], l, rest) \<and> v = 77"
    using safe_write_correct [where w = ?w and buf = "[1, 2, 3]" and t = 5] by (simp add: first_taken_def RW_MAX_def)
qed

theorem safe_write_completes_witness:
  "let r = (\<lambda>e. \<lparr>s_cnt = 1, s_errno = EINTR, s_now = 101, s_isset = True, s_io = e, s_after = 101\<rparr>)
   in \<exists>v l rest. safe_write \<lparr>w_first = Wr_err EAGAIN, w_time = 100, w_rounds = [r (Wrote 2), r (Wr_err EINTR), r (Wrote 1)], w_junk = 0\<rparr> [1, 2, 3] 5
        = Ret (v, [1, 2, 3], l, rest)"
  unfolding Let_def
proof -
  let ?r = "\<lambda>e. \<lparr>s_cnt = 1, s_errno = EINTR, s_now = 101, s_isset = True, s_io = e, s_after = 101\<rparr>"
  let ?w = "\<lparr>w_first = Wr_err EAGAIN, w_time = 100, w_rounds = [?r (Wrote 2), ?r (Wr_err EINTR), ?r (Wrote 1)], w_junk = 0\<rparr>"
  have "first_ok ?w" "first_taken ?w = 0" by (simp_all add: first_ok_def first_taken_def)
  moreover have "patient_w 5 100 (w_rounds ?w)" "capacity (w_rounds ?w) = 3"
    by (simp_all add: calm_w_def tick_def reads_def capacity_def accepts_def RW_MAX_def)
  ultimately show "\<exists>v l rest. safe_write ?w [1, 2, 3] 5 = Ret (v, [1, 2, 3], l, rest)"
    using safe_write_completes [of ?w 5 "[1, 2, 3]"] by auto
qed

section \<open>Specification of \<open>read_line\<close>\<close>

text \<open>A descriptor that delivers single bytes: each call of \<open>safe_read\<close> sees some rounds without data
  and one with a byte.\<close>

type_synonym call = "rd_res round list \<times> rd_res round"

definition script :: "call list \<Rightarrow> rd_res round list" where
  "script cs = concat (map (\<lambda>(i, r). i @ [r]) cs)"

definition typed :: "call list \<Rightarrow> byte list" where
  "typed cs = map (\<lambda>(i, r). hd (chunk r)) cs"

primrec prompt :: "int \<Rightarrow> int \<Rightarrow> call list \<Rightarrow> bool" where
  "prompt t l [] = True"
| "prompt t l (c # cs) = (case c of (i, r) \<Rightarrow>
    patient t l i \<and> arrived i = [] \<and> (\<exists>b. gives r [b]) \<and> prompt t (s_after r) cs)"

primrec ended :: "int \<Rightarrow> call list \<Rightarrow> int" where
  "ended l [] = l"
| "ended l (c # cs) = ended (s_after (snd c)) cs"

lemma script_Cons [simp]: "script [] = []" "script ((i, r) # cs) = i @ r # script cs"
  by (simp_all add: script_def)

lemma typed_Cons [simp]: "typed [] = []" "typed ((i, r) # cs) = hd (chunk r) # typed cs"
  by (simp_all add: typed_def)

text \<open>The line as \<open>read_line\<close> stores it: without carriage returns.\<close>

definition stripped :: "call list \<Rightarrow> byte list" where
  "stripped cs = filter (\<lambda>c. c \<noteq> 13) (typed cs)"

lemma stripped_Cons [simp]:
  "stripped [] = []" "stripped ((i, r) # cs) = (if hd (chunk r) = 13 then stripped cs else hd (chunk r) # stripped cs)"
  by (simp_all add: stripped_def)

lemma safe_read_byte:
  assumes "patient t l i" "arrived i = []" "gives r [b]"
  shows "safe_read (i @ r # ys) (x # buf) 1 t l = Ret (1, b # buf, s_after r, ys)"
proof -
  have "safe_read (i @ r # ys) (x # buf) 1 t l = safe_read_loop (r # ys) 1 t 0 (x # buf) (clock i l)"
    using safe_read_patient [OF assms(1), of 0 1 "[]" "x # buf" "r # ys"] assms(2) by (simp add: safe_read_def)
  then show ?thesis using assms(3) by (simp add: gives_def Let_def memcpy_def RW_MAX_def)
qed

declare read_line_loop.simps [simp del]

lemma read_line_typed:
  assumes "prompt t l cs" "0 \<notin> set (typed cs)" "10 \<notin> set (typed cs)"
    "length (stripped cs) \<le> unat sz" "unat sz < length b"
    "cs = [] \<or> length (filter (\<lambda>c. c \<noteq> 13) (butlast (typed cs))) < unat sz"
  shows "\<exists>b'. read_line_loop (script cs @ ys) (pre @ b) (length pre) sz t l
    = read_line_loop ys (pre @ stripped cs @ b') (length pre + length (stripped cs))
        (sz - of_nat (length (stripped cs))) t (ended l cs)
    \<and> length b' = length b - length (stripped cs)"
  using assms
proof (induction cs arbitrary: l sz pre b)
  case Nil
  then show ?case by auto
next
  case (Cons c cs)
  obtain i r where c: "c = (i, r)" by fastforce
  obtain v where v: "patient t l i" "arrived i = []" "gives r [v]" "prompt t (s_after r) cs" using Cons.prems(1) c by auto
  have hv: "hd (chunk r) = v" using v(3) by (simp add: gives_def chunk_def reads_def)
  obtain x b1 where b: "b = x # b1" using Cons.prems(5) by (cases b) auto
  have sz: "0 < sz" using Cons.prems(6) by (auto simp: word_less_nat_alt)
  note rd = safe_read_byte [OF v(1-3), of "script cs @ ys" x b1]
  have ne: "v \<noteq> 0" "v \<noteq> 10" using Cons.prems(2,3) c hv by auto
  show ?case
  proof (cases "v = 13")
    case True
    have "read_line_loop (script (c # cs) @ ys) (pre @ b) (length pre) sz t l = read_line_loop (script cs @ ys) (pre @ v # b1) (length pre) sz t (s_after r)"
      using rd sz ne True b c by (simp add: read_line_loop.simps [of "i @ _"])
    moreover have "\<exists>b'. read_line_loop (script cs @ ys) (pre @ v # b1) (length pre) sz t (s_after r)
        = read_line_loop ys (pre @ stripped cs @ b') (length pre + length (stripped cs))
          (sz - of_nat (length (stripped cs))) t (ended (s_after r) cs)
        \<and> length b' = length (v # b1) - length (stripped cs)"
      using Cons.prems v(4) b c hv True by (intro Cons.IH) (auto simp: typed_def split: if_splits)
    ultimately show ?thesis using b c hv True by auto
  next
    case False
    have u: "unat (sz - 1) = unat sz - 1" using sz by (simp add: unat_minus_one word_gt_0)
    have "read_line_loop (script (c # cs) @ ys) (pre @ b) (length pre) sz t l = read_line_loop (script cs @ ys) ((pre @ [v]) @ b1) (length (pre @ [v])) (sz - 1) t (s_after r)"
      using rd sz ne False b c by (simp add: read_line_loop.simps [of "i @ _"])
    moreover have "\<exists>b'. read_line_loop (script cs @ ys) ((pre @ [v]) @ b1) (length (pre @ [v])) (sz - 1) t (s_after r)
        = read_line_loop ys ((pre @ [v]) @ stripped cs @ b') (length (pre @ [v]) + length (stripped cs))
          ((sz - 1) - of_nat (length (stripped cs))) t (ended (s_after r) cs)
        \<and> length b' = length b1 - length (stripped cs)"
      using Cons.prems v(4) b c hv False u by (intro Cons.IH) (auto simp: typed_def split: if_splits)
    moreover have "(sz - 1) - of_nat (length (stripped cs)) = sz - of_nat (length (stripped (c # cs)))"
      using c hv False by simp
    ultimately show ?thesis using b c hv False by auto
  qed
qed


lemma safe_read_eof:
  assumes "patient t l i" "arrived i = []" "at_eof r"
  shows "safe_read (i @ r # ys) (x # buf) 1 t l = Ret (0, x # buf, s_after r, ys)"
  using safe_read_patient [OF assms(1), of 0 1 "[]" "x # buf" "r # ys"] assms(2,3)
  by (simp add: safe_read_def at_eof_def gives_def Let_def memcpy_def)

lemma butlast_stripped: "length (filter (\<lambda>c. c \<noteq> 13) (butlast (typed cs))) \<le> length (stripped cs)"
  unfolding stripped_def by (cases "typed cs" rule: rev_cases) simp_all

text \<open>The state of \<open>read_line\<close> after the bytes of a line that fits: the next byte decides.\<close>

lemma read_line_pending:
  assumes "prompt t l cs" "0 \<notin> set (typed cs)" "10 \<notin> set (typed cs)" "length (stripped cs) + 1 < unat bufsiz" "unat bufsiz \<le> length buf"
  shows "\<exists>x b' sz. read_line (script cs @ ys) buf bufsiz t l = read_line_loop ys (stripped cs @ x # b') (length (stripped cs)) sz t (ended l cs) \<and> 0 < sz"
proof -
  let ?n = "length (stripped cs)"
  have u: "unat (bufsiz - 1) = unat bufsiz - 1" using assms(4) by (intro unat_minus_one) auto
  obtain b' where b': "read_line_loop (script cs @ ys) buf 0 (bufsiz - 1) t l
      = read_line_loop ys (stripped cs @ b') ?n (bufsiz - 1 - of_nat ?n) t (ended l cs)" "length b' = length buf - ?n"
  proof -
    have "length (stripped cs) \<le> unat (bufsiz - 1)" "unat (bufsiz - 1) < length buf"
      "length (filter (\<lambda>c. c \<noteq> 13) (butlast (typed cs))) < unat (bufsiz - 1)"
      using assms(4,5) u butlast_stripped [of cs] by linarith+
    then show ?thesis using that read_line_typed [of t l cs "bufsiz - 1" buf ys "[]"] assms(1-3) by auto
  qed
  then obtain x b1 where "b' = x # b1" using assms(4,5) by (cases b') auto
  moreover have "?n < 2 ^ 64" using assms(4) unsigned_less [of bufsiz, where ?'a = nat] by simp
  then have "unat (of_nat ?n :: u64) = ?n" by (simp add: unat_of_nat)
  then have "bufsiz - 1 - of_nat ?n \<noteq> 0" using assms(4) u by (metis eq_iff_diff_eq_0 less_diff_conv nat_neq_iff)
  then have "0 < bufsiz - 1 - of_nat ?n" by (simp add: word_gt_0)
  ultimately show ?thesis using b' unfolding read_line_def by blast
qed

text \<open>C26: \<open>read_line\<close> on a descriptor that delivers bytes, with interruptions and pauses. A line that fits is
  stored without its newline and without carriage returns, terminated, and the result is 1; the next
  call starts with the bytes after the newline. A zero byte or the end of the file before the newline
  gives 0. A line of \<open>bufsiz - 1\<close> or more characters gives 0 with its first \<open>bufsiz - 1\<close> characters
  stored and terminated.\<close>

theorem read_line_correct:
  assumes "prompt t l cs" "0 \<notin> set (typed cs)" "10 \<notin> set (typed cs)" "unat bufsiz \<le> length buf"
    "patient t (ended l cs) i" "arrived i = []"
  shows "(length (stripped cs) + 1 < unat bufsiz \<longrightarrow> gives r [10] \<longrightarrow>
      (\<exists>b. read_line (script cs @ i @ r # ys) buf bufsiz t l = Ret (1, stripped cs @ 0 # b, s_after r, ys))) \<and>
    (length (stripped cs) + 1 < unat bufsiz \<longrightarrow> gives r [0] \<or> at_eof r \<longrightarrow>
      (\<exists>b. read_line (script cs @ i @ r # ys) buf bufsiz t l = Ret (0, b, s_after r, ys))) \<and>
    (cs \<noteq> [] \<longrightarrow> last (typed cs) \<noteq> 13 \<longrightarrow> length (stripped cs) + 1 = unat bufsiz \<longrightarrow>
      (\<exists>b. read_line (script cs @ ys) buf bufsiz t l = Ret (0, stripped cs @ 0 # b, ended l cs, ys)))"
proof (intro conjI impI)
  assume fits: "length (stripped cs) + 1 < unat bufsiz"
  then obtain x b' sz where p: "read_line (script cs @ i @ r # ys) buf bufsiz t l
      = read_line_loop (i @ r # ys) (stripped cs @ x # b') (length (stripped cs)) sz t (ended l cs)" "0 < sz"
    using read_line_pending [OF assms(1-3) _ assms(4)] by blast
  show "\<exists>b. read_line (script cs @ i @ r # ys) buf bufsiz t l = Ret (1, stripped cs @ 0 # b, s_after r, ys)" if "gives r [10]"
    using p safe_read_byte [OF assms(5,6) that] by (simp add: read_line_loop.simps)
  show "\<exists>b. read_line (script cs @ i @ r # ys) buf bufsiz t l = Ret (0, b, s_after r, ys)" if "gives r [0] \<or> at_eof r"
    using that p safe_read_byte [OF assms(5,6), of r 0] safe_read_eof [OF assms(5,6), of r] by (auto simp: read_line_loop.simps)
next
  assume full: "cs \<noteq> []" "last (typed cs) \<noteq> 13" "length (stripped cs) + 1 = unat bufsiz"
  have u: "unat (bufsiz - 1) = length (stripped cs)" using full(3) unat_minus_one [of bufsiz] by (cases "bufsiz = 0") simp_all
  have "length (filter (\<lambda>c. c \<noteq> 13) (butlast (typed cs))) < length (stripped cs)"
    using full(1,2) by (cases "typed cs" rule: rev_cases) (simp_all add: stripped_def typed_def)
  then obtain b' where b': "read_line_loop (script cs @ ys) buf 0 (bufsiz - 1) t l
      = read_line_loop ys (stripped cs @ b') (length (stripped cs)) (bufsiz - 1 - of_nat (length (stripped cs))) t (ended l cs)"
      "length b' = length buf - length (stripped cs)"
    using read_line_typed [of t l cs "bufsiz - 1" buf ys "[]"] assms(1-4) full(3) u by auto
  then obtain x b1 where "b' = x # b1" using assms(4) full(3) by (cases b') auto
  moreover have "bufsiz - 1 - of_nat (length (stripped cs)) = 0" using u by (simp flip: u)
  ultimately show "\<exists>b. read_line (script cs @ ys) buf bufsiz t l = Ret (0, stripped cs @ 0 # b, ended l cs, ys)"
    using b' by (auto simp: read_line_def read_line_loop.simps)
qed


definition at_byte :: "byte \<Rightarrow> call" where
  "at_byte b = ([], \<lparr>s_cnt = 1, s_errno = EINTR, s_now = 0, s_isset = True, s_io = Bytes [b], s_after = 0\<rparr>)"

theorem read_line_correct_witness:
  "\<exists>b. read_line (script (map at_byte [72, 13, 105, 13]) @ [] @ snd (at_byte 10) # []) (replicate 4 7) 4 5 0 = Ret (1, [72, 105] @ 0 # b, 0, [])"
proof -
  let ?cs = "map at_byte [72, 13, 105, 13]"
  have "prompt 5 0 ?cs" "ended 0 ?cs = 0" by (auto simp: at_byte_def gives_def)
  moreover have "stripped ?cs = [72, 105]" "typed ?cs = [72, 13, 105, 13]" by (simp_all add: at_byte_def chunk_def reads_def)
  moreover have "gives (snd (at_byte 10)) [10]" "s_after (snd (at_byte 10)) = 0" by (simp_all add: at_byte_def gives_def)
  ultimately show ?thesis
    using read_line_correct [of 5 0 ?cs 4 "replicate 4 7" "[]" "snd (at_byte 10)" "[]"] by simp
qed

lemma safe_read_dead:
  assumes "s_cnt r < 0" "s_errno r = EBADF"
  shows "safe_read (r # rs) buf 1 t l = Ret (-1, buf, l, rs)"
  using assms by (simp add: safe_read_def)

lemma read_line_stale_loop:
  assumes "\<forall>r \<in> set rs. s_cnt r < 0 \<and> s_errno r = EBADF" "length rs = Suc (length ln)" "set ln \<inter> {0, 10, 13} = {}" "length ln < unat sz"
  shows "read_line_loop (rs @ ys) (pre @ ln @ 10 # b) (length pre) sz t l = Ret (1, pre @ ln @ 0 # b, l, ys)"
  using assms
proof (induction ln arbitrary: rs sz pre)
  case Nil
  then obtain r where "rs = [r]" by (auto simp: length_Suc_conv)
  then show ?case using Nil safe_read_dead [of r] by (simp add: read_line_loop.simps word_less_nat_alt)
next
  case (Cons c ln)
  then obtain r rs' where rs: "rs = r # rs'" "length rs' = Suc (length ln)" by (auto simp: length_Suc_conv)
  have sz: "0 < sz" "unat (sz - 1) = unat sz - 1" using Cons.prems(4) unat_minus_one [of sz] by (cases "sz = 0"; simp add: word_gt_0)+
  have "read_line_loop (rs' @ ys) ((pre @ [c]) @ ln @ 10 # b) (length (pre @ [c])) (sz - 1) t l = Ret (1, (pre @ [c]) @ ln @ 0 # b, l, ys)"
    using Cons.prems rs sz by (intro Cons.IH) auto
  moreover have "read_line_loop (rs @ ys) (pre @ (c # ln) @ 10 # b) (length pre) sz t l
      = read_line_loop (rs' @ ys) ((pre @ [c]) @ ln @ 10 # b) (length (pre @ [c])) (sz - 1) t l"
    using Cons.prems rs(1) sz(1) safe_read_dead [of r] by (simp add: read_line_loop.simps [of "r # _"])
  ultimately show ?case by simp
qed

lemma read_line_stale_cr:
  assumes "\<forall>r \<in> set rs. s_cnt r < 0 \<and> s_errno r = EBADF" "0 < sz"
  shows "read_line_loop rs (13 # b) 0 sz t l = Waiting (13 # b, l)"
  using assms(1)
proof (induction rs)
  case Nil
  then show ?case using assms(2) by (simp add: read_line_loop.simps safe_read_def)
next
  case (Cons r rs)
  then show ?case using assms(2) safe_read_dead [of r rs "13 # b" t l] by (simp add: read_line_loop.simps [of "r # _"])
qed

text \<open>\<open>read_line\<close> does not notice a failing descriptor, against its comment (0 for an I/O error). When
  every \<open>select\<close> fails with \<open>EBADF\<close> it returns 1 and presents as a line whatever text with a newline
  the buffer held before; and when the buffer starts with a carriage return it never returns, however
  often \<open>select\<close> fails.\<close>

theorem read_line_stale:
  assumes "\<forall>r \<in> set rs. s_cnt r < 0 \<and> s_errno r = EBADF" "1 < unat bufsiz"
  shows "(length rs = length ln + 1 \<longrightarrow> set ln \<inter> {0, 10, 13} = {} \<longrightarrow> length ln + 1 < unat bufsiz \<longrightarrow>
      read_line (rs @ ys) (ln @ 10 # b) bufsiz t l = Ret (1, ln @ 0 # b, l, ys)) \<and>
    read_line rs (13 # b) bufsiz t l = Waiting (13 # b, l)"
proof -
  have u: "unat (bufsiz - 1) = unat bufsiz - 1" using assms(2) by (intro unat_minus_one) auto
  have "0 < bufsiz - 1" using u assms(2) by (simp add: word_less_nat_alt)
  then have "read_line rs (13 # b) bufsiz t l = Waiting (13 # b, l)"
    using read_line_stale_cr [OF assms(1)] by (simp add: read_line_def)
  moreover have "read_line (rs @ ys) (ln @ 10 # b) bufsiz t l = Ret (1, ln @ 0 # b, l, ys)"
    if "length rs = length ln + 1" "set ln \<inter> {0, 10, 13} = {}" "length ln + 1 < unat bufsiz"
  proof -
    have "length rs = Suc (length ln)" "length ln < unat (bufsiz - 1)" using that u by linarith+
    then show ?thesis using read_line_stale_loop [OF assms(1) _ that(2), of "bufsiz - 1" ys "[]"] by (simp add: read_line_def)
  qed
  ultimately show ?thesis by blast
qed

theorem read_line_stale_witness:
  "let r = \<lparr>s_cnt = -1, s_errno = EBADF, s_now = 0, s_isset = False, s_io = Bytes [], s_after = 0\<rparr>
   in read_line ([r, r, r] @ []) ([79, 75] @ 10 # [0]) 4 5 0 = Ret (1, [79, 75] @ 0 # [0], 0, []) \<and>
      read_line [r, r, r] (13 # [0, 0, 0]) 4 5 0 = Waiting (13 # [0, 0, 0], 0)"
proof -
  let ?r = "\<lparr>s_cnt = -1, s_errno = EBADF, s_now = 0, s_isset = False, s_io = Bytes [], s_after = 0\<rparr>"
  have "\<forall>r \<in> set [?r, ?r, ?r]. s_cnt r < 0 \<and> s_errno r = EBADF" "1 < unat (4 :: u64)" by simp_all
  from read_line_stale [OF this, of "[79, 75]" "[]" "[0]" 5 0] read_line_stale [OF this, of "[79, 75]" "[]" "[0, 0, 0]" 5 0]
  show ?thesis unfolding Let_def by simp
qed

text \<open>\<open>safe_write\<close> as a caller uses it that stores the result in an \<open>int\<close> and takes a negative one for a
  failure.\<close>

definition as_int :: "u64 \<Rightarrow> int" where
  "as_int r = signed_take_bit 31 (uint r)"

definition send_result :: "int \<Rightarrow> wr_script \<Rightarrow> byte list \<Rightarrow> byte list \<times> bool option" where
  "send_result t w buf =
    (case safe_write w buf t of
       Undef \<Rightarrow> ([], Some False)
     | Waiting (out, _) \<Rightarrow> (out, None)
     | Ret (r, out, _, _) \<Rightarrow> (out, Some (0 \<le> as_int r)))"

lemma as_int_errors [simp]: "as_int (-1) = -1" "as_int (-2) = -2"
  by (simp_all add: as_int_def unsigned_minus_1_eq_mask) (code_simp)+

interpretation safe: writer "send_result t" for t
proof
  fix w buf
  note spec = safe_write_spec [where w = w and buf = buf and t = t]
  show "prefix (fst (send_result t w buf)) buf"
    using spec by (auto simp: send_result_def split: outcome.splits)
  assume ok: "snd (send_result t w buf) = Some True"
  show "fst (send_result t w buf) = buf"
  proof (cases "safe_write w buf t")
    case (Ret x)
    obtain r out l rest where x: "x = (r, out, l, rest)" by (cases x) auto
    have "out \<noteq> buf \<longrightarrow> r = -1 \<or> r = -2" using spec Ret x by simp
    then show ?thesis using ok Ret x by (auto simp: send_result_def)
  qed (use ok in \<open>auto simp: send_result_def\<close>)
qed

end
