(* ===== verification/Echoman.thy ===== *)
theory Echoman
  imports Ctio
begin

text \<open>
  Model of the event loop of \<^verbatim>\<open>samples/epoll_echoman.c\<close>, an edge-triggered server that prints what its
  clients send and answers each with a fixed line. The state holds the \<open>epoll\<close> registrations (the
  events waited for, and the number the kernel reports with them), the variable \<open>event\<close> the program
  reuses for all of them, the open descriptors and what was written. The kernel's answers are
  parameters; \<open>abort ()\<close> is the result \<open>None\<close>.
\<close>

record echo =
  registered :: "int \<rightharpoonup> (bool \<times> int)"
  event_fd :: int
  fds :: "int set"
  printed :: "byte list"
  answered :: "int list"

text \<open>A registration is for output or for input; it goes with the descriptor.\<close>

definition echo_close :: "int \<Rightarrow> echo \<Rightarrow> echo" where
  "echo_close fd s = s\<lparr>registered := (registered s)(fd := None), fds := fds s - {fd}\<rparr>"

text \<open>\<open>EPOLL_CTL_MOD\<close> passes the whole variable \<open>event\<close>, whose \<open>data.fd\<close> nobody has set; an error is ignored.\<close>

definition epoll_mod :: "int \<Rightarrow> bool \<Rightarrow> echo \<Rightarrow> echo" where
  "epoll_mod fd output s =
    (if registered s fd = None then s else s\<lparr>registered := (registered s)(fd \<mapsto> (output, event_fd s))\<rparr>)"

text \<open>The loop of \<open>accept\<close>, up to its first error: every connection is made non-blocking and registered.\<close>

fun echo_accept :: "(int \<times> bool \<times> bool) list \<Rightarrow> echo \<Rightarrow> echo option" where
  "echo_accept [] s = Some s"
| "echo_accept ((infd, nonblocking, added) # as) s =
    (if \<not> nonblocking then None
     else if \<not> added then None
     else echo_accept as (s\<lparr>fds := insert infd (fds s), event_fd := infd, registered := (registered s)(infd \<mapsto> (False, infd))\<rparr>))"

fun echo_read :: "(rd_res \<times> bool) list \<Rightarrow> int \<Rightarrow> echo \<Rightarrow> echo option" where
  "echo_read [] fd s = Some s"
| "echo_read ((r, wrote) # rs) fd s =
    (case r of
       Rd_err e \<Rightarrow> Some (if e \<noteq> EAGAIN then echo_close fd s else s)
     | Bytes bs \<Rightarrow>
         let count = take 512 bs
         in if count = [] then Some (echo_close fd s)
            else if \<not> wrote then None
            else echo_read rs fd (epoll_mod fd True (s\<lparr>printed := printed s @ count\<rparr>)))"

record echo_event =
  ev_data :: int
  ev_bad :: bool
  ev_in :: bool
  ev_out :: bool
  ev_accepts :: "(int \<times> bool \<times> bool) list"
  ev_reads :: "(rd_res \<times> bool) list"

definition echo_event :: "int \<Rightarrow> echo_event \<Rightarrow> echo \<Rightarrow> echo option" where
  "echo_event sfd ev s =
    (if ev_bad ev then Some (echo_close (ev_data ev) s)
     else if ev_in ev then
       (if ev_data ev = sfd then echo_accept (ev_accepts ev) s else echo_read (ev_reads ev) (ev_data ev) s)
     else if ev_out ev \<and> ev_data ev \<noteq> sfd then
       Some (epoll_mod (ev_data ev) False (s\<lparr>answered := answered s @ [ev_data ev]\<rparr>))
     else Some s)"

text \<open>The events of one \<open>epoll_wait\<close>, and what the kernel reports for a ready descriptor: the number it
  was registered with.\<close>

fun echo_events :: "int \<Rightarrow> echo_event list \<Rightarrow> echo \<Rightarrow> echo option" where
  "echo_events sfd [] s = Some s"
| "echo_events sfd (ev # evs) s = Option.bind (echo_event sfd ev s) (echo_events sfd evs)"

definition readable :: "echo \<Rightarrow> int \<Rightarrow> (rd_res \<times> bool) list \<Rightarrow> echo_event" where
  "readable s fd rs = \<lparr>ev_data = snd (the (registered s fd)), ev_bad = False, ev_in = True, ev_out = False, ev_accepts = [], ev_reads = rs\<rparr>"

definition writable :: "echo \<Rightarrow> int \<Rightarrow> echo_event" where
  "writable s fd = \<lparr>ev_data = snd (the (registered s fd)), ev_bad = False, ev_in = False, ev_out = True, ev_accepts = [], ev_reads = []\<rparr>"

definition echo_start :: "int \<Rightarrow> echo" where
  "echo_start sfd = \<lparr>registered = [sfd \<mapsto> (False, sfd)], event_fd = sfd, fds = {0, 1, 2, sfd}, printed = [], answered = []\<rparr>"

section \<open>Answers\<close>

lemma echo_read_data:
  assumes "registered s fd \<noteq> None" "bss \<noteq> []" "\<forall>b \<in> set bss. b \<noteq> [] \<and> length b \<le> 512"
  shows "echo_read (map (\<lambda>b. (Bytes b, True)) bss @ [(Rd_err EAGAIN, w)]) fd s =
    Some (s\<lparr>printed := printed s @ concat bss, registered := (registered s)(fd \<mapsto> (True, event_fd s))\<rparr>)"
  using assms
proof (induction bss arbitrary: s)
  case (Cons b bss)
  show ?case
  proof (cases "bss = []")
    case False
    let ?s = "s\<lparr>printed := printed s @ b, registered := (registered s)(fd \<mapsto> (True, event_fd s))\<rparr>"
    have m: "epoll_mod fd True (s\<lparr>printed := printed s @ b\<rparr>) = ?s" using Cons.prems(1) by (auto simp: epoll_mod_def)
    have "echo_read (map (\<lambda>b. (Bytes b, True)) bss @ [(Rd_err EAGAIN, w)]) fd ?s =
        Some (?s\<lparr>printed := printed ?s @ concat bss, registered := (registered ?s)(fd \<mapsto> (True, event_fd ?s))\<rparr>)"
      by (rule Cons.IH) (use Cons.prems False in simp_all)
    then show ?thesis using Cons.prems(3) m by (simp add: fun_upd_def cong: if_cong)
  qed (use Cons.prems in \<open>auto simp: epoll_mod_def fun_upd_def\<close>)
qed simp

text \<open>The client that connected last is answered. Any other client that sends data is registered with the
  number of the last one: when it becomes writable the answer goes to the last client, and the sender
  stays registered for output only, so that nothing it sends is read any more.\<close>

theorem echo_answers_last:
  assumes "registered s a = Some (False, a)" "registered s l \<noteq> None" "event_fd s = l" "a \<noteq> sfd" "l \<noteq> sfd"
    and "bss \<noteq> []" "\<forall>b \<in> set bss. b \<noteq> [] \<and> length b \<le> 512"
  shows "\<exists>s1 s2. echo_event sfd (readable s a (map (\<lambda>b. (Bytes b, True)) bss @ [(Rd_err EAGAIN, True)])) s = Some s1 \<and>
    printed s1 = printed s @ concat bss \<and> echo_event sfd (writable s1 a) s1 = Some s2 \<and> answered s2 = answered s @ [l] \<and>
    registered s2 a = Some (a \<noteq> l, l)"
proof -
  let ?s1 = "s\<lparr>printed := printed s @ concat bss, registered := (registered s)(a \<mapsto> (True, l))\<rparr>"
  have "echo_event sfd (readable s a (map (\<lambda>b. (Bytes b, True)) bss @ [(Rd_err EAGAIN, True)])) s = Some ?s1"
    using echo_read_data [of s a bss True] assms by (simp add: echo_event_def readable_def)
  moreover have "echo_event sfd (writable ?s1 a) ?s1 = Some (epoll_mod l False (?s1\<lparr>answered := answered s @ [l]\<rparr>))"
    using assms(5) by (simp add: echo_event_def writable_def)
  ultimately show ?thesis using assms(2,3)
    by (intro exI [of _ ?s1] exI [of _ "epoll_mod l False (?s1\<lparr>answered := answered s @ [l]\<rparr>)"]) (auto simp: epoll_mod_def)
qed

theorem echo_answers_last_witness:
  "\<exists>s s1 s2. echo_event 3 \<lparr>ev_data = 3, ev_bad = False, ev_in = True, ev_out = False, ev_accepts = [(5, True, True), (6, True, True)], ev_reads = []\<rparr> (echo_start 3) = Some s \<and>
    echo_event 3 (readable s 5 [(Bytes [104, 105], True), (Rd_err EAGAIN, True)]) s = Some s1 \<and>
    echo_event 3 (writable s1 5) s1 = Some s2 \<and> printed s2 = [104, 105] \<and> answered s2 = [6]"
proof -
  let ?s = "(echo_start 3)\<lparr>fds := insert 6 (insert 5 (fds (echo_start 3))), event_fd := 6, registered := (registered (echo_start 3))(5 \<mapsto> (False, 5), 6 \<mapsto> (False, 6))\<rparr>"
  have a: "echo_event 3 \<lparr>ev_data = 3, ev_bad = False, ev_in = True, ev_out = False, ev_accepts = [(5, True, True), (6, True, True)], ev_reads = []\<rparr> (echo_start 3) = Some ?s"
    by (simp add: echo_event_def)
  obtain s1 s2 where "echo_event 3 (readable ?s 5 (map (\<lambda>b. (Bytes b, True)) [[104, 105]] @ [(Rd_err EAGAIN, True)])) ?s = Some s1"
    "printed s1 = printed ?s @ concat [[104, 105]]" "echo_event 3 (writable s1 5) s1 = Some s2" "answered s2 = answered ?s @ [6]"
    using echo_answers_last [of ?s 5 6 3 "[[104, 105]]"] by auto
  moreover from this have "printed s2 = printed s1" by (auto simp: echo_event_def writable_def epoll_mod_def split: if_splits)
  ultimately show ?thesis using a by (intro exI [of _ ?s] exI [of _ s1] exI [of _ s2]) (simp add: echo_start_def)
qed

end
