(* ===== verification/Echo_start.thy ===== *)
theory Echo_start
  imports Echoman Ctserver
begin

text \<open>
  Model of the start of \<^verbatim>\<open>samples/epoll_echoman.c\<close>, up to the event loop of \<open>Echoman\<close>: the port, the listening
  socket and the \<open>epoll\<close> descriptor. What the system calls answer is the parameter \<open>echo_env\<close>; a program
  that ends early ends with an exit status or with \<open>abort ()\<close>. Messages are left out.
\<close>

record echo_env =
  en_socket :: "int option"
  en_reuse :: bool
  en_bind :: bool
  en_getfl :: bool
  en_setfl :: bool
  en_listen :: bool
  en_epoll :: bool
  en_ctl :: bool

datatype early = Exit_status int | Abort

text \<open>The socket, with the port it is bound to, and the open descriptors; a socket that cannot be used is
  not closed. \<open>htons\<close> takes a 16-bit number: the port is cut.\<close>

definition create_and_bind :: "echo_env \<Rightarrow> int \<Rightarrow> int set \<Rightarrow> int \<times> u16 \<times> int set" where
  "create_and_bind e port_nr open0 =
    (case en_socket e of
       None \<Rightarrow> (-1, 0, open0)
     | Some sfd \<Rightarrow>
         if \<not> en_reuse e then (-1, 0, insert sfd open0)
         else if \<not> en_bind e then (-1, 0, insert sfd open0)
         else (sfd, of_int port_nr, insert sfd open0))"

definition make_socket_non_blocking :: "echo_env \<Rightarrow> int" where
  "make_socket_non_blocking e = (if \<not> en_getfl e then -1 else if \<not> en_setfl e then -1 else 0)"

text \<open>\<open>argv\<close> without the name of the program.\<close>

definition read_param :: "string list \<Rightarrow> early + int" where
  "read_param args = (case args of [a] \<Rightarrow> Inr (atoi a) | _ \<Rightarrow> Inl (Exit_status 1))"

definition echo_main :: "echo_env \<Rightarrow> string list \<Rightarrow> early + (int \<times> u16 \<times> echo)" where
  "echo_main e args =
    (case read_param args of
       Inl x \<Rightarrow> Inl x
     | Inr port_nr \<Rightarrow> (case create_and_bind e port_nr {0, 1, 2} of (sfd, bound, open1) \<Rightarrow>
         if sfd = -1 then Inl Abort
         else if make_socket_non_blocking e = -1 then Inl Abort
         else if \<not> en_listen e then Inl Abort
         else if \<not> en_epoll e then Inl Abort
         else if \<not> en_ctl e then Inl Abort
         else Inr (sfd, bound, (echo_start sfd)\<lparr>fds := open1\<rparr>)))"

text \<open>The server runs exactly when it has one argument and every call succeeds. It then is in the state in
  which the loop of \<open>Echoman\<close> starts; the port is the number in the argument modulo \<open>2 ^ 16\<close>, whatever the
  argument is.\<close>

theorem echo_main_runs:
  "(\<exists>r. echo_main e args = Inr r) \<longleftrightarrow>
     length args = 1 \<and> en_socket e \<notin> {None, Some (-1)} \<and> en_reuse e \<and> en_bind e \<and> en_getfl e \<and> en_setfl e \<and> en_listen e \<and> en_epoll e \<and> en_ctl e"
  "echo_main e args = Inr (sfd, bound, s) \<Longrightarrow>
     en_socket e = Some sfd \<and> s = echo_start sfd \<and> uint bound = atoi (hd args) mod 2 ^ 16"
  by (auto simp: echo_main_def read_param_def create_and_bind_def make_socket_non_blocking_def uint_word_of_int length_Suc_conv
      echo_start_def split: list.splits option.splits if_splits)

text \<open>A text that is no number is port 0, for which the system chooses one.\<close>

lemma echo_port_zero: "echo_main e [''x''] = Inr (sfd, bound, s) \<Longrightarrow> bound = 0"
  by (auto simp: echo_main_def read_param_def create_and_bind_def atoi_def isspace_def digits_of_def digit_val_def to_int_def split: option.splits if_splits)

end
