(* ===== verification/Epoll_io.thy ===== *)
theory Epoll_io
  imports Ctio
begin

text \<open>
  Model of \<open>read_fd_timeout\<close> and \<open>write_fd_timeout\<close> of \<^verbatim>\<open>samples/server_epoll/utils.c\<close>, with the kernel's
  answers as scripts as in \<open>Ctio\<close>, and the contract \<open>writer\<close> for the second; and of \<open>write_nb_timeout\<close> and
  \<open>read_nb_timeout\<close> of \<^verbatim>\<open>samples/iorw_timeout.c\<close>, an earlier version. Log messages are left out.
\<close>

section \<open>Timed reads and writes\<close>

text \<open>\<open>read_fd_timeout\<close>: the result of \<open>select\<close>, whether the descriptor is ready, and the result of \<open>read\<close>.\<close>

definition read_fd_timeout :: "int \<Rightarrow> bool \<Rightarrow> rd_res \<Rightarrow> nat \<Rightarrow> int \<times> byte list" where
  "read_fd_timeout sel ready rr len =
    (if sel = -1 then (-1, [])
     else if ready then (case rr of Rd_err _ \<Rightarrow> (-1, []) | Bytes bs \<Rightarrow> (int (length (take len bs)), take len bs))
     else (-2, []))"

record wturn =
  wt_select :: int
  wt_ready :: bool
  wt_io :: wr_res

text \<open>The loop of \<open>write_fd_timeout\<close>; the flag of the result tells whether the descriptor is left in
  non-blocking mode. The test \<open>errno != EAGAIN || errno != EINTR\<close> holds for every error.\<close>

primrec write_fd_loop :: "wturn list \<Rightarrow> byte list \<Rightarrow> byte list \<Rightarrow> (byte list, int \<times> byte list \<times> bool) outcome" where
  "write_fd_loop [] rest out = (if rest = [] then Ret (int (length out), out, False) else Waiting out)"
| "write_fd_loop (t # ts) rest out =
    (if rest = [] then Ret (int (length out), out, False)
     else if wt_select t = -1 then Ret (-1, out, False)
     else if wt_select t = 0 then Ret (-2, out, False)
     else if wt_ready t then
       (case wt_io t of
          Wr_err e \<Rightarrow> if e \<noteq> EAGAIN \<or> e \<noteq> EINTR then Ret (-1, out, False) else write_fd_loop ts rest out
        | Wrote k \<Rightarrow>
            let nw = min k (length rest)
            in if nw = 0 then Ret (-1, out, True)
               else write_fd_loop ts (drop nw rest) (out @ take nw rest))
     else write_fd_loop ts rest out)"

definition write_fd_timeout :: "bool \<Rightarrow> wturn list \<Rightarrow> byte list \<Rightarrow> (byte list, int \<times> byte list \<times> bool) outcome" where
  "write_fd_timeout ndelay_ok ts buf =
    (if \<not> ndelay_ok then Ret (-1, [], False) else write_fd_loop ts buf [])"

section \<open>Specification\<close>

lemma write_fd_loop_spec:
  "case write_fd_loop ts rest out of
     Undef \<Rightarrow> False
   | Waiting o' \<Rightarrow> strict_prefix o' (out @ rest)
   | Ret (v, o', nb) \<Rightarrow> prefix o' (out @ rest) \<and> (o' = out @ rest \<longrightarrow> v = int (length o') \<and> \<not> nb) \<and> (o' \<noteq> out @ rest \<longrightarrow> v = -1 \<or> v = -2 \<and> \<not> nb)"
proof (induction ts arbitrary: rest out)
  case (Cons t ts)
  have e: "(out @ take n rest) @ drop n rest = out @ rest" for n by simp
  show ?case
    using Cons.IH [of out rest] Cons.IH [of "out @ take n rest" "drop n rest" for n, unfolded e]
    by (auto simp: Let_def split: wr_res.split)
qed (auto simp: strict_prefix_def)

text \<open>\<open>write_fd_timeout\<close> writes a beginning of the buffer, a proper one while it waits. It returns the
  length exactly when everything was written (and the descriptor could be made non-blocking), and
  otherwise -1 or -2 after a proper part; the descriptor is left in non-blocking mode only after -1.\<close>

lemma write_fd_spec:
  "case write_fd_timeout ok ts buf of
     Undef \<Rightarrow> False
   | Waiting out \<Rightarrow> strict_prefix out buf
   | Ret (v, out, nb) \<Rightarrow> prefix out buf \<and> (ok \<and> out = buf \<longrightarrow> v = int (length buf) \<and> \<not> nb) \<and> (\<not> (ok \<and> out = buf) \<longrightarrow> v = -1 \<or> v = -2 \<and> \<not> nb)"
  using write_fd_loop_spec [where ts = ts and rest = buf and out = "[]"] by (auto simp: write_fd_timeout_def split: outcome.splits)

definition fd_send :: "bool \<times> wturn list \<Rightarrow> byte list \<Rightarrow> byte list \<times> bool option" where
  "fd_send w buf =
    (case write_fd_timeout (fst w) (snd w) buf of
       Undef \<Rightarrow> ([], Some False) | Waiting out \<Rightarrow> (out, None) | Ret (v, out, _) \<Rightarrow> (out, Some (0 \<le> v)))"

interpretation timed: writer fd_send
proof
  fix w :: "bool \<times> wturn list" and buf
  note spec = write_fd_spec [where buf = buf and ok = "fst w" and ts = "snd w"]
  show "prefix (fst (fd_send w buf)) buf"
    using spec by (auto simp: fd_send_def split: outcome.splits)
  show "snd (fd_send w buf) = Some True \<Longrightarrow> fst (fd_send w buf) = buf"
    using spec by (auto simp: fd_send_def split: outcome.splits if_splits)
qed

text \<open>A descriptor that \<open>select\<close> reports as writable but that answers \<open>EAGAIN\<close> or is interrupted makes the
  function give up: the test for these two errors is always true.\<close>

lemma write_fd_eagain:
  assumes "rest \<noteq> []" "wt_select t \<notin> {-1, 0}" "wt_ready t" "wt_io t = Wr_err e"
  shows "write_fd_loop (t # ts) rest out = Ret (-1, out, False)"
  using assms by auto

section \<open>The earlier version\<close>

text \<open>\<^verbatim>\<open>samples/iorw_timeout.c\<close> restores the blocking mode also when nothing could be written.\<close>

primrec write_nb_loop :: "wturn list \<Rightarrow> byte list \<Rightarrow> byte list \<Rightarrow> (byte list, int \<times> byte list \<times> bool) outcome" where
  "write_nb_loop [] rest out = (if rest = [] then Ret (int (length out), out, False) else Waiting out)"
| "write_nb_loop (t # ts) rest out =
    (if rest = [] then Ret (int (length out), out, False)
     else if wt_select t = -1 then Ret (-1, out, False)
     else if wt_select t = 0 then Ret (-2, out, False)
     else if wt_ready t then
       (case wt_io t of
          Wr_err e \<Rightarrow> if e \<noteq> EAGAIN \<or> e \<noteq> EINTR then Ret (-1, out, False) else write_nb_loop ts rest out
        | Wrote k \<Rightarrow>
            let nwrite = min k (length rest)
            in if nwrite = 0 then Ret (-1, out, False)
               else write_nb_loop ts (drop nwrite rest) (out @ take nwrite rest))
     else write_nb_loop ts rest out)"

definition write_nb_timeout :: "bool \<Rightarrow> wturn list \<Rightarrow> byte list \<Rightarrow> (byte list, int \<times> byte list \<times> bool) outcome" where
  "write_nb_timeout ndelay_ok ts buf = (if \<not> ndelay_ok then Ret (-1, [], False) else write_nb_loop ts buf [])"

definition read_nb_timeout :: "int \<Rightarrow> bool \<Rightarrow> rd_res \<Rightarrow> nat \<Rightarrow> int \<times> byte list" where
  "read_nb_timeout sel ready rr len =
    (if sel = -1 then (-1, [])
     else if ready then (case rr of Rd_err _ \<Rightarrow> (-1, []) | Bytes bs \<Rightarrow> (int (length (take len bs)), take len bs))
     else (-2, []))"

text \<open>The two versions write the same bytes with the same results; the earlier one never leaves the
  descriptor in non-blocking mode.\<close>

definition blocking :: "(byte list, int \<times> byte list \<times> bool) outcome \<Rightarrow> (byte list, int \<times> byte list \<times> bool) outcome" where
  "blocking r = (case r of Ret (v, out, _) \<Rightarrow> Ret (v, out, False) | Waiting out \<Rightarrow> Waiting out | Undef \<Rightarrow> Undef)"

lemma write_nb_loop_eq: "write_nb_loop ts rest out = blocking (write_fd_loop ts rest out)"
  by (induction ts arbitrary: rest out) (auto simp: blocking_def Let_def min_def split: wr_res.split if_splits)

lemma write_nb_agrees: "write_nb_timeout ok ts buf = blocking (write_fd_timeout ok ts buf)"
  by (simp add: write_nb_timeout_def write_fd_timeout_def write_nb_loop_eq) (simp add: blocking_def)

text \<open>\<open>main\<close> of \<^verbatim>\<open>iorw_timeout.c\<close>: an endless loop that reads up to 1024 bytes and prints them as a string, or an
  error line. The arguments are the answers to one call after the other, the result is what was printed
  so far. The buffer is cleared after each print; 1024 bytes leave no room for the terminator.\<close>

datatype printed_line = Error_line | Data_line "byte list"

fun iorw_main :: "(int \<times> bool \<times> rd_res) list \<Rightarrow> printed_line list option" where
  "iorw_main [] = Some []"
| "iorw_main ((sel, ready, rr) # ts) =
    (case read_nb_timeout sel ready rr 1024 of (r, bs) \<Rightarrow>
       if r \<le> 0 then map_option ((#) Error_line) (iorw_main ts)
       else if length bs = 1024 \<and> 0 \<notin> set bs then None
       else map_option ((#) (Data_line (takeWhile (\<lambda>c. c \<noteq> 0) bs))) (iorw_main ts))"

text \<open>Data without zero bytes in pieces that do not fill the buffer is printed completely and in order.\<close>

lemma iorw_prints:
  assumes "\<forall>bs \<in> set ds. bs \<noteq> [] \<and> length bs < 1024 \<and> 0 \<notin> set bs"
  shows "iorw_main (map (\<lambda>bs. (1, True, Bytes bs)) ds) = Some (map Data_line ds)"
  using assms
proof (induction ds)
  case (Cons bs ds)
  moreover have "takeWhile (\<lambda>c. c \<noteq> 0) bs = bs" using Cons.prems by (auto simp: takeWhile_eq_all_conv)
  ultimately show ?case by (simp add: read_nb_timeout_def)
qed simp

lemma iorw_full: "length bs = 1024 \<Longrightarrow> 0 \<notin> set bs \<Longrightarrow> iorw_main ((1, True, Bytes bs) # ts) = None"
  by (simp add: read_nb_timeout_def)

end
