(* ===== verification/Ctchild.thy ===== *)
theory Ctchild
  imports Ctio Ctserver
begin

text \<open>
  Model of \<^verbatim>\<open>samples/ctproxy/ctchild.c\<close>: the process the proxy starts for a connection. It reads its
  options and settings, connects to the back server and relays bytes in both directions until one
  side closes. The kernel's and the resolver's answers are scripts as in \<open>Ctio\<close>; the bytes read from and
  taken by each side are kept in the state. Undefined behaviour is \<open>None\<close> or \<open>Undef\<close>. Log messages are
  left out, except where their arguments are undefined.
\<close>

section \<open>Options and settings\<close>

definition MAXBUF :: nat where "MAXBUF = 4096"

record child =
  mid :: string
  client_addr :: string
  cip :: string
  cport_of :: string
  cfg_file :: string
  level :: string
  timeout :: string
  cback_ip :: string
  cback_port :: string

definition child0 :: child where
  "child0 = \<lparr>mid = [], client_addr = [], cip = [], cport_of = [], cfg_file = [], level = [], timeout = [], cback_ip = [], cback_port = []\<rparr>"

text \<open>\<open>getopt\<close> with the option string \<open>i:r:c:h\<close>, up to the first \<open>h\<close> or unknown option, where \<open>main\<close> ends:
  the argument of an option is the rest of the word or, if that is empty, the next word; words that
  are no options are skipped, and \<open>--\<close> ends the options.\<close>

fun getopt :: "string list \<Rightarrow> (char \<times> string) list" where
  "getopt [] = []"
| "getopt (a # as) =
    (if a = ''--'' then []
     else if length a < 2 \<or> hd a \<noteq> CHR ''-'' then getopt as
     else if a ! 1 \<in> {CHR ''i'', CHR ''r'', CHR ''c''} then
       (if drop 2 a \<noteq> [] then (a ! 1, drop 2 a) # getopt as
        else (case as of [] \<Rightarrow> [(CHR ''?'', [])] | b # bs \<Rightarrow> (a ! 1, b) # getopt bs))
     else [(if a ! 1 = CHR ''h'' then CHR ''h'' else CHR ''?'', [])])"

text \<open>The loop over the options; \<open>None\<close> when it ends the process with \<open>exit_cleanup (0)\<close>.\<close>

fun set_options :: "(char \<times> string) list \<Rightarrow> child \<Rightarrow> child option" where
  "set_options [] c = Some c"
| "set_options ((ch, optarg) # os) c =
    (if ch = CHR ''i'' then set_options os (c\<lparr>mid := snprintf_s MAXLINE optarg\<rparr>)
     else if ch = CHR ''r'' then set_options os (c\<lparr>client_addr := snprintf_s MAXLINE optarg\<rparr>)
     else if ch = CHR ''c'' then set_options os (c\<lparr>cfg_file := snprintf_s MAXLINE optarg\<rparr>)
     else None)"

text \<open>\<open>DEF_LOG_LEVEL\<close> and \<open>DEF_RW_TIMEOUT\<close> are the numbers 8 and 5 in this file, but they are printed with
  \<open>%s\<close>: without the setting the behaviour is undefined.\<close>

definition required_s :: "dictionary \<Rightarrow> string \<Rightarrow> nat \<Rightarrow> string option" where
  "required_s d key sz = do {
     v \<leftarrow> dictionary_get d key Null;
     case v of Str s \<Rightarrow> Some (snprintf_s sz s) | Null \<Rightarrow> None | Invalid \<Rightarrow> None }"

definition optional_s :: "dictionary \<Rightarrow> string \<Rightarrow> nat \<Rightarrow> string option option" where
  "optional_s d key sz = do {
     v \<leftarrow> dictionary_get d key Null;
     case v of Str s \<Rightarrow> Some (Some (snprintf_s sz s)) | Null \<Rightarrow> Some None | Invalid \<Rightarrow> None }"

definition get_child_config :: "env \<Rightarrow> (string \<Rightarrow> string option) \<Rightarrow> string \<Rightarrow> child \<Rightarrow> (int \<times> child) option" where
  "get_child_config env fs cfg_ini c = do {
     dict_conf \<leftarrow> open_conf_file env fs [] (Some cfg_ini);
     case dict_conf of
       None \<Rightarrow> Some (1, c)
     | Some d \<Rightarrow> do {
         log \<leftarrow> required_s d ''child:log_level'' 128;
         rwt \<leftarrow> required_s d ''child:rw_timeout'' 128;
         let c1 = c\<lparr>level := log, timeout := rwt\<rparr>;
         pback_ip \<leftarrow> optional_s d ''child:back_ip'' MAXLINE;
         case pback_ip of
           None \<Rightarrow> Some (1, c1)
         | Some bip \<Rightarrow> do {
             let c2 = c1\<lparr>cback_ip := bip\<rparr>;
             pback_port \<leftarrow> optional_s d ''child:back_port'' MAXLINE;
             case pback_port of None \<Rightarrow> Some (1, c2) | Some bport \<Rightarrow> Some (0, c2\<lparr>cback_port := bport\<rparr>) } } }"

text \<open>The client's address is split at its first colon.\<close>

definition split_addr :: "child \<Rightarrow> child" where
  "split_addr c =
    (if CHR '':'' \<in> set (client_addr c) then
       c\<lparr>cip := snprintf_s MAXLINE (takeWhile (\<lambda>x. x \<noteq> CHR '':'') (client_addr c)),
         cport_of := snprintf_s MAXLINE (tl (dropWhile (\<lambda>x. x \<noteq> CHR '':'') (client_addr c)))\<rparr>
     else c)"

section \<open>The back server\<close>

text \<open>An address of the back server: the result of \<open>socket\<close> (-1 on failure) and whether \<open>connect\<close>
  succeeds. The resolver's answer is \<open>None\<close> when \<open>getaddrinfo\<close> fails. The second component of the result
  are the sockets that are open at the end.\<close>

type_synonym addrs = "(int \<times> bool) list option"

fun connect_loop :: "(int \<times> bool) list \<Rightarrow> int" where
  "connect_loop [] = -1"
| "connect_loop ((sockfd, connected) # ps) =
    (if sockfd = -1 then connect_loop ps
     else if \<not> connected then connect_loop ps
     else sockfd)"

definition connect_to_back_server :: "addrs \<Rightarrow> int" where
  "connect_to_back_server servinfo = (case servinfo of None \<Rightarrow> 1 | Some ps \<Rightarrow> connect_loop ps)"

section \<open>Relaying\<close>

text \<open>One side of the relay: what has been read from it and what it has taken.\<close>

record relay =
  from_back :: "byte list"
  to_client :: "byte list"
  from_client :: "byte list"
  to_back :: "byte list"
  iobuf :: "byte list"

record turn =
  t_select :: int
  t_back :: bool
  t_client :: bool
  t_rback :: rd_res
  t_wclient :: wr_script
  t_rclient :: rd_res
  t_wback :: wr_script

text \<open>Reading a chunk into the zeroed buffer and passing it on. The result of a half turn is the value to
  return, or \<open>None\<close> to go on; \<open>Undef\<close> if the chunk overran the buffer.\<close>

definition pump ::
  "int \<Rightarrow> rd_res \<Rightarrow> wr_script \<Rightarrow> (byte list \<times> byte list \<times> byte list, int option \<times> byte list \<times> byte list \<times> byte list) outcome" where
  "pump tmo rr w =
    (case rr of
       Rd_err _ \<Rightarrow> Ret (Some (-1), replicate MAXBUF 0, [], [])
     | Bytes bs \<Rightarrow>
         let n = min (length bs) MAXBUF
         in if n = 0 then Ret (Some 0, replicate MAXBUF 0, [], [])
            else (case memcpy (replicate MAXBUF 0) 0 (take n bs) of
                None \<Rightarrow> Undef
              | Some buf \<Rightarrow>
                  (case rd_block buf 0 n of
                     None \<Rightarrow> Undef
                   | Some data \<Rightarrow>
                       (case safe_write w data tmo of
                          Undef \<Rightarrow> Undef
                        | Waiting (out, _) \<Rightarrow> Waiting (buf, take n bs, out)
                        | Ret (r, out, _, _) \<Rightarrow>
                            Ret (if as_int r < 0 then Some (-1) else None, buf, take n bs, out)))))"

definition back_half :: "int \<Rightarrow> turn \<Rightarrow> relay \<Rightarrow> (relay, int option \<times> relay) outcome" where
  "back_half tmo t s =
    (if t_back t then
       (case pump tmo (t_rback t) (t_wclient t) of
          Undef \<Rightarrow> Undef
        | Waiting (buf, inp, out) \<Rightarrow> Waiting (s\<lparr>from_back := from_back s @ inp, to_client := to_client s @ out, iobuf := buf\<rparr>)
        | Ret (v, buf, inp, out) \<Rightarrow> Ret (v, s\<lparr>from_back := from_back s @ inp, to_client := to_client s @ out, iobuf := buf\<rparr>))
     else Ret (None, s))"

definition client_half :: "int \<Rightarrow> turn \<Rightarrow> relay \<Rightarrow> (relay, int option \<times> relay) outcome" where
  "client_half tmo t s =
    (if t_client t then
       (case pump tmo (t_rclient t) (t_wback t) of
          Undef \<Rightarrow> Undef
        | Waiting (buf, inp, out) \<Rightarrow> Waiting (s\<lparr>from_client := from_client s @ inp, to_back := to_back s @ out, iobuf := buf\<rparr>)
        | Ret (v, buf, inp, out) \<Rightarrow> Ret (v, s\<lparr>from_client := from_client s @ inp, to_back := to_back s @ out, iobuf := buf\<rparr>))
     else Ret (None, s))"

primrec trans_data :: "int \<Rightarrow> turn list \<Rightarrow> relay \<Rightarrow> (relay, int \<times> relay) outcome" where
  "trans_data tmo [] s = Waiting s"
| "trans_data tmo (t # ts) s =
    (if t_select t = 0 then trans_data tmo ts s
     else if t_select t = -1 then Ret (-1, s)
     else (case back_half tmo t s of
         Undef \<Rightarrow> Undef
       | Waiting s' \<Rightarrow> Waiting s'
       | Ret (Some v, s') \<Rightarrow> Ret (v, s')
       | Ret (None, s') \<Rightarrow>
           (case client_half tmo t s' of
              Undef \<Rightarrow> Undef
            | Waiting s'' \<Rightarrow> Waiting s''
            | Ret (Some v, s'') \<Rightarrow> Ret (v, s'')
            | Ret (None, s'') \<Rightarrow> trans_data tmo ts s'')))"

definition relay0 :: relay where
  "relay0 = \<lparr>from_back = [], to_client = [], from_client = [], to_back = [], iobuf = replicate MAXBUF 0\<rparr>"

section \<open>The process\<close>

text \<open>What \<open>main\<close> learns from the kernel, and how the process ends: its status as the parent sees it (the
  low eight bits of the number given to \<open>_exit\<close>), the bytes of an error message the client has taken,
  the relay's state, the descriptor used as the back server and the descriptors closed.\<close>

record main_env =
  m_ndelay_client :: bool
  m_addrs :: addrs
  m_ndelay_back :: bool
  m_wclient :: wr_script
  m_turns :: "turn list"

record final =
  f_status :: int
  f_said :: "byte list"
  f_relay :: relay
  f_back_fd :: int
  f_closed :: "int list"

definition close_all_fd :: "int \<Rightarrow> int list" where
  "close_all_fd back_fd = [2, 0, 1] @ (if back_fd \<noteq> -1 then [back_fd] else [])"

definition exit_cleanup :: "int \<Rightarrow> byte list \<Rightarrow> relay \<Rightarrow> int \<Rightarrow> final" where
  "exit_cleanup errnum said s back_fd =
    \<lparr>f_status = errnum mod 256, f_said = said, f_relay = s, f_back_fd = back_fd, f_closed = close_all_fd back_fd\<rparr>"

definition say_and_exit :: "wr_script \<Rightarrow> int \<Rightarrow> string \<Rightarrow> int \<Rightarrow> int \<Rightarrow> (relay, final) outcome" where
  "say_and_exit w tmo msg errnum back_fd =
    (case safe_write w (bytes msg) tmo of
       Undef \<Rightarrow> Undef
     | Waiting _ \<Rightarrow> Waiting relay0
     | Ret (_, out, _, _) \<Rightarrow> Ret (exit_cleanup errnum out relay0 back_fd))"

definition child_main :: "env \<Rightarrow> (string \<Rightarrow> string option) \<Rightarrow> main_env \<Rightarrow> string list \<Rightarrow> (relay, final) outcome" where
  "child_main env fs e args =
    (case set_options (getopt args) child0 of
       None \<Rightarrow> Ret (exit_cleanup 0 [] relay0 (-1))
     | Some c0 \<Rightarrow>
         (case get_child_config env fs (cfg_file c0) c0 of
            None \<Rightarrow> Undef
          | Some (r, c1) \<Rightarrow>
              if r = 1 then Ret (exit_cleanup 50 [] relay0 (-1))
              else
                let c = split_addr c1; tmo = atoi (timeout c)
                in if \<not> m_ndelay_client e then say_and_exit (m_wclient e) tmo (''@ERROR: SYSTEM ERROR 1011.1'' @ [LF]) 1011 (-1)
                   else
                     let back_fd = connect_to_back_server (m_addrs e)
                     in if back_fd < 0 then say_and_exit (m_wclient e) tmo (''@ERROR: SYSTEM ERROR 1010'' @ [LF]) 1010 back_fd
                        else if \<not> m_ndelay_back e then say_and_exit (m_wclient e) tmo (''@ERROR: SYSTEM ERROR 1011'' @ [LF]) 1011 back_fd
                        else (case trans_data tmo (m_turns e) relay0 of
                            Undef \<Rightarrow> Undef
                          | Waiting s \<Rightarrow> Waiting s
                          | Ret (retval, s) \<Rightarrow> Ret (exit_cleanup 1 [] s back_fd))))"

section \<open>Integrity of the relay\<close>

text \<open>\<open>in_sync\<close>: everything read so far has been passed on. \<open>behind\<close>: at most one buffer is outstanding, and
  what was passed on is a beginning of what was read.\<close>

definition in_sync :: "relay \<Rightarrow> bool" where
  "in_sync s = (to_client s = from_back s \<and> to_back s = from_client s)"

definition behind :: "relay \<Rightarrow> bool" where
  "behind s = (prefix (to_client s) (from_back s) \<and> prefix (to_back s) (from_client s) \<and>
    length (from_back s) + length (from_client s) \<le> length (to_client s) + length (to_back s) + MAXBUF)"

lemma pump_eq:
  "pump tmo rr w =
    (case rr of
       Rd_err _ \<Rightarrow> Ret (Some (-1), replicate MAXBUF 0, [], [])
     | Bytes bs \<Rightarrow>
         let data = take MAXBUF bs; buf = data @ replicate (MAXBUF - length data) 0
         in if bs = [] then Ret (Some 0, replicate MAXBUF 0, [], [])
            else (case safe_write w data tmo of
                Undef \<Rightarrow> Undef
              | Waiting (out, _) \<Rightarrow> Waiting (buf, data, out)
              | Ret (r, out, _, _) \<Rightarrow> Ret (if as_int r < 0 then Some (-1) else None, buf, data, out)))"
proof (cases rr)
  case (Bytes bs)
  have "0 < MAXBUF" by (simp add: MAXBUF_def)
  then show ?thesis
    by (cases "length bs \<le> MAXBUF") (auto simp: Bytes pump_def Let_def memcpy_def rd_block_def split: outcome.split)
qed (simp add: pump_def)

text \<open>What a half turn does, from the contract of the writer alone.\<close>

lemma pump_spec:
  shows "case pump tmo rr w of
     Undef \<Rightarrow> False
   | Waiting (_, inp, out) \<Rightarrow> prefix out inp \<and> length inp \<le> MAXBUF
   | Ret (v, _, inp, out) \<Rightarrow> prefix out inp \<and> length inp \<le> MAXBUF \<and> (v = None \<or> v = Some 0 \<longrightarrow> out = inp)"
proof (cases rr)
  case (Bytes bs)
  note spec = safe.passed_on [of "[]" tmo w "take MAXBUF bs"] safe.passed_all [of tmo w "take MAXBUF bs" "[]"]
  have "safe_write w (take MAXBUF bs) tmo \<noteq> Undef"
    using safe_write_spec [where w = w and buf = "take MAXBUF bs" and t = tmo] by (auto split: outcome.splits)
  then show ?thesis using Bytes spec
    by (auto simp: pump_eq send_result_def Let_def not_less split: outcome.splits)
qed (simp add: pump_eq)

lemma half_spec:
  assumes "in_sync s"
  shows "case back_half tmo t s of
     Undef \<Rightarrow> False | Waiting s' \<Rightarrow> behind s'
   | Ret (v, s') \<Rightarrow> behind s' \<and> (v = None \<or> v = Some 0 \<longrightarrow> in_sync s')"
   and "case client_half tmo t s of
     Undef \<Rightarrow> False | Waiting s' \<Rightarrow> behind s'
   | Ret (v, s') \<Rightarrow> behind s' \<and> (v = None \<or> v = Some 0 \<longrightarrow> in_sync s')"
  using assms pump_spec [of tmo "t_rback t" "t_wclient t"] pump_spec [of tmo "t_rclient t" "t_wback t"]
  by (auto simp: back_half_def client_half_def in_sync_def behind_def split: outcome.splits)

lemma trans_data_spec:
  assumes "in_sync s"
  shows "case trans_data tmo ts s of
     Undef \<Rightarrow> False
   | Waiting s' \<Rightarrow> behind s'
   | Ret (v, s') \<Rightarrow> behind s' \<and> (v = 0 \<longrightarrow> in_sync s')"
  using assms
proof (induction ts arbitrary: s)
  case Nil
  then show ?case by (simp add: in_sync_def behind_def)
next
  case (Cons t ts)
  have b: "behind s" using Cons.prems by (simp add: in_sync_def behind_def)
  note H = half_spec(1) [OF Cons.prems, of tmo t]
  show ?case
  proof (cases "back_half tmo t s")
    case (Ret x)
    obtain v s' where x: "x = (v, s')" by fastforce
    show ?thesis
    proof (cases v)
      case None
      then have "in_sync s'" using H Ret x by simp
      then have C: "case client_half tmo t s' of Undef \<Rightarrow> False | Waiting s' \<Rightarrow> behind s'
          | Ret (v, s') \<Rightarrow> behind s' \<and> (v = None \<or> v = Some 0 \<longrightarrow> in_sync s')" by (rule half_spec(2))
      have e: "t_select t \<noteq> 0 \<Longrightarrow> t_select t \<noteq> -1 \<Longrightarrow> client_half tmo t s' = Ret (None, s'') \<Longrightarrow>
          trans_data tmo (t # ts) s = trans_data tmo ts s''" for s'' using Ret x None by simp
      show ?thesis
      proof (cases "client_half tmo t s'")
        case (Ret y)
        obtain u s'' where y: "y = (u, s'')" by fastforce
        show ?thesis
        proof (cases u)
          case None
          then have "in_sync s''" using C Ret y by simp
          then show ?thesis using Cons.IH [of s''] Cons.IH [OF Cons.prems] e b Ret y None
            by (cases "t_select t = 0"; cases "t_select t = -1") auto
        qed (use C b Cons.IH [OF Cons.prems] Ret y x None \<open>back_half tmo t s = Ret x\<close> in auto)
      qed (use C b Cons.IH [OF Cons.prems] Ret x None in auto)
    next
      case (Some n)
      then show ?thesis using H Cons.IH [OF Cons.prems] b Ret x by auto
    qed
  qed (use H Cons.IH [OF Cons.prems] b in auto)
qed

text \<open>C28: The relay keeps the two streams intact. Whatever \<open>select\<close>, \<open>read\<close> and \<open>write\<close> answer, at every
  moment what the client has received is a beginning of what the back server has sent and the other
  way round, in order, without loss or repetition in between, and at most one buffer of 4096 bytes
  is outstanding. When \<open>trans_data\<close> returns 0 nothing is outstanding. No access leaves \<open>iobuf\<close>.\<close>

theorem relay_exact:
  "case trans_data tmo ts relay0 of
     Undef \<Rightarrow> False
   | Waiting s \<Rightarrow> behind s
   | Ret (v, s) \<Rightarrow> behind s \<and> (v = 0 \<longrightarrow> in_sync s)"
  by (rule trans_data_spec) (simp add: relay0_def in_sync_def)


text \<open>A turn in which the peers behave: what they send is not empty and what they are sent is accepted.\<close>

definition delivers :: "int \<Rightarrow> rd_res \<Rightarrow> wr_script \<Rightarrow> byte list \<Rightarrow> bool" where
  "delivers tmo rr w bs = (rr = Bytes bs \<and> bs \<noteq> [] \<and> length bs \<le> MAXBUF \<and> first_ok w \<and>
    patient_w tmo (w_time w) (w_rounds w) \<and> length bs \<le> first_taken w + capacity (w_rounds w) \<and> 0 \<le> as_int (w_junk w))"

definition calm_turn :: "int \<Rightarrow> turn \<Rightarrow> byte list \<Rightarrow> byte list \<Rightarrow> bool" where
  "calm_turn tmo t b c =
    (0 \<le> t_select t \<and> (if t_select t \<noteq> 0 \<and> t_back t then delivers tmo (t_rback t) (t_wclient t) b else b = []) \<and>
      (if t_select t \<noteq> 0 \<and> t_client t then delivers tmo (t_rclient t) (t_wback t) c else c = []))"

lemma as_int_small: "length bs \<le> MAXBUF \<Longrightarrow> 0 \<le> as_int (of_nat (length bs))"
  by (simp add: as_int_def MAXBUF_def unsigned_of_nat take_bit_nat_eq_self signed_take_bit_int_eq_self)

lemma pump_delivers:
  assumes "delivers tmo rr w bs"
  shows "\<exists>buf. pump tmo rr w = Ret (None, buf, bs, bs)"
proof -
  obtain r l rest where "safe_write w bs tmo = Ret (r, bs, l, rest)" "r = of_nat (length bs) \<or> r = w_junk w"
    using assms safe_write_done [of w tmo bs] by (auto simp: delivers_def)
  then show ?thesis using assms as_int_small [of bs] by (auto simp: pump_eq delivers_def)
qed

lemma calm_turn_step:
  assumes "calm_turn tmo t b c"
  shows "\<exists>buf. trans_data tmo (t # ts) s = trans_data tmo ts
    (s\<lparr>from_back := from_back s @ b, to_client := to_client s @ b, from_client := from_client s @ c, to_back := to_back s @ c, iobuf := buf\<rparr>)"
proof (cases "t_select t = 0")
  case True
  then show ?thesis using assms by (intro exI [of _ "iobuf s"]) (simp add: calm_turn_def)
next
  case False
  let ?s1 = "\<lambda>buf. s\<lparr>from_back := from_back s @ b, to_client := to_client s @ b, iobuf := buf\<rparr>"
  have "\<exists>buf. back_half tmo t s = Ret (None, ?s1 buf)"
    using assms False pump_delivers [of tmo "t_rback t" "t_wclient t" b]
    by (cases "t_back t") (auto simp: calm_turn_def back_half_def intro: exI [of "\<lambda>b'. s = s\<lparr>iobuf := b'\<rparr>" "iobuf s"])
  then obtain buf where "back_half tmo t s = Ret (None, ?s1 buf)" by blast
  moreover have "\<exists>buf'. client_half tmo t (?s1 buf)
      = Ret (None, (?s1 buf)\<lparr>from_client := from_client s @ c, to_back := to_back s @ c, iobuf := buf'\<rparr>)"
    using assms False pump_delivers [of tmo "t_rclient t" "t_wback t" c]
    by (cases "t_client t") (auto simp: calm_turn_def client_half_def intro: exI [of "\<lambda>b'. s\<lparr>from_back := from_back s @ b, to_client := to_client s @ b, iobuf := buf\<rparr>
        = s\<lparr>from_back := from_back s @ b, to_client := to_client s @ b, iobuf := b'\<rparr>" buf])
  ultimately show ?thesis using assms False by (auto simp: calm_turn_def)
qed

lemma calm_turns:
  assumes "list_all2 (\<lambda>t (b, c). calm_turn tmo t b c) ts bcs"
  shows "\<exists>s'. trans_data tmo (ts @ us) s = trans_data tmo us s' \<and>
    from_back s' = from_back s @ concat (map fst bcs) \<and> to_client s' = to_client s @ concat (map fst bcs) \<and>
    from_client s' = from_client s @ concat (map snd bcs) \<and> to_back s' = to_back s @ concat (map snd bcs)"
  using assms
proof (induction ts bcs arbitrary: s rule: list_all2_induct)
  case (Cons t ts bc bcs)
  obtain b c where bc: "bc = (b, c)" by fastforce
  then obtain buf where "trans_data tmo (t # (ts @ us)) s = trans_data tmo (ts @ us)
    (s\<lparr>from_back := from_back s @ b, to_client := to_client s @ b, from_client := from_client s @ c, to_back := to_back s @ c, iobuf := buf\<rparr>)"
    using Cons.hyps(1) calm_turn_step [of tmo t b c "ts @ us" s] by auto
  then show ?case
    using Cons.IH [of "s\<lparr>from_back := from_back s @ b, to_client := to_client s @ b, from_client := from_client s @ c, to_back := to_back s @ c, iobuf := buf\<rparr>"] bc
    by auto
qed auto

lemma relay_done:
  assumes "list_all2 (\<lambda>t (b, c). calm_turn tmo t b c) ts bcs"
    and "0 < t_select t" "t_back t" "t_rback t = Bytes []"
  shows "\<exists>s. trans_data tmo (ts @ t # us) relay0 = Ret (0, s) \<and>
    from_back s = concat (map fst bcs) \<and> to_client s = concat (map fst bcs) \<and>
    from_client s = concat (map snd bcs) \<and> to_back s = concat (map snd bcs)"
proof -
  obtain s' where "trans_data tmo (ts @ t # us) relay0 = trans_data tmo (t # us) s'"
    "from_back s' = concat (map fst bcs)" "to_client s' = concat (map fst bcs)"
    "from_client s' = concat (map snd bcs)" "to_back s' = concat (map snd bcs)"
    using calm_turns [OF assms(1), of "t # us" relay0] by (auto simp: relay0_def)
  then show ?thesis using assms(2-4) by (auto simp: back_half_def pump_eq)
qed


section \<open>Starting the child\<close>

lemma getopt_word:
  assumes "o1 \<in> {CHR ''i'', CHR ''r'', CHR ''c''}" "s \<noteq> []"
  shows "getopt ((CHR ''-'' # o1 # s) # as) = (o1, s) # getopt as"
  using assms by auto

text \<open>The options the server gives to a child, read by the child.\<close>

lemma child_options:
  assumes "sid c \<noteq> []" "cfg_ini \<noteq> []" "length (sid c) + 2 < MAXLINE" "length (ip c) + length (port c) + 3 < MAXLINE" "length cfg_ini + 2 < MAXLINE"
  shows "set_options (getopt (tl (child_args cfg cfg_ini c))) child0
    = Some (child0\<lparr>mid := sid c, client_addr := ip c @ '':'' @ port c, cfg_file := cfg_ini\<rparr>)"
  using assms by (simp add: child_args_def snprintf_s_def child0_def)

lemma split_addr_v4:
  assumes "client_addr c = i @ '':'' @ p" "CHR '':'' \<notin> set i" "length i + length p < MAXLINE"
  shows "cip (split_addr c) = i" "cport_of (split_addr c) = p"
  using assms by (auto simp: split_addr_def snprintf_s_def takeWhile_append dropWhile_append)

text \<open>What the server tells a child arrives. From the arguments \<open>child_args\<close> builds for a client, the
  child's option loop recovers the session id, the client's address and the name of the configuration
  file, as long as they fit their buffers; splitting the address gives back address and port of an
  IPv4 client, while an IPv6 address is cut at its first colon.\<close>

theorem child_gets_args:
  assumes "sid c \<noteq> []" "cfg_ini \<noteq> []" "length (sid c) + 2 < MAXLINE" "length (ip c) + length (port c) + 3 < MAXLINE" "length cfg_ini + 2 < MAXLINE"
  shows "\<exists>ch. set_options (getopt (tl (child_args cfg cfg_ini c))) child0 = Some ch \<and>
    mid ch = sid c \<and> client_addr ch = ip c @ '':'' @ port c \<and> cfg_file ch = cfg_ini \<and>
    (CHR '':'' \<notin> set (ip c) \<longrightarrow> cip (split_addr ch) = ip c \<and> cport_of (split_addr ch) = port c) \<and>
    (\<forall>i r. ip c = i @ '':'' @ r \<longrightarrow> CHR '':'' \<notin> set i \<longrightarrow> cip (split_addr ch) = i \<and> cport_of (split_addr ch) = r @ '':'' @ port c)"
proof -
  let ?ch = "child0\<lparr>mid := sid c, client_addr := ip c @ '':'' @ port c, cfg_file := cfg_ini\<rparr>"
  have v4: "cip (split_addr ?ch) = ip c \<and> cport_of (split_addr ?ch) = port c" if "CHR '':'' \<notin> set (ip c)"
    using split_addr_v4 [of ?ch "ip c" "port c"] that assms(4) by simp
  have v6: "cip (split_addr ?ch) = i \<and> cport_of (split_addr ?ch) = r @ '':'' @ port c"
    if "ip c = i @ '':'' @ r" "CHR '':'' \<notin> set i" for i r
    using split_addr_v4 [of ?ch i "r @ '':'' @ port c"] that assms(4) by simp
  show ?thesis using child_options [OF assms, of cfg] v4 v6 by (intro exI [of _ ?ch]) auto
qed

theorem child_gets_args_witness:
  "let c = empty_client\<lparr>sid := ''4F'', ip := ''10.0.0.1'', port := ''80''\<rparr>; cfg = \<lparr>clog_level = [], cport = [], cmax_connect = [], cpidfile = [], child_exec = ''x'', crw_timeout = []\<rparr>
   in \<exists>ch. set_options (getopt (tl (child_args cfg ''a.ini'' c))) child0 = Some ch \<and> mid ch = ''4F'' \<and> cfg_file ch = ''a.ini'' \<and> cip (split_addr ch) = ''10.0.0.1'' \<and> cport_of (split_addr ch) = ''80''"
  using child_gets_args [of "empty_client\<lparr>sid := ''4F'', ip := ''10.0.0.1'', port := ''80''\<rparr>" "''a.ini''"
    "\<lparr>clog_level = [], cport = [], cmax_connect = [], cpidfile = [], child_exec = ''x'', crw_timeout = []\<rparr>"] by (auto simp: MAXLINE_def)

lemma required_s_spec: "dict_wf d \<Longrightarrow> dict_abs d key = Some (Some v) \<Longrightarrow> required_s d key sz = Some (snprintf_s sz v)"
  by (simp add: required_s_def dictionary_get_spec ptr_of_def)


lemma optional_s_spec: "dict_wf d \<Longrightarrow> optional_s d key sz =
    Some (case dict_abs d key of Some (Some v) \<Rightarrow> Some (snprintf_s sz v) | _ \<Rightarrow> None)"
  by (auto simp: optional_s_def dictionary_get_spec ptr_of_def split: option.splits)

text \<open>The settings of the child. Those it needs and does not find make it fail, but the first two lead to
  undefined behaviour, because their defaults are numbers printed as strings.\<close>

definition child_result :: "(string \<Rightarrow> string option option) \<Rightarrow> child \<Rightarrow> (int \<times> child) option" where
  "child_result b c =
    (case (b ''child:log_level'', b ''child:rw_timeout'') of
       (Some (Some l), Some (Some t)) \<Rightarrow>
         let c1 = c\<lparr>level := take 127 l, timeout := take 127 t\<rparr>
         in Some (case b ''child:back_ip'' of
             Some (Some i) \<Rightarrow>
               let c2 = c1\<lparr>cback_ip := take 1023 i\<rparr>
               in (case b ''child:back_port'' of Some (Some p) \<Rightarrow> (0, c2\<lparr>cback_port := take 1023 p\<rparr>) | _ \<Rightarrow> (1, c2))
           | _ \<Rightarrow> (1, c1))
     | _ \<Rightarrow> None)"

lemma required_s_None: "dict_wf d \<Longrightarrow> \<forall>v. dict_abs d key \<noteq> Some (Some v) \<Longrightarrow> required_s d key sz = None"
  by (auto simp: required_s_def dictionary_get_spec ptr_of_def split: option.splits)

lemma get_child_config_spec:
  assumes "good_doc [] is" "fmt = key_sprintf \<or> fmt = key_snprintf" "below \<noteq> BSL" "fs cfg_ini = Some (doc_text is)"
  shows "get_child_config (fmt, below, alloc_ok) fs cfg_ini c = child_result (updates Map.empty (doc_updates [] is)) c"
proof -
  obtain d where d: "iniparser_load fmt below alloc_ok (Some (doc_text is)) = Some (Some d)" "dict_wf d"
    "dict_abs d = updates Map.empty (doc_updates [] is)"
    using open_doc(1) [OF assms(1-3)] by blast
  have r: "required_s d key sz = (case dict_abs d key of Some (Some v) \<Rightarrow> Some (take (sz - 1) v) | _ \<Rightarrow> None)" for key sz
    using required_s_spec [OF d(2)] required_s_None [OF d(2)] by (auto simp: snprintf_s_def split: option.splits)
  show ?thesis
    by (simp add: get_child_config_def open_conf_file_def assms(4) d(1) r optional_s_spec [OF d(2)] child_result_def d(3) [symmetric]
        MAXLINE_def snprintf_s_def split: option.split)
qed

section \<open>The whole process\<close>

lemma say_and_exit_spec:
  "case say_and_exit w tmo msg errnum fd of
     Undef \<Rightarrow> False | Waiting s \<Rightarrow> s = relay0
   | Ret f \<Rightarrow> f_relay f = relay0 \<and> f_status f = errnum mod 256 \<and> f_closed f = close_all_fd fd \<and> f_back_fd f = fd \<and> prefix (f_said f) (bytes msg)"
  using safe_write_spec [where w = w and buf = "bytes msg" and t = tmo]
  by (auto simp: say_and_exit_def exit_cleanup_def split: outcome.splits)

lemma trans_data_relay0:
  "case trans_data tmo ts relay0 of Undef \<Rightarrow> False | Waiting s \<Rightarrow> behind s | Ret (v, s) \<Rightarrow> behind s \<and> (v = 0 \<longrightarrow> in_sync s)"
  by (rule trans_data_spec) (simp add: relay0_def in_sync_def)

lemma relay0_behind: "behind relay0"
  by (simp add: relay0_def behind_def)

text \<open>The checks of every end of the process.\<close>

definition ended_well :: "final \<Rightarrow> bool" where
  "ended_well f = (behind (f_relay f) \<and> {0, 1, 2} \<subseteq> set (f_closed f) \<and> (f_back_fd f \<noteq> -1 \<longrightarrow> f_back_fd f \<in> set (f_closed f)) \<and>
    f_status f \<in> {0, 1, 50, 242, 243} \<and> (f_said f \<noteq> [] \<longrightarrow> f_relay f = relay0 \<and> f_status f \<in> {242, 243}))"

lemma exit_ended_well:
  "behind s \<Longrightarrow> errnum \<in> {0, 1, 50} \<Longrightarrow> ended_well (exit_cleanup errnum [] s fd)"
  by (auto simp: ended_well_def exit_cleanup_def close_all_fd_def)

definition sound :: "(relay, final) outcome \<Rightarrow> bool" where
  "sound res = (case res of Undef \<Rightarrow> False | Waiting s \<Rightarrow> behind s | Ret f \<Rightarrow> ended_well f)"

lemma sound_Ret [simp]: "sound (Ret f) = ended_well f" and sound_Waiting [simp]: "sound (Waiting s) = behind s" and sound_Undef [simp]: "\<not> sound Undef"
  by (simp_all add: sound_def)

lemma say_ended_well:
  assumes "errnum \<in> {1010, 1011}"
  shows "sound (say_and_exit w tmo msg errnum fd)"
  using say_and_exit_spec [where w = w and tmo = tmo and msg = msg and errnum = errnum and fd = fd] assms relay0_behind
  by (auto simp: ended_well_def close_all_fd_def sound_def split: outcome.splits)


lemma child_main_relay:
  assumes "set_options (getopt args) child0 = Some c0" "get_child_config env fs (cfg_file c0) c0 = Some (0, c1)"
    and "m_ndelay_client e" "m_ndelay_back e" "connect_to_back_server (m_addrs e) = fd" "0 \<le> fd"
    and "m_turns e = ts @ t # us" "list_all2 (\<lambda>t (b, c). calm_turn (atoi (timeout c1)) t b c) ts bcs"
    and "0 < t_select t" "t_back t" "t_rback t = Bytes []"
  shows "\<exists>s. child_main env fs e args = Ret (exit_cleanup 1 [] s fd) \<and>
    from_back s = concat (map fst bcs) \<and> to_client s = concat (map fst bcs) \<and>
    from_client s = concat (map snd bcs) \<and> to_back s = concat (map snd bcs)"
proof -
  have "timeout (split_addr c1) = timeout c1" by (simp add: split_addr_def)
  moreover obtain s where "trans_data (atoi (timeout c1)) (ts @ t # us) relay0 = Ret (0, s)"
    "from_back s = concat (map fst bcs)" "to_client s = concat (map fst bcs)"
    "from_client s = concat (map snd bcs)" "to_back s = concat (map snd bcs)"
    using relay_done [OF assms(8-11), of us] by blast
  ultimately show ?thesis using assms(1-7) by (intro exI [of _ s]) (simp add: child_main_def)
qed


text \<open>The value \<open>safe_write\<close> does not return decides about the connection. When a chunk from the back
  server is taken by the client in more than one portion and the indeterminate result happens to be
  negative, \<open>trans_data\<close> gives up with -1 although everything has been passed on.\<close>

theorem relay_result_lost:
  assumes "t_rback t = Bytes bs" "bs \<noteq> []" "length bs \<le> MAXBUF" "0 < t_select t" "t_back t"
    and "first_ok (t_wclient t)" "first_taken (t_wclient t) < length bs" "patient_w tmo (w_time (t_wclient t)) (w_rounds (t_wclient t))"
    "length bs \<le> first_taken (t_wclient t) + capacity (w_rounds (t_wclient t))" "as_int (w_junk (t_wclient t)) < 0"
  shows "\<exists>s. trans_data tmo (t # ts) relay0 = Ret (-1, s) \<and> in_sync s \<and> to_client s = bs"
proof -
  obtain r l rest where w: "safe_write (t_wclient t) bs tmo = Ret (r, bs, l, rest)"
    using safe_write_done [OF assms(6,8,9)] by blast
  then have "r = w_junk (t_wclient t)"
    using safe_write_spec [where w = "t_wclient t" and buf = bs and t = tmo] assms(2,7) by simp
  then show ?thesis using assms(1-5,10) w by (auto simp: back_half_def pump_eq relay0_def in_sync_def)
qed

text \<open>A turn in which both sides are ready and accept everything in one portion, or the client in two.\<close>

definition prompt_writer :: wr_script where
  "prompt_writer = \<lparr>w_first = Wrote 4096, w_time = 0, w_rounds = [], w_junk = 0\<rparr>"

definition slow_writer :: "u64 \<Rightarrow> wr_script" where
  "slow_writer junk = \<lparr>w_first = Wrote 1, w_time = 0,
     w_rounds = [\<lparr>s_cnt = 1, s_errno = EINTR, s_now = 0, s_isset = True, s_io = Wrote 4096, s_after = 0\<rparr>], w_junk = junk\<rparr>"

definition both_ready :: "byte list \<Rightarrow> byte list \<Rightarrow> turn" where
  "both_ready b c = \<lparr>t_select = 2, t_back = True, t_client = True, t_rback = Bytes b, t_wclient = slow_writer 0,
     t_rclient = Bytes c, t_wback = prompt_writer\<rparr>"

lemma slow_writer_facts:
  "first_ok (slow_writer j)" "first_taken (slow_writer j) = 1" "patient_w t (w_time (slow_writer j)) (w_rounds (slow_writer j))"
  "capacity (w_rounds (slow_writer j)) = 4096" "w_junk (slow_writer j) = j"
  by (simp_all add: slow_writer_def first_ok_def first_taken_def RW_MAX_def calm_w_def capacity_def accepts_def reads_def)

lemma prompt_writer_facts:
  "first_ok prompt_writer" "first_taken prompt_writer = 4096" "patient_w t (w_time prompt_writer) (w_rounds prompt_writer)" "w_junk prompt_writer = 0"
  by (simp_all add: prompt_writer_def first_ok_def first_taken_def RW_MAX_def)

lemma as_int_0: "as_int 0 = 0"
  by (simp add: as_int_def)

lemma both_ready_calm:
  assumes "b \<noteq> []" "c \<noteq> []" "length b \<le> MAXBUF" "length c \<le> MAXBUF"
  shows "calm_turn tmo (both_ready b c) b c"
  using assms by (auto simp: calm_turn_def both_ready_def delivers_def slow_writer_facts prompt_writer_facts as_int_0 MAXBUF_def)

theorem relay_result_lost_witness:
  "\<exists>s. trans_data 5 [(both_ready [1, 2] [3])\<lparr>t_wclient := slow_writer (-1)\<rparr>] relay0 = Ret (-1, s) \<and> in_sync s \<and> to_client s = [1, 2]"
  by (rule relay_result_lost) (simp_all add: both_ready_def slow_writer_facts MAXBUF_def)

theorem relay_exact_witness:
  "let t = (both_ready [1, 2] [3])\<lparr>t_wclient := (slow_writer 0)\<lparr>w_rounds := []\<rparr>\<rparr>
   in \<exists>s. trans_data 5 [t] relay0 = Waiting s \<and> behind s \<and> to_client s = [1]"
proof -
  let ?t = "(both_ready [1, 2] [3])\<lparr>t_wclient := (slow_writer 0)\<lparr>w_rounds := []\<rparr>\<rparr>"
  have "\<exists>s. trans_data 5 [?t] relay0 = Waiting s \<and> to_client s = [1]"
    by (simp add: back_half_def pump_eq both_ready_def slow_writer_def safe_write_def RW_MAX_def MAXBUF_def relay0_def Let_def)
  then obtain s where "trans_data 5 [?t] relay0 = Waiting s" "to_client s = [1]" by blast
  then show ?thesis unfolding Let_def using relay_exact [where tmo = 5 and ts = "[?t]"] by (simp del: trans_data.simps)
qed


definition child_doc :: "item list" where
  "child_doc = [Sec ''child'', KV ''log_level'' 0 ''8'', KV ''rw_timeout'' 0 ''5'', KV ''back_ip'' 0 ''1.2.3.4'', KV ''back_port'' 0 ''80'']"

lemma child_doc_good: "good_doc [] child_doc"
  by (simp add: child_doc_def good_sec_def good_key_def good_val_def good_name_def trimmed_def isspace_def tolower_def kv_line_def)

lemma child_doc_values:
  "updates Map.empty (doc_updates [] child_doc) ''child:log_level'' = Some (Some ''8'')"
  "updates Map.empty (doc_updates [] child_doc) ''child:rw_timeout'' = Some (Some ''5'')"
  "updates Map.empty (doc_updates [] child_doc) ''child:back_ip'' = Some (Some ''1.2.3.4'')"
  "updates Map.empty (doc_updates [] child_doc) ''child:back_port'' = Some (Some ''80'')"
  by (simp_all add: child_doc_def)

definition client1 :: client_st where
  "client1 = empty_client\<lparr>sid := ''4F'', ip := ''10.0.0.1'', port := ''80''\<rparr>"

definition config1 :: config where
  "config1 = \<lparr>clog_level = [], cport = [], cmax_connect = [], cpidfile = [], child_exec = ''x'', crw_timeout = []\<rparr>"

definition world1 :: "addrs \<Rightarrow> main_env" where
  "world1 a = \<lparr>m_ndelay_client = True, m_addrs = a, m_ndelay_back = True, m_wclient = prompt_writer,
     m_turns = [both_ready [1, 2] [3]] @ both_ready [] [] # []\<rparr>"

lemma client1_facts:
  "sid client1 \<noteq> []" "length (sid client1) + 2 < MAXLINE" "length (ip client1) + length (port client1) + 3 < MAXLINE"
  by (simp_all add: client1_def MAXLINE_def)

lemma world1_facts:
  "m_ndelay_client (world1 a)" "m_ndelay_back (world1 a)" "m_addrs (world1 a) = a" "m_turns (world1 a) = [both_ready [1, 2] [3]] @ both_ready [] [] # []"
  "0 < t_select (both_ready [] [])" "t_back (both_ready [] [])" "t_rback (both_ready [] []) = Bytes []"
  "list_all2 (\<lambda>t (b, c). calm_turn tmo t b c) [both_ready [1, 2] [3]] [([1, 2], [3])]"
proof -
  show "list_all2 (\<lambda>t (b, c). calm_turn tmo t b c) [both_ready [1, 2] [3]] [([1, 2], [3])]"
    by (simp add: both_ready_calm MAXBUF_def)
qed (simp_all add: world1_def both_ready_def)


text \<open>When the name of the back server cannot be resolved, \<open>connect_to_back_server\<close> returns 1, which \<open>main\<close>
  takes for a socket: the client gets no error message, everything it sends is written to descriptor
  1, the pipe to the parent process, and at the end this descriptor is closed twice.\<close>

theorem unresolved_back_server:
  assumes "set_options (getopt args) child0 = Some c0" "get_child_config env fs (cfg_file c0) c0 = Some (0, c1)"
    and "m_ndelay_client e" "m_ndelay_back e" "m_addrs e = None"
    and "m_turns e = ts @ t # us" "list_all2 (\<lambda>t (b, c). calm_turn (atoi (timeout c1)) t b c) ts bcs"
    and "0 < t_select t" "t_back t" "t_rback t = Bytes []"
  shows "\<exists>f. child_main env fs e args = Ret f \<and> f_said f = [] \<and> f_back_fd f = 1 \<and>
    to_back (f_relay f) = concat (map snd bcs) \<and> f_closed f = [2, 0, 1, 1]"
proof -
  have "connect_to_back_server (m_addrs e) = 1" using assms(5) by (simp add: connect_to_back_server_def)
  then obtain s where "child_main env fs e args = Ret (exit_cleanup 1 [] s 1)" "to_back s = concat (map snd bcs)"
    using child_main_relay [OF assms(1-4) _ _ assms(6-10)] by fastforce
  then show ?thesis by (simp add: exit_cleanup_def close_all_fd_def)
qed

theorem unresolved_back_server_witness:
  "\<exists>f. child_main (key_sprintf, CHR ''x'', alloc_ok) [''a.ini'' \<mapsto> doc_text child_doc] (world1 None) [''-ca.ini''] = Ret f \<and>
    f_back_fd f = 1 \<and> to_back (f_relay f) = [3]"
proof -
  let ?c0 = "child0\<lparr>cfg_file := ''a.ini''\<rparr>"
  have "set_options (getopt [''-ca.ini'']) child0 = Some ?c0" by (simp add: snprintf_s_def MAXLINE_def child0_def)
  moreover obtain c1 where "get_child_config (key_sprintf, CHR ''x'', alloc_ok) [''a.ini'' \<mapsto> doc_text child_doc] (cfg_file ?c0) ?c0 = Some (0, c1)"
    using get_child_config_spec [OF child_doc_good, of key_sprintf "CHR ''x''" "[''a.ini'' \<mapsto> doc_text child_doc]" "''a.ini''" ?c0]
    by (simp add: child_result_def child_doc_values Let_def)
  ultimately show ?thesis
    using unresolved_back_server [OF _ _ world1_facts(1-4) world1_facts(8) world1_facts(5-7)] by fastforce
qed

end
