(* ===== verification/Epoll_child.thy ===== *)
theory Epoll_child
  imports Epoll_io Ctchild
begin

text \<open>
  Model of \<^verbatim>\<open>samples/server_epoll/child.c\<close>: the child process of the \<open>epoll\<close> server from its event loop on,
  which relays with edge-triggered events. As in \<open>Ctio\<close> the kernel's answers are scripts. The
  log messages count where they read the buffer: with the default log level (8) all of them are
  produced, and a message that reads past the end of a buffer or prints a number as a string is
  undefined behaviour, \<open>Undef\<close>.
\<close>

section \<open>The child\<close>

definition MAX_LINE :: nat where "MAX_LINE = 1024"

datatype RSYNC_STATE = CONNECT | TRANS

text \<open>The state of the process. \<open>configured\<close> tells whether address and port of the back server are set;
  \<open>swallowed\<close> are the bytes of the client that were taken for commands.\<close>

record estate =
  configured :: bool
  client_state :: RSYNC_STATE
  back_state :: RSYNC_STATE
  e_back_fd :: int
  e_from_client :: "byte list"
  swallowed :: "byte list"
  e_to_back :: "byte list"
  e_from_back :: "byte list"
  e_to_client :: "byte list"
  e_said :: "byte list"
  client_buf_read_len :: u64
  client_buf_write_len :: u64
  back_buf_read_len :: u64
  back_buf_write_len :: u64

definition estate0 :: "bool \<Rightarrow> estate" where
  "estate0 conf = \<lparr>configured = conf, client_state = CONNECT, back_state = CONNECT, e_back_fd = -1, e_from_client = [], swallowed = [], e_to_back = [],
     e_from_back = [], e_to_client = [], e_said = [], client_buf_read_len = 0, client_buf_write_len = 0, back_buf_read_len = 0, back_buf_write_len = 0\<rparr>"

text \<open>Passing a chunk of the client on to the back server. The result is whether to go on (or to exit with
  21), and what was written.\<close>

primrec write_back :: "wr_res list \<Rightarrow> byte list \<Rightarrow> byte list \<Rightarrow> (byte list, bool \<times> byte list) outcome" where
  "write_back [] rest out = (if rest = [] then Ret (True, out) else Waiting out)"
| "write_back (w # ws) rest out =
    (if rest = [] then Ret (True, out)
     else (case w of
         Wr_err e \<Rightarrow> if e \<noteq> EAGAIN then Ret (False, out) else write_back ws rest out
       | Wrote k \<Rightarrow> let nw = min k (length rest) in write_back ws (drop nw rest) (out @ take nw rest)))"

text \<open>Passing a chunk of the back server on to the client. There is no \<open>continue\<close> after an error: \<open>nw = -1\<close>
  is subtracted from the number of bytes left and added to the counter, and the next \<open>write\<close> starts one
  byte earlier, possibly before the buffer. An error other than \<open>EAGAIN\<close> is logged with the
  descriptor, a small number, for \<open>%s\<close>.\<close>

primrec write_client :: "wr_res list \<Rightarrow> byte list \<Rightarrow> int \<Rightarrow> byte list \<Rightarrow> u64 \<Rightarrow> (byte list \<times> u64, byte list \<times> u64) outcome" where
  "write_client [] data nw_tmp out len = (if nw_tmp \<le> 0 then Ret (out, len) else Waiting (out, len))"
| "write_client (w # ws) data nw_tmp out len =
    (if nw_tmp \<le> 0 then Ret (out, len)
     else
       let off = int (length data) - nw_tmp
       in if off < 0 then Undef
          else (case w of
              Wr_err e \<Rightarrow> if e \<noteq> EAGAIN then Undef else write_client ws data (nw_tmp + 1) out (len - 1)
            | Wrote k \<Rightarrow>
                let nw = min k (nat nw_tmp)
                in write_client ws data (nw_tmp - int nw) (out @ take nw (drop (nat off) data)) (len + of_nat nw)))"

text \<open>The answers while connecting: the descriptor \<open>connect_to_back_server\<close> returns, whether \<open>fcntl\<close> and
  \<open>epoll_ctl\<close> succeed, and the \<open>write\<close> of an error message.\<close>

record connecting =
  c_fd :: int
  c_ndelay :: bool
  c_epoll :: bool
  c_write :: wr_res

definition say_error :: "wr_res \<Rightarrow> string \<Rightarrow> estate \<Rightarrow> estate" where
  "say_error w msg s = (case w of Wr_err _ \<Rightarrow> s | Wrote k \<Rightarrow> s\<lparr>e_said := e_said s @ take k (bytes (msg @ [CHR 0x0A]))\<rparr>)"

definition process_client_cmd :: "connecting \<Rightarrow> estate \<Rightarrow> int option \<times> estate" where
  "process_client_cmd c s =
    (if client_state s = CONNECT \<and> configured s then
       (let s1 = s\<lparr>e_back_fd := c_fd c\<rparr>
        in if c_fd c < 0 then (Some 1010, say_error (c_write c) ''@ERROR: SYSTEM ERROR 1010'' s1)
           else if \<not> c_ndelay c then (Some 1011, say_error (c_write c) ''@ERROR: SYSTEM ERROR 1011'' s1)
           else if \<not> c_epoll c then (Some 1012, say_error (c_write c) ''@ERROR: SYSTEM ERROR 1012'' s1)
           else (None, s1\<lparr>client_state := TRANS, back_state := TRANS, client_buf_read_len := 0, client_buf_write_len := 0,
                    back_buf_read_len := 0, back_buf_write_len := 0\<rparr>))
     else (None, s))"

record eread =
  r_read :: rd_res
  r_writes :: "wr_res list"
  r_connect :: connecting

text \<open>The loops that read until \<open>EAGAIN\<close>. The result of a loop is the number given to \<open>exit_cleanup\<close>, or \<open>None\<close>
  when it is left with \<open>break\<close>. A chunk that fills \<open>buf\<close> is undefined behaviour in both states: the log
  message reads \<open>buf[nr]\<close>, or prints \<open>buf\<close> as a string without terminator.\<close>

primrec client_reads :: "eread list \<Rightarrow> estate \<Rightarrow> (estate, int option \<times> estate) outcome" where
  "client_reads [] s = Waiting s"
| "client_reads (r # rs) s =
    (case r_read r of
       Rd_err e \<Rightarrow> if e = EAGAIN then Ret (None, s) else if e = EINTR then client_reads rs s else Ret (Some 51, s)
     | Bytes bs \<Rightarrow>
         let data = take MAX_LINE bs
         in if data = [] then Ret (Some 10, s)
            else if length data = MAX_LINE then Undef
            else
              let s1 = s\<lparr>e_from_client := e_from_client s @ data, client_buf_read_len := client_buf_read_len s + of_nat (length data)\<rparr>
              in if client_state s = TRANS then
                   (if e_back_fd s \<noteq> -1 then
                      (case write_back (r_writes r) data [] of
                         Undef \<Rightarrow> Undef
                       | Waiting out \<Rightarrow> Waiting (s1\<lparr>e_to_back := e_to_back s @ out, back_buf_write_len := back_buf_write_len s + of_nat (length out)\<rparr>)
                       | Ret (ok, out) \<Rightarrow>
                           let s2 = s1\<lparr>e_to_back := e_to_back s @ out, back_buf_write_len := back_buf_write_len s + of_nat (length out)\<rparr>
                           in if ok then client_reads rs s2 else Ret (Some 21, s2))
                    else client_reads rs s1)
                 else (case process_client_cmd (r_connect r) (s1\<lparr>swallowed := swallowed s @ data\<rparr>) of
                     (Some code, s2) \<Rightarrow> Ret (Some code, s2)
                   | (None, s2) \<Rightarrow> client_reads rs s2))"

primrec back_reads :: "eread list \<Rightarrow> estate \<Rightarrow> (estate, int option \<times> estate) outcome" where
  "back_reads [] s = Waiting s"
| "back_reads (r # rs) s =
    (case r_read r of
       Rd_err e \<Rightarrow> if e = EAGAIN then Ret (None, s) else if e = EINTR then back_reads rs s else Ret (Some 51, s)
     | Bytes bs \<Rightarrow>
         let data = take MAX_LINE bs
         in if data = [] then Ret (Some 10, s)
            else if length data = MAX_LINE then Undef
            else
              let s1 = s\<lparr>e_from_back := e_from_back s @ data, back_buf_read_len := back_buf_read_len s + of_nat (length data)\<rparr>
              in if back_state s = TRANS then
                   (case write_client (r_writes r) data (int (length data)) [] (client_buf_write_len s) of
                      Undef \<Rightarrow> Undef
                    | Waiting (out, len) \<Rightarrow> Waiting (s1\<lparr>e_to_client := e_to_client s @ out, client_buf_write_len := len\<rparr>)
                    | Ret (out, len) \<Rightarrow> back_reads rs (s1\<lparr>e_to_client := e_to_client s @ out, client_buf_write_len := len\<rparr>))
                 else back_reads rs s1)"

record eevent =
  ev_fd :: int
  ev_in :: bool
  ev_hup :: bool
  ev_reads :: "eread list"

text \<open>One event: descriptor 2 is the client, 0 the pipe from the parent, whose data are ignored.\<close>

definition child_event :: "eevent \<Rightarrow> estate \<Rightarrow> (estate, int option \<times> estate) outcome" where
  "child_event ev s =
    (if ev_in ev \<and> ev_fd ev = 2 then client_reads (ev_reads ev) s
     else if ev_in ev \<and> ev_fd ev = e_back_fd s then back_reads (ev_reads ev) s
     else if ev_in ev \<and> ev_fd ev = 0 then Ret (None, s)
     else if ev_hup ev then Ret (Some 0, s)
     else Ret (None, s))"

primrec child_loop :: "eevent list \<Rightarrow> estate \<Rightarrow> (estate, int \<times> estate) outcome" where
  "child_loop [] s = Waiting s"
| "child_loop (ev # evs) s =
    (case child_event ev s of
       Undef \<Rightarrow> Undef
     | Waiting s' \<Rightarrow> Waiting s'
     | Ret (Some code, s') \<Rightarrow> Ret (code mod 256, s')
     | Ret (None, s') \<Rightarrow> child_loop evs s')"

section \<open>Starting\<close>

text \<open>The settings; the defaults are strings here, and the back server is optional. \<open>main\<close> reads the options
  as \<open>ctchild\<close> does (\<open>remote\<close> takes the place of \<open>client_addr\<close>), and every failure before the loop ends the
  process with 50.\<close>

definition DEF_CHILD_LEVEL :: string where "DEF_CHILD_LEVEL = ''8''"
definition DEF_CHILD_TIMEOUT :: string where "DEF_CHILD_TIMEOUT = ''2''"

definition get_epoll_config :: "env \<Rightarrow> (string \<Rightarrow> string option) \<Rightarrow> string \<Rightarrow> child \<Rightarrow> (int \<times> child) option" where
  "get_epoll_config env fs cfg_ini c = do {
     dict_conf \<leftarrow> open_conf_file env fs [] (Some cfg_ini);
     case dict_conf of
       None \<Rightarrow> Some (1, c)
     | Some d \<Rightarrow> do {
         log \<leftarrow> setting d ''child:log_level'' DEF_CHILD_LEVEL 128;
         rwt \<leftarrow> setting d ''child:rw_timeout'' DEF_CHILD_TIMEOUT 128;
         pback_ip \<leftarrow> optional_s d ''child:back_ip'' MAX_LINE;
         pback_port \<leftarrow> optional_s d ''child:back_port'' MAX_LINE;
         Some (0, c\<lparr>level := log, timeout := rwt, cback_ip := (case pback_ip of None \<Rightarrow> cback_ip c | Some i \<Rightarrow> i),
           cback_port := (case pback_port of None \<Rightarrow> cback_port c | Some p \<Rightarrow> p)\<rparr>) } }"

record start_env =
  st_malloc :: bool
  st_epoll_create :: bool
  st_client :: bool
  st_parent :: bool

definition epoll_child_main ::
  "env \<Rightarrow> (string \<Rightarrow> string option) \<Rightarrow> start_env \<Rightarrow> string list \<Rightarrow> eevent list \<Rightarrow> (estate, int \<times> estate) outcome" where
  "epoll_child_main env fs e args evs =
    (case set_options (getopt args) child0 of
       None \<Rightarrow> Ret (0, estate0 False)
     | Some c0 \<Rightarrow>
         (case get_epoll_config env fs (cfg_file c0) c0 of
            None \<Rightarrow> Undef
          | Some (r, c) \<Rightarrow>
              if r = 1 then Ret (50, estate0 False)
              else if \<not> st_malloc e \<or> \<not> st_epoll_create e \<or> \<not> st_client e \<or> \<not> st_parent e then Ret (50, estate0 False)
              else child_loop evs (estate0 (cback_ip c \<noteq> [] \<and> cback_port c \<noteq> []))))"

section \<open>The writers\<close>

lemma write_back_spec:
  "case write_back ws rest out of
     Undef \<Rightarrow> False
   | Waiting o' \<Rightarrow> strict_prefix o' (out @ rest)
   | Ret (ok, o') \<Rightarrow> prefix o' (out @ rest) \<and> (ok \<longrightarrow> o' = out @ rest)"
proof (induction ws arbitrary: rest out)
  case (Cons w ws)
  have e: "(out @ take n rest) @ drop n rest = out @ rest" for n by simp
  show ?case
    using Cons.IH [of out rest] Cons.IH [of "out @ take n rest" "drop n rest" for n, unfolded e]
    by (auto simp: Let_def split: wr_res.split)
qed (auto simp: strict_prefix_def)

definition back_send :: "wr_res list \<Rightarrow> byte list \<Rightarrow> byte list \<times> bool option" where
  "back_send ws data = (case write_back ws data [] of Undef \<Rightarrow> ([], Some False) | Waiting out \<Rightarrow> (out, None) | Ret (ok, out) \<Rightarrow> (out, Some ok))"

interpretation to_back: writer back_send
proof
  fix ws data
  note spec = write_back_spec [where ws = ws and rest = data and out = "[]"]
  show "prefix (fst (back_send ws data)) data" "snd (back_send ws data) = Some True \<Longrightarrow> fst (back_send ws data) = data"
    using spec by (auto simp: back_send_def split: outcome.splits)
qed

text \<open>The other direction keeps the order only as long as no write answers \<open>EAGAIN\<close>.\<close>

lemma write_client_spec:
  assumes "Wr_err EAGAIN \<notin> set ws" "data = done_part @ rest" "nw_tmp = int (length rest)" "out = pre @ done_part"
  shows "case write_client ws data nw_tmp out len of
     Undef \<Rightarrow> True
   | Waiting (o', _) \<Rightarrow> prefix o' (pre @ data)
   | Ret (o', _) \<Rightarrow> o' = pre @ data"
  using assms
proof (induction ws arbitrary: done_part rest nw_tmp out len)
  case (Cons w ws)
  show ?case
  proof (cases w)
    case (Wrote k)
    let ?n = "min k (length rest)"
    have "case write_client ws data (int (length (drop ?n rest))) (pre @ done_part @ take ?n rest) (len + of_nat ?n) of
        Undef \<Rightarrow> True | Waiting (o', _) \<Rightarrow> prefix o' (pre @ data) | Ret (o', _) \<Rightarrow> o' = pre @ data"
      using Cons.prems by (intro Cons.IH [of "done_part @ take ?n rest" "drop ?n rest"]) auto
    then show ?thesis using Cons.prems Wrote
      by (cases "rest = []") (auto simp: Let_def of_nat_diff)
  next
    case (Wr_err e)
    then show ?thesis using Cons.prems by (auto simp: Let_def)
  qed
qed auto

lemma client_order:
  assumes "Wr_err EAGAIN \<notin> set ws"
  shows "case write_client ws data (int (length data)) [] len of
     Undef \<Rightarrow> True | Waiting (o', _) \<Rightarrow> prefix o' data | Ret (o', _) \<Rightarrow> o' = data"
  using write_client_spec [where ws = ws and data = data and done_part = "[]" and rest = data and pre = "[]" and out = "[]" and len = len and nw_tmp = "int (length data)", unfolded append_Nil] assms
  by blast


section \<open>Both directions\<close>

text \<open>Between events: what the client sent was swallowed while connecting or has been passed on, and the
  back server's descriptor is known exactly while relaying. During an event something may be
  outstanding.\<close>

definition esync :: "estate \<Rightarrow> bool" where
  "esync s = (e_from_client s = swallowed s @ e_to_back s \<and> back_state s = client_state s \<and>
    (client_state s = CONNECT \<longrightarrow> e_to_back s = [] \<and> e_back_fd s = -1) \<and> (client_state s = TRANS \<longrightarrow> 0 \<le> e_back_fd s))"

definition elag :: "estate \<Rightarrow> bool" where
  "elag s = prefix (swallowed s @ e_to_back s) (e_from_client s)"

definition bsync :: "estate \<Rightarrow> bool" where
  "bsync s = (e_to_client s = e_from_back s)"

definition blag :: "estate \<Rightarrow> bool" where
  "blag s = prefix (e_to_client s) (e_from_back s)"

lemma sync_lag: "esync s \<Longrightarrow> elag s" "bsync s \<Longrightarrow> blag s"
  by (simp_all add: esync_def elag_def bsync_def blag_def)

definition no_eagain :: "eread list \<Rightarrow> bool" where
  "no_eagain rs = (\<forall>r \<in> set rs. Wr_err EAGAIN \<notin> set (r_writes r))"

definition client_ok :: "bool \<Rightarrow> (estate, int option \<times> estate) outcome \<Rightarrow> bool" where
  "client_ok b res = (case res of Undef \<Rightarrow> True | Waiting s \<Rightarrow> elag s \<and> (b \<longrightarrow> blag s)
     | Ret (v, s) \<Rightarrow> elag s \<and> (b \<longrightarrow> blag s) \<and> (v = None \<longrightarrow> esync s \<and> (b \<longrightarrow> bsync s)))"

lemma client_ok_simps [simp]:
  "client_ok b Undef" "client_ok b (Waiting s) = (elag s \<and> (b \<longrightarrow> blag s))"
  "client_ok b (Ret (None, s)) = (elag s \<and> (b \<longrightarrow> blag s) \<and> esync s \<and> (b \<longrightarrow> bsync s))"
  "client_ok b (Ret (Some c, s)) = (elag s \<and> (b \<longrightarrow> blag s))"
  by (auto simp: client_ok_def)

lemma connect_step:
  assumes "esync s" "client_state s = CONNECT" "t = s\<lparr>e_from_client := e_from_client s @ data, client_buf_read_len := n, swallowed := swallowed s @ data\<rparr>"
  shows "case process_client_cmd c t of
     (Some code, u) \<Rightarrow> elag u \<and> e_to_client u = e_to_client s \<and> e_from_back u = e_from_back s
   | (None, u) \<Rightarrow> esync u \<and> e_to_client u = e_to_client s \<and> e_from_back u = e_from_back s"
  using assms by (auto simp: process_client_cmd_def say_error_def esync_def elag_def Let_def split: wr_res.split)

definition passed_back :: "estate \<Rightarrow> byte list \<Rightarrow> byte list \<Rightarrow> estate" where
  "passed_back s data out = s\<lparr>e_from_client := e_from_client s @ data, client_buf_read_len := client_buf_read_len s + of_nat (length data),
     e_to_back := e_to_back s @ out, back_buf_write_len := back_buf_write_len s + of_nat (length out)\<rparr>"

lemma passed_back_ok:
  assumes "esync s" "client_state s = TRANS" "b \<longrightarrow> bsync s"
  shows "prefix out data \<Longrightarrow> elag (passed_back s data out)" "b \<longrightarrow> bsync (passed_back s data out) \<and> blag (passed_back s data out)"
    "esync (passed_back s data data)"
  using assms by (simp_all add: passed_back_def esync_def elag_def bsync_def blag_def)

text \<open>The loops on a chunk, with the chunk as a variable.\<close>

lemma client_reads_chunk:
  assumes "r_read r = Bytes bs" "data = take MAX_LINE bs" "data \<noteq> []" "length data \<noteq> MAX_LINE"
  shows "client_reads (r # rs) s =
    (if client_state s = TRANS then
       (if e_back_fd s \<noteq> -1 then
          (case write_back (r_writes r) data [] of
             Undef \<Rightarrow> Undef
           | Waiting out \<Rightarrow> Waiting (passed_back s data out)
           | Ret (ok, out) \<Rightarrow> if ok then client_reads rs (passed_back s data out) else Ret (Some 21, passed_back s data out))
        else client_reads rs (s\<lparr>e_from_client := e_from_client s @ data, client_buf_read_len := client_buf_read_len s + of_nat (length data)\<rparr>))
     else (case process_client_cmd (r_connect r) (s\<lparr>e_from_client := e_from_client s @ data,
              client_buf_read_len := client_buf_read_len s + of_nat (length data), swallowed := swallowed s @ data\<rparr>) of
         (Some code, s2) \<Rightarrow> Ret (Some code, s2)
       | (None, s2) \<Rightarrow> client_reads rs s2))"
  using assms(3,4) by (simp only: client_reads.simps assms(1) assms(2) [symmetric] rd_res.case Let_def if_False passed_back_def)

lemma client_reads_edge:
  assumes "r_read r = Bytes bs" "take MAX_LINE bs = [] \<or> length (take MAX_LINE bs) = MAX_LINE"
  shows "client_reads (r # rs) s = (if take MAX_LINE bs = [] then Ret (Some 10, s) else Undef)"
    and "back_reads (r # rs) s = (if take MAX_LINE bs = [] then Ret (Some 10, s) else Undef)"
  using assms by (auto simp: Let_def)

definition passed_client :: "estate \<Rightarrow> byte list \<Rightarrow> byte list \<Rightarrow> u64 \<Rightarrow> estate" where
  "passed_client s data out l = s\<lparr>e_from_back := e_from_back s @ data, back_buf_read_len := back_buf_read_len s + of_nat (length data),
     e_to_client := e_to_client s @ out, client_buf_write_len := l\<rparr>"

lemma back_reads_chunk:
  assumes "r_read r = Bytes bs" "data = take MAX_LINE bs" "data \<noteq> []" "length data \<noteq> MAX_LINE" "back_state s = TRANS"
  shows "back_reads (r # rs) s =
    (case write_client (r_writes r) data (int (length data)) [] (client_buf_write_len s) of
       Undef \<Rightarrow> Undef
     | Waiting (out, l) \<Rightarrow> Waiting (passed_client s data out l)
     | Ret (out, l) \<Rightarrow> back_reads rs (passed_client s data out l))"
  using assms(3-5) by (simp only: back_reads.simps assms(1) assms(2) [symmetric] rd_res.case Let_def if_False passed_client_def simp_thms if_True)

lemma passed_client_ok:
  assumes "esync s" "b \<longrightarrow> bsync s" "back_state s = TRANS"
  shows "esync (passed_client s data out l)" "elag (passed_client s data out l)" "back_state (passed_client s data out l) = TRANS"
    "b \<longrightarrow> prefix out data \<Longrightarrow> b \<longrightarrow> blag (passed_client s data out l)" "b \<longrightarrow> out = data \<Longrightarrow> b \<longrightarrow> bsync (passed_client s data out l)"
  using assms by (auto simp: passed_client_def esync_def elag_def bsync_def blag_def)

lemma client_reads_ok:
  assumes "esync s" "b \<longrightarrow> bsync s"
  shows "client_ok b (client_reads rs s)"
  using assms
proof (induction rs arbitrary: s)
  case Nil
  then show ?case using sync_lag by auto
next
  case (Cons r rs)
  note lag = sync_lag(1) [OF Cons.prems(1)]
  have blag: "b \<longrightarrow> blag s" using Cons.prems(2) sync_lag(2) by blast
  show ?case
  proof (cases "r_read r")
    case (Rd_err e)
    then show ?thesis using Cons lag blag by auto
  next
    case (Bytes bs)
    define d where "d = take MAX_LINE bs"
    note chunk = client_reads_chunk [OF Bytes d_def, of rs s]
    consider (edge) "d = [] \<or> length d = MAX_LINE" | (connect) "d \<noteq> []" "length d \<noteq> MAX_LINE" "client_state s = CONNECT"
      | (trans) "d \<noteq> []" "length d \<noteq> MAX_LINE" "client_state s = TRANS"
      using RSYNC_STATE.exhaust by blast
    then show ?thesis
    proof cases
      case edge
      then show ?thesis using client_reads_edge(1) [OF Bytes, of rs s] lag blag by (simp only: d_def [symmetric]) simp
    next
      case connect
      define t where "t = s\<lparr>e_from_client := e_from_client s @ d, client_buf_read_len := client_buf_read_len s + of_nat (length d), swallowed := swallowed s @ d\<rparr>"
      obtain v u where p: "process_client_cmd (r_connect r) t = (v, u)" by fastforce
      have C: "case (v, u) of (Some code, u) \<Rightarrow> elag u \<and> e_to_client u = e_to_client s \<and> e_from_back u = e_from_back s
          | (None, u) \<Rightarrow> esync u \<and> e_to_client u = e_to_client s \<and> e_from_back u = e_from_back s"
        using connect_step [OF Cons.prems(1) connect(3) t_def, of "r_connect r"] p by simp
      then have "b \<longrightarrow> bsync u" "b \<longrightarrow> blag u"
        using Cons.prems(2) by (auto simp: bsync_def blag_def split: option.splits)
      then show ?thesis using chunk connect C p Cons.IH [of u] by (cases v) (simp_all add: t_def)
    next
      case trans
      note P = passed_back_ok [OF Cons.prems(1) trans(3) Cons.prems(2)]
      have fd: "e_back_fd s \<noteq> -1" using Cons.prems(1) trans(3) by (auto simp: esync_def)
      note W = write_back_spec [where ws = "r_writes r" and rest = d and out = "[]", unfolded append_Nil]
      show ?thesis
      proof (cases "write_back (r_writes r) d []")
        case (Waiting out)
        then show ?thesis using chunk trans fd W P(1) [of out d] P(2) [of d out] by (simp add: strict_prefix_def)
      next
        case (Ret x)
        obtain ok out where x: "x = (ok, out)" by fastforce
        then show ?thesis using chunk trans fd W Ret P(1) [of out d] P(2) [of d out] P(3) [of d] P(2) [of d d] Cons.IH [of "passed_back s d d"]
          by (cases ok) auto
      qed (use W in simp)
    qed
  qed
qed

lemma back_reads_ok:
  assumes "esync s" "b \<longrightarrow> bsync s" "b \<longrightarrow> no_eagain rs" "back_state s = TRANS"
  shows "client_ok b (back_reads rs s)"
  using assms
proof (induction rs arbitrary: s)
  case Nil
  then show ?case using sync_lag by auto
next
  case (Cons r rs)
  note lag = sync_lag(1) [OF Cons.prems(1)]
  have blag: "b \<longrightarrow> blag s" using Cons.prems(2) sync_lag(2) by blast
  have nb: "b \<longrightarrow> no_eagain rs" "b \<longrightarrow> Wr_err EAGAIN \<notin> set (r_writes r)" using Cons.prems(3) by (auto simp: no_eagain_def)
  show ?case
  proof (cases "r_read r")
    case (Rd_err e)
    then show ?thesis using Cons lag blag nb by auto
  next
    case (Bytes bs)
    define d where "d = take MAX_LINE bs"
    note P = passed_client_ok [OF Cons.prems(1,2,4), where data = d]
    have W: "b \<longrightarrow> (case write_client (r_writes r) d (int (length d)) [] (client_buf_write_len s) of
        Undef \<Rightarrow> True | Waiting (o', _) \<Rightarrow> prefix o' d | Ret (o', _) \<Rightarrow> o' = d)"
      using nb(2) client_order by blast
    show ?thesis
    proof (cases "d = [] \<or> length d = MAX_LINE")
      case True
      then show ?thesis using client_reads_edge(2) [OF Bytes, of rs s] lag blag by (simp only: d_def [symmetric]) simp
    next
      case False
      then have chunk: "back_reads (r # rs) s = (case write_client (r_writes r) d (int (length d)) [] (client_buf_write_len s) of
          Undef \<Rightarrow> Undef | Waiting (out, l) \<Rightarrow> Waiting (passed_client s d out l) | Ret (out, l) \<Rightarrow> back_reads rs (passed_client s d out l))"
        using back_reads_chunk [OF Bytes d_def _ _ Cons.prems(4)] by simp
      show ?thesis
      proof (cases "write_client (r_writes r) d (int (length d)) [] (client_buf_write_len s)")
        case (Waiting x)
        obtain out l where "x = (out, l)" by fastforce
        then show ?thesis using chunk Waiting W P(2) [of out l] P(4) [where out = out and l = l] by simp
      next
        case (Ret x)
        obtain out l where "x = (out, l)" by fastforce
        then show ?thesis using chunk Ret W P(1,2,3) [of out l] P(5) [where out = out and l = l] nb(1) Cons.IH [of "passed_client s d out l"] by simp
      qed (use chunk in simp)
    qed
  qed
qed

lemma child_loop_ok:
  assumes "esync s" "b \<longrightarrow> bsync s" "\<forall>ev \<in> set evs. 0 \<le> ev_fd ev \<and> (b \<longrightarrow> no_eagain (ev_reads ev))"
  shows "case child_loop evs s of Undef \<Rightarrow> True | Waiting s' \<Rightarrow> elag s' \<and> (b \<longrightarrow> blag s') | Ret (_, s') \<Rightarrow> elag s' \<and> (b \<longrightarrow> blag s')"
  using assms
proof (induction evs arbitrary: s)
  case Nil
  then show ?case using sync_lag by auto
next
  case (Cons ev evs)
  have "back_state s = TRANS" if "ev_fd ev = e_back_fd s"
    using that Cons.prems(1,3) by (cases "client_state s") (auto simp: esync_def)
  then have ok: "client_ok b (child_event ev s)"
    using client_reads_ok [OF Cons.prems(1,2)] back_reads_ok [OF Cons.prems(1,2)] Cons.prems sync_lag
    by (auto simp: child_event_def)
  show ?case
  proof (cases "child_event ev s")
    case (Ret x)
    obtain v s' where x: "x = (v, s')" by fastforce
    then show ?thesis using ok Ret Cons.IH [of s'] Cons.prems(3) by (cases v) auto
  qed (use ok in auto)
qed


section \<open>What goes wrong\<close>

lemma write_client_resends:
  assumes "0 < k" "k < length data" "length data - k < m"
  shows "write_client (Wrote k # Wr_err EAGAIN # Wrote m # ws) data (int (length data)) [] len
    = Ret (take k data @ drop (k - 1) data, len + of_nat k - 1 + of_nat (length data - k + 1))"
proof -
  have "nat (int (length data) - int k + 1) = length data - k + 1" "min m (length data - k + 1) = length data - k + 1"
    using assms by auto
  moreover have "nat (int k - 1) = k - 1" by simp
  moreover have "take (length data - k + 1) (drop (k - 1) data) = drop (k - 1) data" using assms by simp
  ultimately show ?thesis using assms by (cases ws) (simp_all add: Let_def)
qed

lemma write_client_before:
  assumes "data \<noteq> []"
  shows "write_client (Wr_err EAGAIN # w # ws) data (int (length data)) [] len = Undef"
  using assms by (simp add: Let_def)

text \<open>A chunk of the back server with a given outcome of the writes, and the end of the data.\<close>

definition chunk_read :: "byte list \<Rightarrow> wr_res list \<Rightarrow> eread" where
  "chunk_read bs ws = \<lparr>r_read = Bytes bs, r_writes = ws, r_connect = \<lparr>c_fd = 3, c_ndelay = True, c_epoll = True, c_write = Wrote 0\<rparr>\<rparr>"

definition no_more :: eread where
  "no_more = (chunk_read [] [])\<lparr>r_read := Rd_err EAGAIN\<rparr>"



text \<open>The first message of a client only makes the child connect; it is not passed on.\<close>

definition hello :: eevent where
  "hello = \<lparr>ev_fd = 2, ev_in = True, ev_hup = False, ev_reads = [chunk_read [72, 73] [], no_more]\<rparr>"

lemma first_message_lost:
  "\<exists>s. child_event hello (estate0 True) = Ret (None, s) \<and> client_state s = TRANS \<and> e_back_fd s = 3 \<and>
    swallowed s = [72, 73] \<and> e_to_back s = []"
  by (simp add: child_event_def hello_def chunk_read_def no_more_def estate0_def process_client_cmd_def MAX_LINE_def Let_def)


end
