(* ===== verification/Epoll_server.thy ===== *)
theory Epoll_server
  imports Ctserver Epoll_io
begin

text \<open>
  Model of \<^verbatim>\<open>samples/server_epoll/server.c\<close>, the variant of the proxy's parent with one listening socket.
  The functions on the client table and the creation of a child are word for word those of
  \<^verbatim>\<open>ctserver.c\<close>, and so are their definitions here: \<open>Ctserver\<close> provides the state, \<open>init_client_with_idx\<close>,
  \<open>clean_client_with_idx\<close>, \<open>get_idle_idx_from_clients\<close>, \<open>get_idx_with_sockfd\<close>, \<open>exit_child_with_sockfd\<close> and
  \<open>create_child_and_exec_with_idx_clientfd\<close>; a slot has no \<open>ip_hex\<close>, which stays empty. This theory
  holds what differs: the settings, the acceptance of a connection and the event loop, which reads
  what the children write.
\<close>

section \<open>Settings\<close>

definition EP_MAX_WORKS :: string where "EP_MAX_WORKS = ''1024''"
definition EP_PID_FILE :: string where "EP_PID_FILE = ''/var/run/rp_server.pid''"

definition get_server_config ::
  "env \<Rightarrow> (string \<Rightarrow> string option) \<Rightarrow> string \<Rightarrow> config \<Rightarrow> (int \<times> config) option" where
  "get_server_config env fs cfg_ini cfg = do {
     dict_conf \<leftarrow> open_conf_file env fs [] (Some cfg_ini);
     case dict_conf of
       None \<Rightarrow> Some (1, cfg)
     | Some d \<Rightarrow> do {
         log \<leftarrow> setting d ''server:log_level'' DEF_LOG_LEVEL 128;
         port \<leftarrow> setting d ''server:bind_port'' DEF_PORT 128;
         maxc \<leftarrow> setting d ''server:max_connect'' EP_MAX_WORKS 128;
         rwt \<leftarrow> setting d ''server:rw_timeout'' DEF_RW_TIMEOUT 128;
         pidf \<leftarrow> setting d ''server:pidfile'' EP_PID_FILE MAXLINE;
         Some (0, cfg\<lparr>clog_level := log, cport := port, cmax_connect := maxc, cpidfile := pidf, crw_timeout := rwt\<rparr>) } }"

section \<open>Events\<close>

definition ep_admit :: "answers \<Rightarrow> int \<Rightarrow> server \<Rightarrow> server option" where
  "ep_admit a connfd s0 = do {
     i \<leftarrow> get_idle_idx_from_clients s0;
     if i = -1 then Some (close_fd connfd (say connfd (''system error'' @ [LF]) s0))
     else do {
       c \<leftarrow> rd (clients_t s0) (nat i);
       let c' = c\<lparr>used_slot := True, cl_fd := connfd, sid := snprintf_s 128 (a_scid a), ip := snprintf_s 20 (a_ip a),
         port := snprintf_s 20 (a_port a)\<rparr>;
       (ret, s2) \<leftarrow> create_child_and_exec_with_idx_clientfd a (nat i) connfd (upd_client (nat i) c' s0);
       if ret \<noteq> 0 then
         Some (close_fd connfd (say connfd (''Server Temporarily Error, Please Try Again Later'' @ [LF]) s2))
       else Some (s2\<lparr>epoll_num_running := epoll_num_running s2 + 1\<rparr>) } }"

text \<open>Unlike \<^verbatim>\<open>ctserver.c\<close>, a failed \<open>accept\<close> leaves the loop before a slot is taken.\<close>

definition ep_new_connection :: "answers \<Rightarrow> server \<Rightarrow> server option" where
  "ep_new_connection a s =
    (let connfd = accept_loop (a_accept a) 0
     in if connfd = -1 then Some s else ep_admit a connfd (opened {connfd} s))"

text \<open>Reading what a child wrote, until the pipe is empty (\<open>EAGAIN\<close>, also the end of the script). Every
  other error, an interruption too, and the end of file remove the child. The log message prints the
  buffer of 512 bytes as a string: a chunk that fills it is undefined behaviour.\<close>

fun child_data :: "rd_res list \<Rightarrow> int \<Rightarrow> server \<Rightarrow> server option" where
  "child_data [] fd s = Some s"
| "child_data (r # rs) fd s =
    (let removed = map_option (\<lambda>(_, s'). s'\<lparr>epoll_num_running := epoll_num_running s' - 1\<rparr>) (exit_child_with_sockfd fd s)
     in case r of
          Rd_err e \<Rightarrow> if e \<noteq> EAGAIN then removed else Some s
        | Bytes bs \<Rightarrow> if bs = [] then removed else if 512 \<le> length bs then None else child_data rs fd s)"

definition ep_handle_event :: "answers \<Rightarrow> rd_res list \<Rightarrow> event \<Rightarrow> server \<Rightarrow> server option" where
  "ep_handle_event a rs e s0 =
    (let s = s0\<lparr>chld_blocked := True\<rparr>;
         listening = which_is_listen (evt_fd e) s \<noteq> -1;
         unblock = map_option (\<lambda>s. s\<lparr>chld_blocked := False\<rparr>)
     in if EPOLLERR e then Some (close_fd (evt_fd e) s)
        else if EPOLLIN e then
          (if listening then unblock (ep_new_connection a s)
           else unblock (do { _ \<leftarrow> get_idx_with_sockfd (evt_fd e) s; child_data rs (evt_fd e) s }))
        else if EPOLLHUP e \<and> \<not> listening then unblock (child_hangup (evt_fd e) s)
        else unblock (Some s))"

definition start_ep_server :: "config \<Rightarrow> (nat \<Rightarrow> client_st) \<Rightarrow> int \<Rightarrow> int set \<Rightarrow> server option" where
  "start_ep_server cfg junk listen_fd fds = start_server cfg junk [listen_fd] fds"

inductive ep_step :: "server \<Rightarrow> server \<Rightarrow> bool" where
  ep_event: "kernel_ok a s \<Longrightarrow> 0 \<le> evt_fd e \<Longrightarrow> ep_handle_event a rs e s = Some s' \<Longrightarrow> ep_step s s'"

inductive ep_reach :: "server \<Rightarrow> bool" where
  ep_start: "start_ep_server cfg junk listen_fd fds = Some s \<Longrightarrow> ep_reach s"
| ep_next: "ep_reach s \<Longrightarrow> ep_step s s' \<Longrightarrow> ep_reach s'"

section \<open>Steps of the table\<close>

definition ep_taken :: "answers \<Rightarrow> int \<Rightarrow> client_st" where
  "ep_taken a connfd = empty_client\<lparr>used_slot := True, cl_fd := connfd, sid := snprintf_s 128 (a_scid a), ip := snprintf_s 20 (a_ip a),
     port := snprintf_s 20 (a_port a)\<rparr>"

lemma ep_taken_simps [simp]: "used_slot (ep_taken a f)" "pfd_r (ep_taken a f) = -1" "cl_fd (ep_taken a f) = f"
  by (simp_all add: ep_taken_def empty_client_def)

lemma ep_new_connection_step:
  assumes "table_ok s"
  shows "\<exists>s'. ep_new_connection a s = Some s' \<and> table_step fd s s' \<and> (accept_loop (a_accept a) 0 = -1 \<longrightarrow> s' = s)"
proof (cases "accept_loop (a_accept a) 0 = -1")
  case False
  let ?f = "accept_loop (a_accept a) 0" let ?s0 = "opened {?f} s"
  have s0: "table_ok ?s0" "in_use ?s0 = in_use s" using assms by (auto simp: table_ok_def in_use_def fun_eq_iff)
  have nc: "ep_new_connection a s = ep_admit a ?f ?s0" using False by (simp add: ep_new_connection_def Let_def)
  show ?thesis using s0(1)
  proof (cases rule: get_idle_cases)
    case full
    then show ?thesis using nc False by (simp add: ep_admit_def table_step_def)
  next
    case (idle i)
    have i: "i < length (clients_t s)" using table_index [OF assms] idle(2) by simp
    then have c: "rd (clients_t ?s0) i = Some empty_client" using idle(3) assms s0(2) by (auto simp: in_use_def table_ok_def)
    let ?s1 = "upd_client i (ep_taken a ?f) ?s0"
    have i1: "i < length (clients_t ?s1)" using i by simp
    have idle': "int i < max_connect s" "\<not> in_use s i" using idle(2,3) s0(2) by simp_all
    show ?thesis using i1
    proof (cases rule: create_child_cases [where a = a and connfd = ?f])
      case (fail s2)
      have "ep_new_connection a s = Some (close_fd ?f (say ?f (''Server Temporarily Error, Please Try Again Later'' @ [LF]) s2))"
        using idle(1) c fail(1) nc by (simp add: ep_admit_def Let_def ep_taken_def)
      moreover have "table_step fd s (close_fd ?f (say ?f (''Server Temporarily Error, Please Try Again Later'' @ [LF]) s2))"
        unfolding table_step_def using fail(2) idle'
        by (intro conjI disjI2 disjI1 exI [of _ i] exI [of _ "ep_taken a ?f"]) (simp_all add: same_table_def)
      ultimately show ?thesis using False by blast
    next
      case (forked p10 p11 p20 p21 pid s2)
      have "ep_new_connection a s = Some (s2\<lparr>epoll_num_running := epoll_num_running s2 + 1\<rparr>)"
        using idle(1) c forked(1) nc by (simp add: ep_admit_def Let_def ep_taken_def)
      moreover have "table_step fd s (s2\<lparr>epoll_num_running := epoll_num_running s2 + 1\<rparr>)"
        unfolding table_step_def using forked(5-7) idle' i
        by (intro conjI disjI2 disjI1 exI [of _ i] exI [of _ "(ep_taken a ?f)\<lparr>cl_pid := pid, pfd_r := p20, pfd_w := p11\<rparr>"]) simp_all
      ultimately show ?thesis using False by blast
    qed
  qed
qed (simp add: ep_new_connection_def table_step_def)

lemma exit_child_cases:
  assumes "table_ok s"
  obtains (unknown) s' where "exit_child_with_sockfd fd s = Some (-1, s')" "same_table s s'" "\<And>j. int j < max_connect s \<Longrightarrow> \<not> (in_use s j \<and> pfd_r (clients_t s ! j) = fd)"
  | (freed) k s' where "exit_child_with_sockfd fd s = Some (int k, s')" "int k < max_connect s" "in_use s k" "pfd_r (clients_t s ! k) = fd"
      "\<And>j. j < k \<Longrightarrow> \<not> (in_use s j \<and> pfd_r (clients_t s ! j) = fd)"
      "clients_t s' = (clients_t s)[k := empty_client]" "max_connect s' = max_connect s" "listen_socks s' = listen_socks s"
  using assms
proof (cases rule: get_idx_cases [where fd = fd])
  case none
  have "exit_child_with_sockfd fd s = Some (-1, close_fd fd s)" using none(1) by (simp add: exit_child_with_sockfd_def)
  then show thesis by (rule unknown) (use none(2) in \<open>auto simp: same_table_def\<close>)
next
  case (found k)
  have "rd (clients_t s) k = Some (clients_t s ! k)" using table_index [OF assms found(2)] by simp
  let ?c = "clients_t s ! k"
  let ?s = "upd_client k empty_client (close_if (pfd_w ?c) (close_if (pfd_r ?c) (close_if (cl_fd ?c) s)))"
  have "exit_child_with_sockfd fd s = Some (int k, close_fd fd ?s)"
    using found(1) \<open>rd (clients_t s) k = Some ?c\<close> by (simp add: exit_child_with_sockfd_def clean_client_with_idx_def Let_def)
  then show thesis by (rule freed [OF _ found(2-5)]) auto
qed

text \<open>\<open>small\<close>: no read fills the 512 bytes of the buffer that is printed as a string.\<close>

definition small :: "rd_res list \<Rightarrow> bool" where
  "small rs \<longleftrightarrow> (\<forall>r \<in> set rs. case r of Bytes bs \<Rightarrow> length bs < 512 | Rd_err e \<Rightarrow> True)"

lemma exit_child_step:
  assumes "table_ok s"
  obtains r s' where "exit_child_with_sockfd fd s = Some (r, s')" "table_step fd s s'"
  using assms
proof (cases rule: exit_child_cases [where fd = fd])
  case (unknown s')
  then have "table_step fd s s'" by (simp add: table_step_def same_table_def)
  then show ?thesis using that unknown(1) by blast
next
  case (freed k s')
  then have "table_step fd s s'" unfolding table_step_def by (intro conjI disjI2 exI [of _ k]) simp_all
  then show ?thesis using that freed(1) by blast
qed

lemma child_data_step:
  assumes "table_ok s"
  shows "(\<exists>s'. child_data rs fd s = Some s' \<and> table_step fd s s') \<or> child_data rs fd s = None \<and> \<not> small rs"
proof (induction rs)
  case (Cons r rs)
  obtain q s1 where "exit_child_with_sockfd fd s = Some (q, s1)" "table_step fd s s1" by (rule exit_child_step [OF assms])
  then have removed: "\<exists>s'. map_option (\<lambda>(_, s'). s'\<lparr>epoll_num_running := epoll_num_running s' - 1\<rparr>) (exit_child_with_sockfd fd s) = Some s' \<and>
      table_step fd s s'" by (auto simp: table_step_def)
  have same: "table_step fd s s" by (simp add: table_step_def)
  show ?case
  proof (cases r)
    case (Bytes bs)
    then show ?thesis using Cons.IH removed by (auto simp: Let_def small_def)
  next
    case (Rd_err e)
    then show ?thesis using removed same by (auto simp: Let_def)
  qed
qed (simp add: table_step_def)

lemma ep_handle_event_step:
  assumes "table_ok s"
  shows "(\<exists>s'. ep_handle_event a rs e s = Some s' \<and> table_step (evt_fd e) s s') \<or> ep_handle_event a rs e s = None \<and> \<not> small rs"
proof -
  let ?s = "s\<lparr>chld_blocked := True\<rparr>"
  have ok: "table_ok ?s" using assms by simp
  obtain s1 where s1: "ep_new_connection a ?s = Some s1" "table_step (evt_fd e) s (s1\<lparr>chld_blocked := False\<rparr>)"
    using ep_new_connection_step [OF ok, of a "evt_fd e"] table_step_blocked by blast
  obtain s2 where s2: "child_hangup (evt_fd e) ?s = Some s2" "table_step (evt_fd e) s (s2\<lparr>chld_blocked := False\<rparr>)"
    using child_hangup_step [OF ok, of "evt_fd e"] table_step_blocked by blast
  have s3: "(\<exists>s'. child_data rs (evt_fd e) ?s = Some s' \<and> table_step (evt_fd e) s (s'\<lparr>chld_blocked := False\<rparr>)) \<or>
      child_data rs (evt_fd e) ?s = None \<and> \<not> small rs"
    using child_data_step [OF ok, of rs "evt_fd e"] table_step_blocked by blast
  have "get_idx_with_sockfd (evt_fd e) ?s \<noteq> None" by (rule get_idx_cases [OF ok, of "evt_fd e"]) auto
  then obtain r where r: "get_idx_with_sockfd (evt_fd e) ?s = Some r" by auto
  have same: "table_step (evt_fd e) s (s\<lparr>chld_blocked := b\<rparr>)" "table_step (evt_fd e) s (close_fd (evt_fd e) (s\<lparr>chld_blocked := b\<rparr>))" for b
    by (simp_all add: table_step_def)
  show ?thesis using s1 s2 s3 r same by (auto simp: ep_handle_event_def Let_def)
qed

inductive_cases ep_stepE: "ep_step s s'"

lemma ep_reach_table: "ep_reach s \<Longrightarrow> table_ok s"
proof (induction rule: ep_reach.induct)
  case (ep_start cfg junk listen_fd fds s)
  then show ?case using start_server_ok [of cfg junk "[listen_fd]" fds] by (auto simp: start_ep_server_def)
next
  case (ep_next s s')
  obtain a rs e where "ep_handle_event a rs e s = Some s'" using ep_next(2) by (rule ep_stepE)
  then show ?case using ep_handle_event_step [OF ep_next(3), of a rs e] table_step_ok [OF ep_next(3)] by auto
qed

lemma child_data_eof:
  assumes "table_ok s" "int k < max_connect s" "in_use s k" "pfd_r (clients_t s ! k) = fd"
    and "\<forall>j < length (clients_t s). j \<noteq> k \<longrightarrow> pfd_r (clients_t s ! j) \<noteq> fd"
    and "\<forall>d \<in> set ds. d \<noteq> [] \<and> length d < 512"
  shows "\<exists>s'. child_data (map Bytes ds @ [Bytes []] @ rest) fd s = Some s' \<and> clients_t s' = (clients_t s)[k := empty_client] \<and>
    open_fds s' \<subseteq> open_fds s - {fd} \<and> epoll_num_running s' = epoll_num_running s - 1 \<and> max_connect s' = max_connect s \<and> listen_socks s' = listen_socks s \<and> sent s' = sent s"
  using assms(6)
proof (induction ds)
  case Nil
  have "rd (clients_t s) k = Some (clients_t s ! k)" using table_index [OF assms(1,2)] by simp
  moreover have "get_idx_with_sockfd fd s = Some (int k)" using assms(1)
  proof (cases rule: get_idx_cases [where fd = fd])
    case (found j)
    then show ?thesis using assms(5) table_index [OF assms(1), of j] by auto
  next
    case none
    then show ?thesis using assms(2-4) by auto
  qed
  ultimately show ?case
    by (auto simp: exit_child_with_sockfd_def clean_client_with_idx_def Let_def)
qed (auto simp: Let_def)

section \<open>Properties\<close>

text \<open>The server starts with every setting, and in every reachable state the table keeps its
  \<open>max_connect + 1\<close> slots and every unused slot is blank, so that the next event is handled without an
  access outside the table; the one undefined step is a child that writes 512 bytes or more at
  once, which the log message prints as a string.\<close>

theorem ep_server_invariant:
  shows "(\<exists>s0. start_ep_server cfg junk listen_fd fds = Some s0) \<and>
    (ep_reach s \<longrightarrow> length (clients_t s) = nat (max_connect s + 1) \<and> (\<forall>c \<in> set (clients_t s). used_slot c \<or> c = empty_client) \<and>
      (small rs \<longrightarrow> (\<exists>s'. ep_handle_event a rs e s = Some s')))"
  using start_server_ok [of cfg junk "[listen_fd]" fds] ep_reach_table [of s] ep_handle_event_step [of s a rs e]
  by (auto simp: start_ep_server_def table_ok_def)

text \<open>C34: when the pipe of a child reports data, also together with a hangup, the server reads all of it
  up to the end of file, then clears the child's slot, closes the pipe and lets \<open>SIGCHLD\<close> through; every
  other slot is as before. The same event leaves the table of \<^verbatim>\<open>ctserver.c\<close> as it is.\<close>

theorem ep_eof_frees:
  assumes "ep_reach s" "int k < max_connect s" "in_use s k" "pfd_r (clients_t s ! k) = evt_fd e" "which_is_listen (evt_fd e) s = -1"
    and "\<forall>j < length (clients_t s). j \<noteq> k \<longrightarrow> pfd_r (clients_t s ! j) \<noteq> evt_fd e" "EPOLLIN e" "\<not> EPOLLERR e"
    and "\<forall>d \<in> set ds. d \<noteq> [] \<and> length d < 512"
  shows "(\<exists>s'. ep_handle_event a (map Bytes ds @ Bytes [] # rest) e s = Some s' \<and> clients_t s' = (clients_t s)[k := empty_client] \<and>
      evt_fd e \<notin> open_fds s' \<and> open_fds s' \<subseteq> open_fds s \<and> epoll_num_running s' = epoll_num_running s - 1 \<and> \<not> chld_blocked s') \<and>
    (\<exists>t. handle_event a e s = Some t \<and> clients_t t = clients_t s \<and> open_fds t = open_fds s)"
proof -
  let ?s = "s\<lparr>chld_blocked := True\<rparr>"
  have ok: "table_ok ?s" "table_ok s" using ep_reach_table [OF assms(1)] by simp_all
  obtain s1 where s1: "child_data (map Bytes ds @ Bytes [] # rest) (evt_fd e) ?s = Some s1" "clients_t s1 = (clients_t s)[k := empty_client]"
    "open_fds s1 \<subseteq> open_fds s - {evt_fd e}" "epoll_num_running s1 = epoll_num_running s - 1"
    using child_data_eof [OF ok(1), of k "evt_fd e" ds rest] assms by auto
  have "get_idx_with_sockfd (evt_fd e) ?s \<noteq> None" by (rule get_idx_cases [OF ok(1), of "evt_fd e"]) auto
  then show ?thesis using s1 assms(5,7,8) by (auto simp: ep_handle_event_def handle_event_def Let_def)
qed

text \<open>A failed \<open>accept\<close> takes no slot; in \<^verbatim>\<open>ctserver.c\<close> it forks a child for the descriptor -1.\<close>

lemma ep_accept_failure:
  assumes "which_is_listen (evt_fd e) s \<noteq> -1" "EPOLLIN e" "\<not> EPOLLERR e" "accept_loop (a_accept a) 0 = -1"
  shows "ep_handle_event a rs e s = Some (s\<lparr>chld_blocked := False\<rparr>)"
  using assms by (simp add: ep_handle_event_def ep_new_connection_def Let_def)

section \<open>Examples\<close>

abbreviation pipe_event :: event where
  "pipe_event \<equiv> \<lparr>evt_fd = 7, EPOLLERR = False, EPOLLIN = True, EPOLLHUP = True\<rparr>"

lemma ep_cfg2_busy:
  obtains s where "ep_reach s" "max_connect s = 2" "length (clients_t s) = 3" "in_use s 0" "pfd_r (clients_t s ! 0) = 7"
    "\<forall>j < length (clients_t s). j \<noteq> 0 \<longrightarrow> pfd_r (clients_t s ! j) \<noteq> 7" "which_is_listen 7 s = -1"
proof -
  let ?s = "\<lparr>clients_t = [empty_client, empty_client, empty_client], max_connect = 2, listen_socks = [3],
    epoll_num_running = 0, open_fds = {0, 1, 2, 3}, watched = {3}, sent = [], chld_blocked = False\<rparr>"
  have start: "start_ep_server cfg2 (\<lambda>_. empty_client) 3 {0, 1, 2} = Some ?s"
    by (simp add: start_ep_server_def start_server_def cfg2_def atoi_2 init_client_with_idx_def numeral_3_eq_3 insert_commute)
  have idle: "get_idle_idx_from_clients s = Some 0" if "clients_t s = clients_t ?s" "max_connect s = 2" for s
    using that by (simp add: get_idle_idx_from_clients_def idle_loop.simps empty_client_def)
  let ?a = "reply 4 (5, 6) (7, 8) (Some 99)"
  have "\<exists>s'. ep_handle_event ?a [] listen_event ?s = Some s' \<and> max_connect s' = 2 \<and> listen_socks s' = [3] \<and>
      clients_t s' = [(ep_taken ?a 4)\<lparr>cl_pid := 99, pfd_r := 7, pfd_w := 6\<rparr>, empty_client, empty_client]"
    by (simp add: ep_handle_event_def ep_new_connection_def ep_admit_def idle which_is_listen_def Let_def
      create_child_and_exec_with_idx_clientfd_def reply_def accept_loop.simps ep_taken_def)
  then obtain s' where s': "ep_handle_event ?a [] listen_event ?s = Some s'" "max_connect s' = 2" "listen_socks s' = [3]"
    "clients_t s' = [(ep_taken ?a 4)\<lparr>cl_pid := 99, pfd_r := 7, pfd_w := 6\<rparr>, empty_client, empty_client]" by blast
  have "kernel_ok ?a ?s" by (simp add: kernel_ok_def reply_def accept_loop.simps)
  then have "ep_reach s'" using ep_reach.ep_next [OF ep_reach.ep_start [OF start]] ep_step.ep_event [OF _ _ s'(1)] by simp
  moreover have "\<forall>j < length (clients_t s'). j \<noteq> 0 \<longrightarrow> pfd_r (clients_t s' ! j) \<noteq> 7"
    using s'(4) by (auto simp: less_Suc_eq empty_client_def)
  ultimately show thesis using that [of s'] s'(2-4) by (simp add: in_use_def which_is_listen_def)
qed

theorem ep_server_invariant_witness:
  "\<exists>s s'. ep_reach s \<and> length (clients_t s) = 3 \<and> ep_handle_event (reply 4 (5, 6) (7, 8) (Some 99)) [Bytes [104, 105], Rd_err EAGAIN] pipe_event s = Some s'"
proof -
  obtain s where "ep_reach s" "max_connect s = 2" by (rule ep_cfg2_busy)
  moreover have "small [Bytes [104, 105], Rd_err EAGAIN]" by (simp add: small_def)
  ultimately show ?thesis
    using ep_server_invariant [of cfg2 "\<lambda>_. empty_client" 3 "{}" s "[Bytes [104, 105], Rd_err EAGAIN]" "reply 4 (5, 6) (7, 8) (Some 99)" pipe_event] by auto
qed

theorem ep_eof_frees_witness:
  "\<exists>s s' t. ep_reach s \<and> ep_handle_event (reply 4 (5, 6) (7, 8) (Some 99)) [Bytes [104, 105], Bytes []] pipe_event s = Some s' \<and>
    in_use s 0 \<and> \<not> in_use s' 0 \<and> handle_event (reply 4 (5, 6) (7, 8) (Some 99)) pipe_event s = Some t \<and> in_use t 0"
proof -
  obtain s where s: "ep_reach s" "max_connect s = 2" "length (clients_t s) = 3" "in_use s 0" "pfd_r (clients_t s ! 0) = 7"
    "\<forall>j < length (clients_t s). j \<noteq> 0 \<longrightarrow> pfd_r (clients_t s ! j) \<noteq> 7" "which_is_listen 7 s = -1" by (rule ep_cfg2_busy)
  obtain s' t where "ep_handle_event (reply 4 (5, 6) (7, 8) (Some 99)) [Bytes [104, 105], Bytes []] pipe_event s = Some s'"
    "clients_t s' = (clients_t s)[0 := empty_client]" "handle_event (reply 4 (5, 6) (7, 8) (Some 99)) pipe_event s = Some t" "clients_t t = clients_t s"
    using ep_eof_frees [OF s(1), of 0 pipe_event "[[104, 105]]" "reply 4 (5, 6) (7, 8) (Some 99)" "[]"] s(2-7) by auto
  then show ?thesis using s(1,3,4) by (auto simp: in_use_def empty_client_def)
qed

end
