(* ===== verification/Epoll_start.thy ===== *)
theory Epoll_start
  imports Ctserver_start Epoll_server
begin

text \<open>
  Model of the start of \<^verbatim>\<open>samples/server_epoll/server.c\<close>. The pid file, the daemon and \<open>server_exit\<close> are
  those of \<^verbatim>\<open>ctserver.c\<close>, word for word, modelled in \<open>Ctserver_start\<close>; this theory holds the options, the
  one listening socket and \<open>main\<close> up to the event loop of \<open>Epoll_server\<close>. Files, results and the
  answers of the system are as in \<open>Ctserver_start\<close>.
\<close>

section \<open>The listening socket\<close>

text \<open>The loop of \<open>create_and_bind\<close> over the addresses and the open descriptors; \<open>None\<close> as the first result
  is \<open>rp == NULL\<close>. A socket that cannot be bound is closed.\<close>

fun ep_bind_loop :: "addr list \<Rightarrow> int set \<Rightarrow> int option \<times> int set" where
  "ep_bind_loop [] fds = (None, fds)"
| "ep_bind_loop (rp # rps) fds =
    (case ad_socket rp of
       None \<Rightarrow> ep_bind_loop rps fds
     | Some sfd \<Rightarrow> if \<not> ad_bind rp then ep_bind_loop rps (insert sfd fds - {sfd}) else (Some sfd, insert sfd fds))"

definition ep_create_and_bind :: "addr list option \<Rightarrow> int set \<Rightarrow> int \<times> int set" where
  "ep_create_and_bind result fds =
    (case result of
       None \<Rightarrow> (-1, fds)
     | Some addrs \<Rightarrow> (case ep_bind_loop addrs fds of (None, fds') \<Rightarrow> (-1, fds') | (Some sfd, fds') \<Rightarrow> (sfd, fds')))"

section \<open>\<open>main\<close>\<close>

text \<open>Options for the option string \<open>c:h\<close>: \<open>server_getopt\<close> also knows the letter \<open>d\<close>, for which \<open>getopt\<close>
  answers a question mark here; \<open>main\<close> treats every letter but \<open>c\<close> in the same way. \<open>None\<close> is
  \<open>exit (0)\<close> after the usage message.\<close>

fun ep_options :: "(char \<times> string) list \<Rightarrow> string \<Rightarrow> string option" where
  "ep_options [] cfg_ini = Some cfg_ini"
| "ep_options ((ch, optarg) # os) cfg_ini = (if ch = CHR ''c'' then ep_options os (snprintf_s MAXLINE optarg) else None)"

record ep_env = daemon +
  e_clients :: bool
  e_junk :: "nat \<Rightarrow> client_st"
  e_addrs :: "addr list option"
  e_reuse :: bool
  e_ndelay :: bool
  e_listen :: bool
  e_events :: bool
  e_epoll :: bool
  e_ctl :: bool

text \<open>\<open>main\<close> after \<open>become_daemon\<close>: every failure goes through \<open>server_exit\<close>.\<close>

definition ep_setup :: "ep_env \<Rightarrow> config \<Rightarrow> files \<Rightarrow> ((int + server) \<times> files) option" where
  "ep_setup b cfg fs =
    (let quit = (case server_exit (cpidfile cfg) fs of (c, fs') \<Rightarrow> Some (Inl c, fs'))
     in if \<not> e_clients b then quit
        else (case ep_create_and_bind (e_addrs b) {0, 1, 2} of (listen_fd, fds) \<Rightarrow>
          if listen_fd = -1 then quit
          else if \<not> e_reuse b then quit
          else if \<not> e_ndelay b then quit
          else if \<not> e_listen b then quit
          else if \<not> e_events b then quit
          else if \<not> e_epoll b then quit
          else if \<not> e_ctl b then quit
          else do { s \<leftarrow> start_ep_server cfg (e_junk b) listen_fd fds; Some (Inr s, fs) }))"

definition ep_main :: "env \<Rightarrow> ep_env \<Rightarrow> string list \<Rightarrow> files \<Rightarrow> ((int + server) \<times> files) option" where
  "ep_main env b args fs =
    (case ep_options (server_getopt [] args) [] of
       None \<Rightarrow> Some (Inl 0, fs)
     | Some cfg_ini \<Rightarrow> do {
         (r, cfg) \<leftarrow> get_server_config env fs cfg_ini config0;
         if r = 1 then Some (Inl 0, fs)
         else (case become_daemon (daemon.truncate b) True (cpidfile cfg) fs of
             (Inl c, fs') \<Rightarrow> Some (Inl c, fs')
           | (Inr _, fs') \<Rightarrow> ep_setup b cfg fs') })"

section \<open>Open sockets\<close>

text \<open>New sockets are unused descriptors. Then exactly the socket that is returned stays open, unlike in
  \<^verbatim>\<open>ctserver.c\<close>, whose function of the same name returns a closed one.\<close>

definition fresh_sockets :: "addr list \<Rightarrow> int set \<Rightarrow> bool" where
  "fresh_sockets addrs fds \<longleftrightarrow> (\<forall>p \<in> set addrs. \<forall>s. ad_socket p = Some s \<longrightarrow> s \<notin> fds \<and> 0 \<le> s)"

lemma ep_bind_loop_open:
  "fresh_sockets addrs fds \<Longrightarrow>
    ep_bind_loop addrs fds = (None, fds) \<and> (\<forall>p \<in> set addrs. ad_socket p = None \<or> \<not> ad_bind p) \<or>
    (\<exists>s. ep_bind_loop addrs fds = (Some s, insert s fds) \<and> s \<notin> fds \<and> 0 \<le> s)"
proof (induction addrs)
  case (Cons p ps)
  have ps: "fresh_sockets ps fds" using Cons.prems by (simp add: fresh_sockets_def)
  show ?case
  proof (cases "ad_socket p")
    case None
    then show ?thesis using Cons.IH [OF ps] by auto
  next
    case (Some s)
    then have "insert s fds - {s} = fds" "s \<notin> fds" "0 \<le> s" using Cons.prems by (auto simp: fresh_sockets_def)
    then show ?thesis using Some Cons.IH [OF ps] by auto
  qed
qed simp

lemma ep_create_and_bind_open:
  assumes "fresh_sockets (case result of None \<Rightarrow> [] | Some addrs \<Rightarrow> addrs) fds"
  obtains (none) "ep_create_and_bind result fds = (-1, fds)"
  | (bound) s where "ep_create_and_bind result fds = (s, insert s fds)" "s \<notin> fds" "0 \<le> s"
proof (cases result)
  case (Some addrs)
  then show thesis
    using ep_bind_loop_open [of addrs fds] assms none bound by (auto simp: ep_create_and_bind_def)
qed (use none in \<open>simp add: ep_create_and_bind_def\<close>)

section \<open>The pid file\<close>

lemma ep_setup_cases:
  obtains (quit) "ep_setup b cfg fs = Some (Inl 1, fs(cpidfile cfg := None))"
  | (runs) listen_fd fds s where "ep_setup b cfg fs = Some (Inr s, fs)" "ep_create_and_bind (e_addrs b) {0, 1, 2} = (listen_fd, fds)"
      "listen_fd \<noteq> -1" "e_listen b" "start_ep_server cfg (e_junk b) listen_fd fds = Some s"
proof -
  obtain listen_fd fds where c: "ep_create_and_bind (e_addrs b) {0, 1, 2} = (listen_fd, fds)" by fastforce
  obtain s where s: "start_ep_server cfg (e_junk b) listen_fd fds = Some s"
    using start_server_ok [of cfg "e_junk b" "[listen_fd]" fds] by (auto simp: start_ep_server_def)
  show thesis
  proof (cases "e_clients b \<and> listen_fd \<noteq> -1 \<and> e_reuse b \<and> e_ndelay b \<and> e_listen b \<and> e_events b \<and> e_epoll b \<and> e_ctl b")
    case True
    then show thesis using runs [of s listen_fd fds] c s by (simp add: ep_setup_def Let_def)
  next
    case False
    then show thesis using quit c by (auto simp: ep_setup_def Let_def server_exit_def)
  qed
qed

definition ep_starts :: "env \<Rightarrow> string list \<Rightarrow> files \<Rightarrow> config \<Rightarrow> bool" where
  "ep_starts env args fs cfg \<longleftrightarrow>
    (\<exists>cfg_ini. ep_options (server_getopt [] args) [] = Some cfg_ini \<and> get_server_config env fs cfg_ini config0 = Some (0, cfg) \<and>
      cpidfile cfg \<noteq> [] \<and> cpidfile cfg \<noteq> cfg_ini)"

lemma ep_starts_main:
  assumes "ep_starts env args fs cfg"
  shows "ep_main env b args fs = (case become_daemon (daemon.truncate b) True (cpidfile cfg) fs of
      (Inl c, fs') \<Rightarrow> Some (Inl c, fs') | (Inr _, fs') \<Rightarrow> ep_setup b cfg fs')"
  using assms by (auto simp: ep_starts_def ep_main_def)

lemma ep_starts_refused:
  assumes "ep_starts env args fs cfg"
  shows "ep_main env b args (fs(cpidfile cfg \<mapsto> t)) = Some (Inl 70, fs(cpidfile cfg \<mapsto> t))"
proof -
  let ?fs = "fs(cpidfile cfg \<mapsto> t)"
  obtain i where i: "ep_options (server_getopt [] args) [] = Some i" "get_server_config env fs i config0 = Some (0, cfg)"
    "cpidfile cfg \<noteq> []" "cpidfile cfg \<noteq> i" using assms by (auto simp: ep_starts_def)
  have "open_conf_file env ?fs [] (Some i) = open_conf_file env fs [] (Some i)" using i(4) by (simp add: open_conf_file_def)
  then have "get_server_config env ?fs i config0 = Some (0, cfg)" using i(2) by (simp add: get_server_config_def)
  then have "ep_starts env args ?fs cfg" using i by (auto simp: ep_starts_def)
  moreover have "create_pid_file b' (cpidfile cfg) ?fs = (Inl 70, ?fs)" for b' using i(3) by (simp add: create_pid_file_def)
  ultimately show ?thesis by (simp add: ep_starts_main become_daemon_def)
qed

text \<open>Every start with settings ends in one of four ways: a server in an initial state, whose pid file makes
  every other start end with 70; status 1 or 70 with the files as they were; or status 70 and an
  incomplete pid file, which could not be written. A failure of \<open>listen\<close> leaves no pid file here.\<close>

theorem ep_start_pid_file:
  assumes "ep_starts env args fs cfg"
  shows "(\<exists>s. ep_main env b args fs = Some (Inr s, fs(cpidfile cfg \<mapsto> pid_line (b_pid b))) \<and> fs (cpidfile cfg) = None \<and> e_listen b \<and> ep_reach s \<and>
      (\<forall>b'. ep_main env b' args (fs(cpidfile cfg \<mapsto> pid_line (b_pid b))) = Some (Inl 70, fs(cpidfile cfg \<mapsto> pid_line (b_pid b))))) \<or>
    (ep_main env b args fs = Some (Inl 1, fs) \<and> fs (cpidfile cfg) = None) \<or>
    ep_main env b args fs = Some (Inl 70, fs) \<or>
    (\<exists>t. ep_main env b args fs = Some (Inl 70, fs(cpidfile cfg \<mapsto> t)) \<and> fs (cpidfile cfg) = None \<and> b_pid_write b < length (pid_line (b_pid b)))"
    (is "?run \<or> ?quit \<or> ?refused \<or> ?short")
proof -
  have pf: "cpidfile cfg \<noteq> []" using assms by (auto simp: ep_starts_def)
  note m = ep_starts_main [OF assms]
  have sel: "b_pid (daemon.truncate b) = b_pid b" "b_pid_write (daemon.truncate b) = b_pid_write b" by (simp_all add: daemon.defs)
  show ?thesis
  proof (rule become_daemon_cases [OF pf, of "daemon.truncate b" True fs, unfolded sel])
    assume "become_daemon (daemon.truncate b) True (cpidfile cfg) fs = (Inl 70, fs)"
    then show ?thesis using m by simp
  next
    fix t assume "become_daemon (daemon.truncate b) True (cpidfile cfg) fs = (Inl 70, fs(cpidfile cfg \<mapsto> t))" "fs (cpidfile cfg) = None"
      "b_pid_write b < length (pid_line (b_pid b))"
    then have ?short using m by auto
    then show ?thesis by blast
  next
    let ?fs = "fs(cpidfile cfg \<mapsto> pid_line (b_pid b))"
    assume c: "become_daemon (daemon.truncate b) True (cpidfile cfg) fs = (Inr (), ?fs)" "fs (cpidfile cfg) = None"
    then have su: "ep_main env b args fs = ep_setup b cfg ?fs" using m by simp
    show ?thesis
    proof (cases rule: ep_setup_cases [of b cfg ?fs])
      case quit
      moreover have "?fs(cpidfile cfg := None) = fs" using c(2) by auto
      ultimately have ?quit using su c(2) by simp
      then show ?thesis by blast
    next
      case (runs listen_fd fds s)
      then have ?run using su c(2) ep_starts_refused [OF assms] ep_reach.ep_start [OF runs(5)] by auto
      then show ?thesis by blast
    qed
  qed
qed

section \<open>Settings\<close>

lemma get_server_config_correct:
  assumes "good_doc [] is" "fmt = key_sprintf \<or> fmt = key_snprintf" "below \<noteq> BSL" "fs cfg_ini = Some (doc_text is)"
    and "b = updates Map.empty (doc_updates [] is)"
  shows "get_server_config (fmt, below, alloc_ok) fs cfg_ini cfg = Some (0, cfg
    \<lparr>clog_level := setting_of b ''server:log_level'' DEF_LOG_LEVEL 128, cport := setting_of b ''server:bind_port'' DEF_PORT 128,
     cmax_connect := setting_of b ''server:max_connect'' EP_MAX_WORKS 128, cpidfile := setting_of b ''server:pidfile'' EP_PID_FILE MAXLINE,
     crw_timeout := setting_of b ''server:rw_timeout'' DEF_RW_TIMEOUT 128\<rparr>)"
proof -
  obtain d where "iniparser_load fmt below alloc_ok (Some (doc_text is)) = Some (Some d)" "dict_wf d" "dict_abs d = b"
    using open_doc(1) [OF assms(1-3)] assms(5) by blast
  then show ?thesis using assms(4) by (simp add: get_server_config_def open_conf_file_def setting_spec)
qed

section \<open>Examples\<close>

definition ep_booted :: "bool \<Rightarrow> ep_env" where
  "ep_booted l = \<lparr>b_pid = 321, b_pid_open = True, b_pid_write = 9, b_fork = True, e_clients = True, e_junk = (\<lambda>_. empty_client),
     e_addrs = Some [\<lparr>ad_family = AF_INET, ad_nameinfo = True, ad_socket = Some 3, ad_ndelay = True, ad_reuse = True, ad_bind = True, ad_listen = True\<rparr>],
     e_reuse = True, e_ndelay = True, e_listen = l, e_events = True, e_epoll = True, e_ctl = True\<rparr>"

lemma server_doc_ep_starts:
  obtains cfg where "ep_starts (key_snprintf, CHR ''x'', alloc_ok) [''-ca.ini''] server_files cfg" "cpidfile cfg = ''/p''"
proof -
  have o: "ep_options (server_getopt [] [''-ca.ini'']) [] = Some ''a.ini''" by (simp add: snprintf_s_def MAXLINE_def)
  have f: "server_files ''a.ini'' = Some (doc_text server_doc)" by (simp add: server_files_def)
  have "updates Map.empty (doc_updates [] server_doc) ''server:pidfile'' = Some (Some ''/p'')" by (simp add: server_doc_def)
  then have p: "setting_of (updates Map.empty (doc_updates [] server_doc)) ''server:pidfile'' EP_PID_FILE MAXLINE = ''/p''"
    by (simp add: setting_of_def MAXLINE_def)
  have x: "CHR ''x'' \<noteq> BSL" by simp
  have k: "key_snprintf = key_sprintf \<or> key_snprintf = key_snprintf" by simp
  note c = get_server_config_correct [OF server_doc_good k x, where fs = server_files and cfg_ini = "''a.ini''" and cfg = config0, OF f refl]
  show thesis by (rule that) (use o c p in \<open>auto simp: ep_starts_def\<close>)
qed

text \<open>A start whose \<open>listen\<close> fails gives the pid file back, and the next one succeeds.\<close>

theorem ep_start_pid_file_witness:
  "ep_main (key_snprintf, CHR ''x'', alloc_ok) (ep_booted False) [''-ca.ini''] server_files = Some (Inl 1, server_files) \<and>
   (\<exists>s. ep_main (key_snprintf, CHR ''x'', alloc_ok) (ep_booted True) [''-ca.ini''] server_files = Some (Inr s, server_files(''/p'' \<mapsto> pid_line 321)) \<and> ep_reach s)"
proof -
  let ?env = "(key_snprintf, CHR ''x'', alloc_ok)"
  obtain cfg where c: "ep_starts ?env [''-ca.ini''] server_files cfg" "cpidfile cfg = ''/p''" by (rule server_doc_ep_starts)
  have n: "server_files ''/p'' = None" by (simp add: server_files_def)
  have d: "dec 321 = ''321''" by (simp add: dec.simps char_of_def bit_0)
  have bd: "become_daemon (daemon.truncate (ep_booted l)) True ''/p'' server_files = (Inr (), server_files(''/p'' \<mapsto> pid_line 321))" for l
    using n by (simp add: become_daemon_def create_pid_file_def pid_line_def ep_booted_def daemon.defs boot.defs d snprintf_s_def Let_def)
  then have m: "ep_main ?env (ep_booted l) [''-ca.ini''] server_files = ep_setup (ep_booted l) cfg (server_files(''/p'' \<mapsto> pid_line 321))" for l
    using c(2) by (simp add: ep_starts_main [OF c(1)])
  obtain s where s: "start_ep_server cfg (e_junk (ep_booted True)) 3 {0, 1, 2, 3} = Some s"
    using start_server_ok [of cfg "e_junk (ep_booted True)" "[3]" "{0, 1, 2, 3}"] by (auto simp: start_ep_server_def)
  have f: "\<exists>r. ep_main ?env (ep_booted False) [''-ca.ini''] server_files = Some (Inl 1, r)" using m [of False] by (simp add: ep_setup_def ep_booted_def ep_create_and_bind_def Let_def server_exit_def)
  have "insert 3 {0, 1, 2} = {0, 1, 2, 3 :: int}" by auto
  then have t: "\<exists>s r. ep_main ?env (ep_booted True) [''-ca.ini''] server_files = Some (Inr s, r)"
    using m [of True] s by (simp add: ep_setup_def ep_booted_def ep_create_and_bind_def Let_def server_exit_def)
  have "b_pid (ep_booted True) = 321" by (simp add: ep_booted_def)
  then show ?thesis
    using ep_start_pid_file [OF c(1), of "ep_booted False"] ep_start_pid_file [OF c(1), of "ep_booted True"] f t c(2) by auto
qed

end
