(* ===== verification/Hashmap.thy ===== *)
theory Hashmap
  imports Cthash
begin

text \<open>
  Model of \<^verbatim>\<open>c/libgs/hashmap/hashmap.c\<close>: a chained hash table whose entries are doubly linked. Entries
  live in an explicit store from addresses to records, because \<open>hashmap_grow\<close> and \<open>hashmap_delete\<close>
  depend on the pointers between them; \<open>None\<close> is a null pointer, a freed entry is absent from the
  store, and an access to an absent entry, a modulus by zero or an index out of range is undefined
  behaviour, the result \<open>None\<close> of an operation. Loops along \<open>next\<close> need not end, and then also give
  \<open>None\<close>. \<open>used\<close> keeps its 16 bits. Values are pointers, \<open>freed\<close> the values given to \<open>free\<close>.
\<close>

unbundle bit_operations_syntax

section \<open>State\<close>

record entry =
  e_key :: "byte list"
  e_hash_code :: u32
  e_value :: "nat option"
  e_next :: "nat option"
  e_prev :: "nat option"

record hashmap =
  m_size :: nat
  m_used :: u16
  m_idx :: nat
  m_data :: "nat option list"

record store =
  mem :: "nat \<Rightarrow> entry option"
  top :: nat
  freed :: "nat list"

definition primes :: "nat list" where
  "primes =
    [3, 7, 11, 17, 23, 29, 37, 47, 59, 71, 89,
     107, 131, 163, 197, 239, 293, 353, 431, 521, 631, 761, 919,
     1103, 1327, 1597, 1931, 2333, 2801, 3371, 4049, 4861, 5839, 7013, 8419,
     10103, 12143, 14591, 17519, 21023, 25229, 30293, 36353, 43627, 52361, 62851, 75431, 90523,
     108631, 130363, 156437, 187751, 225307, 270371, 324449, 389357, 467237, 560689, 672827, 807403, 968897,
     1162687, 1395263, 1674319, 2009191, 2411033, 2893249, 3471899, 4166287, 4999559, 5999471, 7199369]"

section \<open>Hash codes\<close>

definition hashcode_index :: "byte list \<Rightarrow> nat \<Rightarrow> nat option" where
  "hashcode_index key sz =
    (if sz = 0 then None else Some (unat (RS_loop 0 63689 key AND 0x7FFFFFFF) mod sz))"

definition hashcode_create :: "byte list \<Rightarrow> u32" where
  "hashcode_create key = foldl (\<lambda>hash c. hash * 131 + schar c) 0 key AND 0x7FFFFFFF"

interpretation hashcode: str_hash hashcode_create by unfold_locales (auto simp: hashcode_create_def)

section \<open>Operations\<close>

definition set_next :: "nat \<Rightarrow> nat option \<Rightarrow> store \<Rightarrow> store option" where
  "set_next a p s = map_option (\<lambda>e. s\<lparr>mem := (mem s)(a \<mapsto> e\<lparr>e_next := p\<rparr>)\<rparr>) (mem s a)"

definition set_prev :: "nat \<Rightarrow> nat option \<Rightarrow> store \<Rightarrow> store option" where
  "set_prev a p s = map_option (\<lambda>e. s\<lparr>mem := (mem s)(a \<mapsto> e\<lparr>e_prev := p\<rparr>)\<rparr>) (mem s a)"

definition hashmap_link :: "nat \<Rightarrow> store \<times> hashmap \<Rightarrow> (store \<times> hashmap) option" where
  "hashmap_link elm sm = (case sm of (s, m) \<Rightarrow> do {
     e \<leftarrow> mem s elm;
     i \<leftarrow> hashcode_index (e_key e) (m_size m);
     etr \<leftarrow> rd (m_data m) i;
     s1 \<leftarrow> set_next elm etr s;
     s2 \<leftarrow> (case etr of None \<Rightarrow> Some s1 | Some b \<Rightarrow> set_prev b (Some elm) s1);
     Some (s2, m\<lparr>m_data := (m_data m)[i := Some elm], m_used := m_used m + 1\<rparr>) })"

definition hashmap_size :: "bool \<Rightarrow> nat \<Rightarrow> hashmap \<Rightarrow> int \<times> hashmap" where
  "hashmap_size ok sz m =
    (if ok then (0, m\<lparr>m_data := replicate sz None, m_size := sz, m_used := 0\<rparr>)
     else (-1, m\<lparr>m_data := []\<rparr>))"

text \<open>The first index of \<open>primes\<close> with \<open>size < primes[idx]\<close>, where \<open>size\<close> is converted to unsigned.\<close>

definition hashmap_create :: "bool \<Rightarrow> int \<Rightarrow> hashmap option" where
  "hashmap_create ok sz =
    (if \<not> ok then None
     else
       let idx = length (takeWhile (\<lambda>p. p \<le> unat (word_of_int sz :: u32)) primes)
       in if length primes \<le> idx then None
          else Some \<lparr>m_size = 0, m_used = 0, m_idx = idx, m_data = []\<rparr>)"

partial_function (option) grow_chain :: "nat option \<Rightarrow> store \<times> hashmap \<Rightarrow> (store \<times> hashmap) option" where
  "grow_chain ht sm = (case ht of
      None \<Rightarrow> Some sm
    | Some a \<Rightarrow> Option.bind (mem (fst sm) a) (\<lambda>e. Option.bind (hashmap_link a sm) (grow_chain (e_next e))))"

declare grow_chain.simps [code]

fun grow_buckets :: "nat option list \<Rightarrow> store \<times> hashmap \<Rightarrow> (store \<times> hashmap) option" where
  "grow_buckets [] sm = Some sm"
| "grow_buckets (h # hs) sm = Option.bind (grow_chain h sm) (grow_buckets hs)"

definition hashmap_grow :: "bool \<Rightarrow> store \<times> hashmap \<Rightarrow> (int \<times> store \<times> hashmap) option" where
  "hashmap_grow ok sm = (case sm of (s, m) \<Rightarrow> do {
     p \<leftarrow> rd primes (m_idx m + 1);
     let (r, m') = hashmap_size ok p (m\<lparr>m_idx := m_idx m + 1\<rparr>);
     if r = -1 then Some (-1, s, m')
     else if length (m_data m) < m_size m then None
     else map_option (Pair 0) (grow_buckets (take (m_size m) (m_data m)) (s, m')) })"

definition alloc_entry :: "byte list \<Rightarrow> nat option \<Rightarrow> store \<Rightarrow> nat \<times> store" where
  "alloc_entry key val s =
    (top s, s\<lparr>mem := (mem s)(top s \<mapsto> \<lparr>e_key = key, e_hash_code = hashcode_create key, e_value = val,
       e_next = None, e_prev = None\<rparr>), top := top s + 1\<rparr>)"

definition hashmap_insert ::
  "(nat \<Rightarrow> bool) \<Rightarrow> byte list \<Rightarrow> nat option \<Rightarrow> store \<times> hashmap \<Rightarrow> (nat option \<times> store \<times> hashmap) option" where
  "hashmap_insert ok key val sm = do {
     (r, s, m) \<leftarrow> (if m_size (snd sm) \<le> unat (m_used (snd sm)) then hashmap_grow (ok 0) sm else Some (0, sm));
     if r = -1 then Some (None, s, m)
     else if \<not> ok 1 then Some (None, s, m)
     else (case alloc_entry key val s of (a, s') \<Rightarrow> map_option (Pair (Some a)) (hashmap_link a (s', m))) }"

partial_function (option) locate_loop :: "store \<Rightarrow> byte list \<Rightarrow> nat option \<Rightarrow> nat option option" where
  "locate_loop s key ht = (case ht of
      None \<Rightarrow> Some None
    | Some a \<Rightarrow> Option.bind (mem s a) (\<lambda>e.
        if length key = length (e_key e) \<and> hashcode_create key = e_hash_code e \<and> key = e_key e then Some (Some a)
        else locate_loop s key (e_next e)))"

declare locate_loop.simps [code]

definition hashmap_locate :: "byte list \<Rightarrow> store \<times> hashmap \<Rightarrow> nat option option" where
  "hashmap_locate key sm = (case sm of (s, m) \<Rightarrow> do {
     idx \<leftarrow> hashcode_index key (m_size m);
     ht \<leftarrow> rd (m_data m) idx;
     locate_loop s key ht })"

definition hashmap_find :: "byte list \<Rightarrow> store \<times> hashmap \<Rightarrow> nat option option" where
  "hashmap_find key sm = do {
     a \<leftarrow> hashmap_locate key sm;
     case a of None \<Rightarrow> Some None | Some a \<Rightarrow> map_option e_value (mem (fst sm) a) }"

definition unlink_entry :: "nat \<Rightarrow> entry \<Rightarrow> nat \<Rightarrow> store \<times> hashmap \<Rightarrow> (store \<times> hashmap) option" where
  "unlink_entry a e i sm = (case sm of (s, m) \<Rightarrow> do {
     s1 \<leftarrow> (case e_next e of None \<Rightarrow> Some s | Some n \<Rightarrow> set_prev n (e_prev e) s);
     e1 \<leftarrow> mem s1 a;
     (s2, m2) \<leftarrow> (case e_prev e1 of
         Some p \<Rightarrow> map_option (\<lambda>s2. (s2, m)) (set_next p (e_next e1) s1)
       | None \<Rightarrow> Some (s1, m\<lparr>m_data := (m_data m)[i := e_next e1]\<rparr>));
     Some (s2, m2\<lparr>m_used := m_used m2 - 1\<rparr>) })"

definition free_entry :: "nat \<Rightarrow> store \<Rightarrow> store option" where
  "free_entry a s = map_option (\<lambda>e. s\<lparr>mem := (mem s)(a := None),
     freed := freed s @ (case e_value e of None \<Rightarrow> [] | Some v \<Rightarrow> [v])\<rparr>) (mem s a)"

definition hashmap_delete :: "byte list \<Rightarrow> store \<times> hashmap \<Rightarrow> (int \<times> store \<times> hashmap) option" where
  "hashmap_delete key sm = do {
     i \<leftarrow> hashcode_index key (m_size (snd sm));
     a \<leftarrow> hashmap_locate key sm;
     case a of
       None \<Rightarrow> Some (1, sm)
     | Some a \<Rightarrow> do {
         e \<leftarrow> mem (fst sm) a;
         (s, m) \<leftarrow> unlink_entry a e i sm;
         s' \<leftarrow> free_entry a s;
         Some (0, s', m) } }"

partial_function (option) free_chain :: "nat option \<Rightarrow> store \<Rightarrow> store option" where
  "free_chain ht s = (case ht of
      None \<Rightarrow> Some s
    | Some a \<Rightarrow> Option.bind (mem s a) (\<lambda>e. Option.bind (free_entry a s) (free_chain (e_next e))))"

declare free_chain.simps [code]

fun free_buckets :: "nat option list \<Rightarrow> store \<Rightarrow> store option" where
  "free_buckets [] s = Some s"
| "free_buckets (h # hs) s = Option.bind (free_chain h s) (free_buckets hs)"

definition hashmap_free :: "(store \<times> hashmap) \<Rightarrow> store option" where
  "hashmap_free sm = (case sm of (s, m) \<Rightarrow>
     if length (m_data m) < m_size m then None else free_buckets (take (m_size m) (m_data m)) s)"

text \<open>The entries a traversal visits, in order; \<open>hashmap_walk\<close> calls its action on each of them.\<close>

partial_function (option) visit_chain :: "store \<Rightarrow> nat option \<Rightarrow> nat list \<Rightarrow> nat list option" where
  "visit_chain s ht seen = (case ht of
      None \<Rightarrow> Some seen
    | Some a \<Rightarrow> Option.bind (mem s a) (\<lambda>e. visit_chain s (e_next e) (seen @ [a])))"

declare visit_chain.simps [code]

fun visit_buckets :: "store \<Rightarrow> nat option list \<Rightarrow> nat list \<Rightarrow> nat list option" where
  "visit_buckets s [] seen = Some seen"
| "visit_buckets s (h # hs) seen = Option.bind (visit_chain s h seen) (visit_buckets s hs)"

definition hashmap_walk :: "(store \<times> hashmap) option \<Rightarrow> nat list option" where
  "hashmap_walk sm = (case sm of None \<Rightarrow> Some []
     | Some (s, m) \<Rightarrow> if length (m_data m) < m_size m then None
                       else visit_buckets s (take (m_size m) (m_data m)) [])"

text \<open>\<open>hashmap_list\<close> writes the members and a final null into an array of \<open>used + 1\<close> pointers.\<close>

definition hashmap_list :: "bool \<Rightarrow> (store \<times> hashmap) option \<Rightarrow> nat list option option" where
  "hashmap_list ok sm =
    (if \<not> ok then Some None
     else case sm of None \<Rightarrow> Some (Some [])
     | Some (s, m) \<Rightarrow> do {
         l \<leftarrow> hashmap_walk (Some (s, m));
         if length l \<le> unat (m_used m) then Some (Some l) else None })"

section \<open>Chains\<close>

fun chain :: "store \<Rightarrow> nat option \<Rightarrow> nat list \<Rightarrow> bool" where
  "chain s p [] = (p = None)"
| "chain s p (a # as) = (p = Some a \<and> (case mem s a of None \<Rightarrow> False | Some e \<Rightarrow> chain s (e_next e) as))"

text \<open>The part of an entry that relinking does not touch.\<close>

definition datum :: "store \<Rightarrow> nat \<Rightarrow> (byte list \<times> u32 \<times> nat option) option" where
  "datum s a = map_option (\<lambda>e. (e_key e, e_hash_code e, e_value e)) (mem s a)"

definition nxt :: "store \<Rightarrow> nat \<Rightarrow> nat option option" where
  "nxt s a = map_option e_next (mem s a)"

definition prv :: "store \<Rightarrow> nat \<Rightarrow> nat option option" where
  "prv s a = map_option e_prev (mem s a)"

lemma chain_Cons: "chain s p (a # as) \<longleftrightarrow> p = Some a \<and> (\<exists>q. nxt s a = Some q \<and> chain s q as)"
  by (auto simp: nxt_def split: option.splits)

declare chain.simps(2) [simp del]

lemma chain_live: "chain s p as \<Longrightarrow> a \<in> set as \<Longrightarrow> mem s a \<noteq> None"
  by (induction as arbitrary: p) (auto simp: chain_Cons nxt_def)

lemma chain_cong: "(\<And>a. a \<in> set as \<Longrightarrow> nxt s a = nxt s' a) \<Longrightarrow> chain s p as = chain s' p as"
  by (induction as arbitrary: p) (auto simp: chain_Cons)

text \<open>Everything but the links of the entries in \<open>A\<close> is kept.\<close>

definition relinked :: "nat set \<Rightarrow> store \<Rightarrow> store \<Rightarrow> bool" where
  "relinked A s s' \<longleftrightarrow> datum s' = datum s \<and> top s' = top s \<and> freed s' = freed s \<and> (\<forall>b. b \<notin> A \<longrightarrow> nxt s' b = nxt s b)"

lemma relinked_refl [simp]: "relinked A s s"
  by (simp add: relinked_def)

lemma relinked_trans: "relinked A s s1 \<Longrightarrow> relinked B s1 s2 \<Longrightarrow> relinked (A \<union> B) s s2"
  by (simp add: relinked_def)

lemma relinked_mono: "relinked A s s' \<Longrightarrow> A \<subseteq> B \<Longrightarrow> relinked B s s'"
  by (auto simp: relinked_def)

lemma set_next_effect:
  "mem s a \<noteq> None \<Longrightarrow> \<exists>s'. set_next a p s = Some s' \<and> nxt s' = (nxt s)(a \<mapsto> p) \<and> prv s' = prv s \<and> relinked {a} s s'"
  by (auto simp: set_next_def nxt_def prv_def datum_def relinked_def fun_eq_iff)

lemma set_prev_effect:
  "mem s a \<noteq> None \<Longrightarrow> \<exists>s'. set_prev a p s = Some s' \<and> nxt s' = nxt s \<and> prv s' = (prv s)(a \<mapsto> p) \<and> relinked {} s s'"
  by (auto simp: set_prev_def nxt_def prv_def datum_def relinked_def fun_eq_iff)

lemma mem_datum: "mem s a \<noteq> None \<longleftrightarrow> datum s a \<noteq> None"
  by (simp add: datum_def)

lemma mem_nxt: "nxt s a = Some q \<Longrightarrow> mem s a \<noteq> None"
  by (auto simp: nxt_def)

lemma datum_Some: "datum s a = Some (k, h, v) \<longleftrightarrow> (\<exists>e. mem s a = Some e \<and> e_key e = k \<and> e_hash_code e = h \<and> e_value e = v)"
  by (auto simp: datum_def)

section \<open>Invariant\<close>

text \<open>\<open>ls\<close> lists the addresses of every bucket in chain order.\<close>

definition addrs :: "nat list list \<Rightarrow> nat set" where
  "addrs ls = \<Union> (set ` set ls)"

definition entry_ok :: "store \<Rightarrow> nat \<Rightarrow> nat \<Rightarrow> nat \<Rightarrow> bool" where
  "entry_ok s sz i a \<longleftrightarrow> a < top s \<and>
     (case datum s a of None \<Rightarrow> False | Some (k, h, v) \<Rightarrow> h = hashcode_create k \<and> hashcode_index k sz = Some i)"

definition hm_inv :: "store \<times> hashmap \<Rightarrow> nat list list \<Rightarrow> bool" where
  "hm_inv sm ls \<longleftrightarrow> (case sm of (s, m) \<Rightarrow>
     length (m_data m) = m_size m \<and> length ls = m_size m \<and> distinct (concat ls) \<and>
     m_used m = of_nat (length (concat ls)) \<and>
     (\<forall>i < m_size m. chain s (m_data m ! i) (ls ! i) \<and> (\<forall>a \<in> set (ls ! i). entry_ok s (m_size m) i a)))"

lemma hm_invI:
  assumes "length (m_data m) = m_size m" "length ls = m_size m" "distinct (concat ls)"
    "m_used m = of_nat (length (concat ls))"
    "\<And>i. i < m_size m \<Longrightarrow> chain s (m_data m ! i) (ls ! i)"
    "\<And>i a. i < m_size m \<Longrightarrow> a \<in> set (ls ! i) \<Longrightarrow> entry_ok s (m_size m) i a"
  shows "hm_inv (s, m) ls"
  using assms by (simp add: hm_inv_def)

lemma hm_invD:
  assumes "hm_inv (s, m) ls"
  shows "length (m_data m) = m_size m" "length ls = m_size m" "distinct (concat ls)"
    "m_used m = of_nat (length (concat ls))"
    "\<And>i. i < m_size m \<Longrightarrow> chain s (m_data m ! i) (ls ! i)"
    "\<And>i a. i < m_size m \<Longrightarrow> a \<in> set (ls ! i) \<Longrightarrow> entry_ok s (m_size m) i a"
  using assms by (simp_all add: hm_inv_def)

lemma hashcode_index_less: "hashcode_index k sz = Some i \<Longrightarrow> i < sz"
  by (auto simp: hashcode_index_def split: if_splits)

lemma addrs_nth: "i < length ls \<Longrightarrow> a \<in> set (ls ! i) \<Longrightarrow> a \<in> addrs ls"
  by (auto simp: addrs_def)

lemma addrs_ex: "a \<in> addrs ls \<Longrightarrow> \<exists>i < length ls. a \<in> set (ls ! i)"
  by (auto simp: addrs_def in_set_conv_nth) metis

lemma set_concat_addrs: "set (concat ls) = addrs ls"
  by (simp add: addrs_def)

text \<open>Replacing one bucket.\<close>

lemma concat_upd:
  assumes "i < length ls"
  shows "concat ls = concat (take i ls) @ ls ! i @ concat (drop (Suc i) ls)"
    "concat (ls[i := l]) = concat (take i ls) @ l @ concat (drop (Suc i) ls)"
  using arg_cong [OF id_take_nth_drop [OF assms], of concat] assms by (simp_all add: upd_conv_take_nth_drop)

lemma push_bucket:
  assumes "i < length ls"
  shows "distinct (concat ls) \<Longrightarrow> a \<notin> addrs ls \<Longrightarrow> distinct (concat (ls[i := a # ls ! i]))"
    "length (concat (ls[i := a # ls ! i])) = Suc (length (concat ls))"
    "addrs (ls[i := a # ls ! i]) = insert a (addrs ls)"
  unfolding set_concat_addrs [symmetric] concat_upd(1) [OF assms] concat_upd(2) [OF assms] by auto

lemma hashmap_link_spec:
  assumes inv: "hm_inv (s, m) ls" and a: "a \<notin> addrs ls" "entry_ok s (m_size m) i a" and "i < m_size m"
  shows "\<exists>s' m'. hashmap_link a (s, m) = Some (s', m') \<and> hm_inv (s', m') (ls[i := a # ls ! i]) \<and> relinked {a} s s' \<and>
    m_size m' = m_size m \<and> m_idx m' = m_idx m \<and>
    prv s' = (case m_data m ! i of None \<Rightarrow> prv s | Some b \<Rightarrow> (prv s)(b \<mapsto> Some a))"
proof -
  let ?etr = "m_data m ! i"
  obtain e where e: "mem s a = Some e" "hashcode_index (e_key e) (m_size m) = Some i"
    using a(2) by (auto simp: entry_ok_def datum_def split: option.splits)
  then obtain s1 where s1: "set_next a ?etr s = Some s1" "nxt s1 = (nxt s)(a \<mapsto> ?etr)" "prv s1 = prv s" "relinked {a} s s1"
    using set_next_effect [of s a ?etr] by blast
  have "mem s1 b \<noteq> None" if "?etr = Some b" for b
  proof -
    have "mem s b \<noteq> None" using hm_invD(5) [OF inv assms(4)] that by (cases "ls ! i") (auto simp: chain_Cons dest: mem_nxt)
    then show ?thesis using s1(4) unfolding mem_datum by (simp add: relinked_def)
  qed
  then obtain s2 where s2: "(case ?etr of None \<Rightarrow> Some s1 | Some b \<Rightarrow> set_prev b (Some a) s1) = Some s2" "nxt s2 = nxt s1"
    "prv s2 = (case ?etr of None \<Rightarrow> prv s | Some b \<Rightarrow> (prv s)(b \<mapsto> Some a))" "relinked {} s1 s2"
    using set_prev_effect [of s1 _ "Some a"] s1(3) by (cases ?etr) fastforce+
  have rel: "relinked {a} s s2" using relinked_trans [OF s1(4) s2(4)] by simp
  let ?m = "m\<lparr>m_data := (m_data m)[i := Some a], m_used := m_used m + 1\<rparr>"
  let ?ls = "ls[i := a # ls ! i]"
  have len: "length (m_data m) = m_size m" "length ls = m_size m" using hm_invD [OF inv] by simp_all
  have link: "hashmap_link a (s, m) = Some (s2, ?m)"
    using e s1(1) s2(1) assms(4) len by (simp add: hashmap_link_def)
  have ch: "chain s2 p (ls ! j) = chain s p (ls ! j)" if "j < m_size m" for j p
    using addrs_nth [of j ls a] a(1) that len by (intro chain_cong) (auto simp: s2(2) s1(2))
  have "hm_inv (s2, ?m) ?ls"
  proof (rule hm_invI)
    show "chain s2 (m_data ?m ! j) (?ls ! j)" if "j < m_size ?m" for j
      using that hm_invD(5) [OF inv, of j] ch [of j] len assms(4)
      by (cases "j = i") (auto simp: chain_Cons s2(2) s1(2))
    show "entry_ok s2 (m_size ?m) j b" if "j < m_size ?m" "b \<in> set (?ls ! j)" for j b
      using that hm_invD(6) [OF inv, of j b] a(2) len assms(4) rel
      by (cases "j = i") (auto simp: entry_ok_def relinked_def)
    show "m_used ?m = of_nat (length (concat ?ls))"
      using hm_invD(4) [OF inv] push_bucket(2) [of i ls a] len assms(4) by simp
    show "distinct (concat ?ls)" using push_bucket(1) [of i ls a] hm_invD(3) [OF inv] a(1) len assms(4) by simp
  qed (simp_all add: len)
  then show ?thesis using link s2(3) rel by auto
qed

section \<open>Growing\<close>

text \<open>Entries that can be moved into a table of any size.\<close>

definition movable :: "store \<Rightarrow> nat \<Rightarrow> bool" where
  "movable s a \<longleftrightarrow> a < top s \<and> (case datum s a of None \<Rightarrow> False | Some (k, h, v) \<Rightarrow> h = hashcode_create k)"

lemma movable_ok: "movable s a \<Longrightarrow> 0 < sz \<Longrightarrow> \<exists>i < sz. entry_ok s sz i a"
  by (auto simp: movable_def entry_ok_def hashcode_index_def split: option.splits)

lemma entry_ok_movable: "entry_ok s sz i a \<Longrightarrow> movable s a"
  by (auto simp: movable_def entry_ok_def split: option.splits)

lemma movable_relinked: "relinked A s s' \<Longrightarrow> movable s' a = movable s a"
  by (simp add: movable_def relinked_def)

lemma chain_relinked: "relinked A s s' \<Longrightarrow> A \<inter> set as = {} \<Longrightarrow> chain s' p as = chain s p as"
  by (rule chain_cong) (auto simp: relinked_def)

lemma grow_chain_spec:
  assumes "hm_inv (s, m) ls" "chain s p as" "distinct as" "set as \<inter> addrs ls = {}"
    "\<And>a. a \<in> set as \<Longrightarrow> movable s a" "0 < m_size m"
  shows "\<exists>s' m' ls'. grow_chain p (s, m) = Some (s', m') \<and> hm_inv (s', m') ls' \<and> addrs ls' = set as \<union> addrs ls \<and>
    relinked (set as) s s' \<and> m_size m' = m_size m \<and> m_idx m' = m_idx m"
  using assms
proof (induction as arbitrary: p s m ls)
  case Nil
  then show ?case by (auto simp: grow_chain.simps)
next
  case (Cons a as)
  obtain q where q: "p = Some a" "nxt s a = Some q" "chain s q as" using Cons.prems(2) by (auto simp: chain_Cons)
  obtain i where i: "i < m_size m" "entry_ok s (m_size m) i a"
    using movable_ok [of s a "m_size m"] Cons.prems(5) [of a] Cons.prems(6) by auto
  have a: "a \<notin> addrs ls" using Cons.prems(4) by simp
  obtain s1 m1 where s1: "hashmap_link a (s, m) = Some (s1, m1)" "hm_inv (s1, m1) (ls[i := a # ls ! i])"
    "relinked {a} s s1" "m_size m1 = m_size m" "m_idx m1 = m_idx m"
    using hashmap_link_spec [OF Cons.prems(1) a i(2,1)] by blast
  have set1: "addrs (ls[i := a # ls ! i]) = insert a (addrs ls)"
    using push_bucket(3) [of i ls a] i(1) hm_invD(2) [OF Cons.prems(1)] by simp
  have "chain s1 q as" using q(3) Cons.prems(3) chain_relinked [OF s1(3), of as q] by simp
  moreover have "distinct as" "set as \<inter> addrs (ls[i := a # ls ! i]) = {}"
    using Cons.prems(3,4) by (auto simp: set1)
  moreover have "movable s1 b" if "b \<in> set as" for b using Cons.prems(5) that movable_relinked [OF s1(3)] by simp
  ultimately obtain s' m' ls' where g: "grow_chain q (s1, m1) = Some (s', m')" "hm_inv (s', m') ls'"
    "addrs ls' = set as \<union> addrs (ls[i := a # ls ! i])" "relinked (set as) s1 s'" "m_size m' = m_size m1" "m_idx m' = m_idx m1"
    using Cons.IH [OF s1(2), of q] Cons.prems(6) s1(4) by auto
  obtain e where "mem s a = Some e" "e_next e = q" using q(2) by (auto simp: nxt_def)
  then have "grow_chain p (s, m) = Some (s', m')"
    using q(1) s1(1) g(1) by (subst grow_chain.simps) simp
  moreover have "relinked (set (a # as)) s s'" using relinked_trans [OF s1(3) g(4)] by simp
  ultimately show ?case using g s1 set1 by auto
qed

lemma chains_relinked:
  assumes "list_all2 (chain s) ps ass" "relinked A s s'" "A \<inter> addrs ass = {}"
  shows "list_all2 (chain s') ps ass"
proof (rule list_all2_all_nthI)
  show "length ps = length ass" using assms(1) by (rule list_all2_lengthD)
  show "chain s' (ps ! j) (ass ! j)" if "j < length ps" for j
    using list_all2_nthD [OF assms(1) that] chain_relinked [OF assms(2), of "ass ! j" "ps ! j"] assms(3) that
      addrs_nth [of j ass] list_all2_lengthD [OF assms(1)] by auto
qed

lemma grow_buckets_spec:
  assumes "list_all2 (chain s) ps ass" "hm_inv (s, m) ls" "distinct (concat ass)" "addrs ass \<inter> addrs ls = {}"
    "\<And>a. a \<in> addrs ass \<Longrightarrow> movable s a" "0 < m_size m"
  shows "\<exists>s' m' ls'. grow_buckets ps (s, m) = Some (s', m') \<and> hm_inv (s', m') ls' \<and> addrs ls' = addrs ass \<union> addrs ls \<and>
    relinked (addrs ass) s s' \<and> m_size m' = m_size m \<and> m_idx m' = m_idx m"
  using assms
proof (induction ps arbitrary: ass s m ls)
  case Nil
  then show ?case by (auto simp: addrs_def)
next
  case (Cons p ps)
  obtain as ass' where ass: "ass = as # ass'" "chain s p as" "list_all2 (chain s) ps ass'"
    using Cons.prems(1) by (auto simp: list_all2_Cons1)
  have A: "addrs ass = set as \<union> addrs ass'" by (simp add: ass addrs_def)
  have dis: "distinct as" "distinct (concat ass')" "set as \<inter> addrs ass' = {}"
    using Cons.prems(3) ass(1) by (auto simp: addrs_def)
  obtain s1 m1 ls1 where s1: "grow_chain p (s, m) = Some (s1, m1)" "hm_inv (s1, m1) ls1" "addrs ls1 = set as \<union> addrs ls"
    "relinked (set as) s s1" "m_size m1 = m_size m" "m_idx m1 = m_idx m"
    using grow_chain_spec [OF Cons.prems(2) ass(2) dis(1) _ _ Cons.prems(6)] Cons.prems(4,5) A by auto
  have "list_all2 (chain s1) ps ass'" using ass(3) s1(4) dis(3) by (rule chains_relinked)
  moreover have "addrs ass' \<inter> addrs ls1 = {}" using Cons.prems(4) dis(3) by (auto simp: s1(3) A)
  moreover have "movable s1 a" if "a \<in> addrs ass'" for a using Cons.prems(5) that movable_relinked [OF s1(4)] A by simp
  ultimately obtain s' m' ls' where g: "grow_buckets ps (s1, m1) = Some (s', m')" "hm_inv (s', m') ls'"
    "addrs ls' = addrs ass' \<union> addrs ls1" "relinked (addrs ass') s1 s'" "m_size m' = m_size m1" "m_idx m' = m_idx m1"
    using Cons.IH [OF _ s1(2) dis(2)] Cons.prems(6) s1(5) by auto
  have "relinked (addrs ass) s s'" using relinked_trans [OF s1(4) g(4)] by (simp add: A)
  then show ?case using g s1 A by auto
qed

lemma primes_pos: "i < length primes \<Longrightarrow> 0 < primes ! i"
proof -
  have "\<forall>p \<in> set primes. 0 < p" by (simp add: primes_def)
  then show "i < length primes \<Longrightarrow> 0 < primes ! i" by simp
qed

lemma hashmap_grow_spec:
  assumes inv: "hm_inv (s, m) ls" and idx: "m_idx m + 1 < length primes"
  shows "\<exists>s' m' ls'. hashmap_grow True (s, m) = Some (0, s', m') \<and> hm_inv (s', m') ls' \<and> addrs ls' = addrs ls \<and>
    relinked (addrs ls) s s' \<and> m_size m' = primes ! (m_idx m + 1) \<and> m_idx m' = m_idx m + 1"
proof -
  let ?p = "primes ! (m_idx m + 1)"
  let ?m = "m\<lparr>m_idx := m_idx m + 1, m_data := replicate ?p None, m_size := ?p, m_used := 0\<rparr>"
  have len: "length (m_data m) = m_size m" "length ls = m_size m" using hm_invD [OF inv] by simp_all
  have "hm_inv (s, ?m) (replicate ?p [])" by (rule hm_invI) auto
  moreover have "list_all2 (chain s) (m_data m) ls"
    using hm_invD(5) [OF inv] len by (simp add: list_all2_conv_all_nth)
  moreover have "movable s a" if "a \<in> addrs ls" for a
    using addrs_ex [OF that] hm_invD(6) [OF inv] len by (auto intro: entry_ok_movable)
  moreover have "addrs (replicate ?p []) = {}" by (auto simp: addrs_def)
  ultimately obtain s' m' ls' where "grow_buckets (m_data m) (s, ?m) = Some (s', m')" "hm_inv (s', m') ls'"
    "addrs ls' = addrs ls" "relinked (addrs ls) s s'" "m_size m' = ?p" "m_idx m' = m_idx m + 1"
    using grow_buckets_spec [of s "m_data m" ls ?m "replicate ?p []"] hm_invD(3) [OF inv] primes_pos [OF idx] by auto
  then show ?thesis using idx len by (auto simp: hashmap_grow_def hashmap_size_def)
qed

section \<open>Lookups\<close>

definition key_at :: "store \<Rightarrow> nat \<Rightarrow> byte list" where
  "key_at s a = e_key (the (mem s a))"

definition val_at :: "store \<Rightarrow> nat \<Rightarrow> nat option" where
  "val_at s a = e_value (the (mem s a))"

lemma locate_loop_spec:
  assumes "chain s p as" "\<And>a. a \<in> set as \<Longrightarrow> movable s a"
  shows "locate_loop s key p = Some (find (\<lambda>a. key_at s a = key) as)"
  using assms
proof (induction as arbitrary: p)
  case Nil
  then show ?case by (subst locate_loop.simps) simp
next
  case (Cons a as)
  obtain q where q: "p = Some a" "nxt s a = Some q" "chain s q as" using Cons.prems(1) by (auto simp: chain_Cons)
  obtain e where e: "mem s a = Some e" "e_next e = q" "e_hash_code e = hashcode_create (e_key e)"
    using q(2) Cons.prems(2) [of a] by (auto simp: nxt_def movable_def datum_def)
  then show ?case using q Cons.IH [OF q(3)] Cons.prems(2) by (subst locate_loop.simps) (auto simp: key_at_def)
qed

lemma hashmap_locate_spec:
  assumes inv: "hm_inv (s, m) ls" and i: "hashcode_index key (m_size m) = Some i"
  shows "hashmap_locate key (s, m) = Some (find (\<lambda>a. key_at s a = key) (ls ! i))"
proof -
  have "i < m_size m" using i by (rule hashcode_index_less)
  moreover have "locate_loop s key (m_data m ! i) = Some (find (\<lambda>a. key_at s a = key) (ls ! i))"
    using hm_invD(5,6) [OF inv calculation] by (intro locate_loop_spec) (auto intro: entry_ok_movable)
  ultimately show ?thesis using hm_invD(1) [OF inv] i by (simp add: hashmap_locate_def)
qed

text \<open>Without duplicate keys a lookup does not depend on the order of a bucket.\<close>

lemma hashmap_find_spec:
  assumes inv: "hm_inv (s, m) ls" and size: "0 < m_size m" and inj: "inj_on (key_at s) (addrs ls)"
  shows "(\<forall>a \<in> addrs ls. key_at s a = key \<longrightarrow> hashmap_find key (s, m) = Some (val_at s a)) \<and>
    (key \<notin> key_at s ` addrs ls \<longrightarrow> hashmap_find key (s, m) = Some None)"
proof -
  obtain i where i: "hashcode_index key (m_size m) = Some i" using size by (auto simp: hashcode_index_def)
  then have im: "i < m_size m" by (rule hashcode_index_less)
  note loc = hashmap_locate_spec [OF inv i]
  have len: "length ls = m_size m" using hm_invD [OF inv] by simp
  have "hashmap_find key (s, m) = Some (val_at s a)" if a: "a \<in> addrs ls" "key_at s a = key" for a
  proof -
    obtain j where j: "j < length ls" "a \<in> set (ls ! j)" using addrs_ex [OF a(1)] by blast
    obtain e where e: "mem s a = Some e" "hashcode_index (e_key e) (m_size m) = Some j"
      using hm_invD(6) [OF inv, of j a] j len by (auto simp: entry_ok_def datum_def split: option.splits)
    then have "j = i" using a(2) i by (simp add: key_at_def)
    then have "find (\<lambda>a. key_at s a = key) (ls ! i) \<noteq> None" using j a(2) by (auto simp: find_None_iff)
    then obtain b where b: "find (\<lambda>a. key_at s a = key) (ls ! i) = Some b" by blast
    then have "b \<in> set (ls ! i)" "key_at s b = key" by (auto simp: find_Some_iff)
    then have "b = a" using inj a im len addrs_nth [of i ls b] by (auto dest: inj_onD)
    then show ?thesis using loc b e(1) by (simp add: hashmap_find_def val_at_def)
  qed
  moreover have "hashmap_find key (s, m) = Some None" if "key \<notin> key_at s ` addrs ls"
  proof -
    have "find (\<lambda>a. key_at s a = key) (ls ! i) = None"
      using that addrs_nth [of i ls] im len by (auto simp: find_None_iff)
    then show ?thesis using loc by (simp add: hashmap_find_def)
  qed
  ultimately show ?thesis by blast
qed

section \<open>Insertion\<close>

definition hm_ok :: "store \<times> hashmap \<Rightarrow> nat list list \<Rightarrow> bool" where
  "hm_ok sm ls \<longleftrightarrow> hm_inv sm ls \<and> m_idx (snd sm) < length primes \<and> length (concat ls) < 2 ^ 16 \<and>
     (m_size (snd sm) = primes ! m_idx (snd sm) \<or> m_size (snd sm) = 0 \<and> m_idx (snd sm) + 1 < length primes)"

lemma relinked_at: "relinked A s s' \<Longrightarrow> datum s a \<noteq> None \<Longrightarrow> key_at s' a = key_at s a \<and> val_at s' a = val_at s a"
proof -
  assume "relinked A s s'" "datum s a \<noteq> None"
  then have "datum s' a = datum s a" "mem s a \<noteq> None" by (simp_all add: relinked_def datum_def)
  then show ?thesis by (auto simp: datum_def key_at_def val_at_def)
qed

lemma addrs_datum: "hm_inv (s, m) ls \<Longrightarrow> a \<in> addrs ls \<Longrightarrow> datum s a \<noteq> None \<and> a < top s"
  using addrs_ex [of a ls] hm_invD(2,6) [of s m ls] by (fastforce simp: entry_ok_def split: option.splits)

lemma alloc_entry_spec:
  assumes inv: "hm_inv (s, m) ls" and al: "alloc_entry key val s = (a, s')"
  shows "hm_inv (s', m) ls" "a \<notin> addrs ls" "movable s' a" "key_at s' a = key" "val_at s' a = val" "top s' = top s + 1"
    "\<And>b. b \<in> addrs ls \<Longrightarrow> key_at s' b = key_at s b \<and> val_at s' b = val_at s b" "a = top s" "prv s' a = Some None"
    "\<And>b. b \<noteq> a \<Longrightarrow> prv s' b = prv s b" "freed s' = freed s"
proof -
  have a: "a = top s" and s': "s' = s\<lparr>mem := (mem s)(top s \<mapsto> \<lparr>e_key = key, e_hash_code = hashcode_create key, e_value = val,
       e_next = None, e_prev = None\<rparr>), top := top s + 1\<rparr>"
    using al by (auto simp: alloc_entry_def)
  show "a = top s" "top s' = top s + 1" "freed s' = freed s" "movable s' a" "key_at s' a = key" "val_at s' a = val"
    "prv s' a = Some None" by (simp_all add: a s' movable_def datum_def key_at_def val_at_def prv_def)
  show fresh: "a \<notin> addrs ls" using addrs_datum [OF inv] a by auto
  show "\<And>b. b \<noteq> a \<Longrightarrow> prv s' b = prv s b" by (simp add: a s' prv_def)
  show "\<And>b. b \<in> addrs ls \<Longrightarrow> key_at s' b = key_at s b \<and> val_at s' b = val_at s b"
    using fresh by (auto simp: a s' key_at_def val_at_def)
  have same: "nxt s' b = nxt s b" "datum s' b = datum s b" if "b \<in> addrs ls" for b
    using that fresh by (auto simp: a s' nxt_def datum_def)
  show "hm_inv (s', m) ls"
  proof (rule hm_invI)
    show "chain s' (m_data m ! i) (ls ! i)" if "i < m_size m" for i
      using hm_invD(5) [OF inv that] chain_cong [of "ls ! i" s' s] same(1) addrs_nth [of i ls] hm_invD(2) [OF inv] that by metis
    show "entry_ok s' (m_size m) i b" if "i < m_size m" "b \<in> set (ls ! i)" for i b
      using hm_invD(6) [OF inv that] same(2) addrs_nth [of i ls b] hm_invD(2) [OF inv] that
      by (auto simp: entry_ok_def s')
  qed (use hm_invD [OF inv] in simp_all)
qed

lemma full_idx: "primes ! i < 2 ^ 16 \<Longrightarrow> i < length primes \<Longrightarrow> i + 1 < length primes"
proof (rule ccontr)
  assume "primes ! i < 2 ^ 16" "i < length primes" "\<not> i + 1 < length primes"
  moreover then have "i = 71" by (simp add: primes_def)
  ultimately show False by (simp add: primes_def)
qed

lemma room_spec:
  assumes "hm_ok (s, m) ls"
  shows "\<exists>s' m' ls'. (if m_size m \<le> unat (m_used m) then hashmap_grow True (s, m) else Some (0, s, m)) = Some (0, s', m') \<and>
    hm_inv (s', m') ls' \<and> addrs ls' = addrs ls \<and> relinked (addrs ls) s s' \<and> 0 < m_size m' \<and> m_size m' = primes ! m_idx m' \<and>
    m_idx m' < length primes \<and> (unat (m_used m) < m_size m \<longrightarrow> s' = s \<and> m' = m \<and> ls' = ls)"
proof -
  have inv: "hm_inv (s, m) ls" and n: "length (concat ls) < 2 ^ 16" and sz: "m_size m = primes ! m_idx m \<or> m_size m = 0 \<and> m_idx m + 1 < length primes"
    and il: "m_idx m < length primes"
    using assms by (auto simp: hm_ok_def)
  have u: "unat (m_used m) = length (concat ls)" using hm_invD(4) [OF inv] n by (simp add: unat_of_nat)
  show ?thesis
  proof (cases "m_size m \<le> unat (m_used m)")
    case True
    then have idx: "m_idx m + 1 < length primes"
      using sz full_idx [of "m_idx m"] il u n by auto
    then show ?thesis using True hashmap_grow_spec [OF inv idx] primes_pos [OF idx] by auto
  next
    case False
    then show ?thesis using inv sz il by auto
  qed
qed

lemma length_concat_addrs: "hm_inv (s, m) ls \<Longrightarrow> length (concat ls) = card (addrs ls)"
  using hm_invD(3) [of s m ls] distinct_card [of "concat ls"] by (simp add: addrs_def)

lemma hashmap_insert_spec:
  assumes ok: "hm_ok (s, m) ls" and n: "length (concat ls) + 1 < 2 ^ 16"
  shows "\<exists>a s' m' ls'. hashmap_insert (\<lambda>_. True) key val (s, m) = Some (Some a, s', m') \<and> hm_ok (s', m') ls' \<and>
    addrs ls' = insert a (addrs ls) \<and> a \<notin> addrs ls \<and> key_at s' a = key \<and> val_at s' a = val \<and> 0 < m_size m' \<and>
    (\<forall>b \<in> addrs ls. key_at s' b = key_at s b \<and> val_at s' b = val_at s b)"
proof -
  obtain s1 m1 ls1 where g: "(if m_size m \<le> unat (m_used m) then hashmap_grow True (s, m) else Some (0, s, m)) = Some (0, s1, m1)"
    "hm_inv (s1, m1) ls1" "addrs ls1 = addrs ls" "relinked (addrs ls) s s1" "0 < m_size m1" "m_size m1 = primes ! m_idx m1"
    "m_idx m1 < length primes"
    using room_spec [OF ok] by blast
  obtain a s2 where al: "alloc_entry key val s1 = (a, s2)" by (rule prod.exhaust)
  note A = alloc_entry_spec [OF g(2) al]
  obtain i where i: "i < m_size m1" "entry_ok s2 (m_size m1) i a" using movable_ok [OF A(3) g(5)] by blast
  obtain s' m' where l: "hashmap_link a (s2, m1) = Some (s', m')" "hm_inv (s', m') (ls1[i := a # ls1 ! i])" "relinked {a} s2 s'"
    "m_size m' = m_size m1" "m_idx m' = m_idx m1"
    using hashmap_link_spec [OF A(1,2) i(2,1)] by blast
  let ?ls = "ls1[i := a # ls1 ! i]"
  have len: "length ls1 = m_size m1" using hm_invD(2) [OF g(2)] .
  have addr: "addrs ?ls = insert a (addrs ls)" using push_bucket(3) [of i ls1 a] i(1) len g(3) by simp
  have cnt: "length (concat ?ls) = length (concat ls) + 1"
    using length_concat_addrs [OF g(2)] length_concat_addrs [of s m ls] ok push_bucket(2) [of i ls1 a] i(1) len g(3) by (simp add: hm_ok_def)
  have "hashmap_insert (\<lambda>_. True) key val (s, m) = Some (Some a, s', m')"
    using g(1) al l(1) by (simp add: hashmap_insert_def)
  moreover have "hm_ok (s', m') ?ls" using l cnt n g(6,7) by (simp add: hm_ok_def)
  moreover have "key_at s' b = key_at s b \<and> val_at s' b = val_at s b" if "b \<in> addrs ls" for b
    using relinked_at [OF g(4), of b] A(7) [of b] relinked_at [OF l(3), of b] addrs_datum [of s m ls b] addrs_datum [OF A(1), of b] that ok g(3)
    by (simp add: hm_ok_def)
  moreover have "key_at s' a = key \<and> val_at s' a = val"
    using relinked_at [OF l(3), of a] A(3-5) by (auto simp: movable_def split: option.splits)
  ultimately show ?thesis using addr A(2) g(3,5) l(4) by (intro exI [of _ a] exI [of _ s'] exI [of _ m'] exI [of _ ?ls]) auto
qed

section \<open>Deletion\<close>

fun dll :: "store \<Rightarrow> nat option \<Rightarrow> nat list \<Rightarrow> bool" where
  "dll s p [] = True"
| "dll s p (a # as) = (prv s a = Some p \<and> dll s (Some a) as)"

text \<open>The invariant with the back pointers: a new table has it, linking fresh entries keeps it.\<close>

definition hm_dll :: "store \<times> hashmap \<Rightarrow> nat list list \<Rightarrow> bool" where
  "hm_dll sm ls \<longleftrightarrow> hm_inv sm ls \<and> (\<forall>i < m_size (snd sm). dll (fst sm) None (ls ! i))"

lemma dll_cong: "(\<And>a. a \<in> set as \<Longrightarrow> prv s a = prv s' a) \<Longrightarrow> dll s p as = dll s' p as"
  by (induction as arbitrary: p) auto

lemma chain_skip:
  assumes "chain s p (xs @ a # ys)" "distinct (xs @ a # ys)" "nxt s a = Some q"
    "\<And>b. b \<in> set (xs @ ys) \<Longrightarrow> nxt s' b = (if xs \<noteq> [] \<and> b = last xs then Some q else nxt s b)"
  shows "chain s' (if xs = [] then q else p) (xs @ ys)"
  using assms
proof (induction xs arbitrary: p)
  case Nil
  then show ?case using chain_cong [of ys s' s q] by (auto simp: chain_Cons)
next
  case (Cons x xs)
  obtain t where t: "p = Some x" "nxt s x = Some t" "chain s t (xs @ a # ys)" using Cons.prems(1) by (auto simp: chain_Cons)
  show ?case
  proof (cases "xs = []")
    case True
    have "chain s q ys" using t(3) True Cons.prems(3) by (auto simp: chain_Cons)
    moreover have "nxt s' b = nxt s b" if "b \<in> set ys" for b using Cons.prems(2,4) True that by auto
    ultimately have "chain s' q ys" using chain_cong [of ys s' s q] by simp
    then show ?thesis using t(1) True Cons.prems(4) [of x] by (auto simp: chain_Cons)
  next
    case False
    then have "x \<noteq> last xs" using Cons.prems(2) by auto
    then have "nxt s' x = Some t" using Cons.prems(4) [of x] t(2) False by auto
    moreover have "chain s' t (xs @ ys)" using Cons.IH [OF t(3) _ Cons.prems(3)] Cons.prems(2,4) False by auto
    ultimately show ?thesis using t(1) False by (simp add: chain_Cons)
  qed
qed

lemma dll_skip:
  assumes "dll s p (xs @ a # ys)" "distinct (xs @ a # ys)"
    "\<And>b. b \<in> set (xs @ ys) \<Longrightarrow> prv s' b = (if ys \<noteq> [] \<and> b = hd ys then prv s a else prv s b)"
  shows "dll s' p (xs @ ys)"
  using assms
proof (induction xs arbitrary: p)
  case Nil
  show ?case
  proof (cases ys)
    case (Cons y zs)
    then have "dll s' (Some y) zs = dll s (Some y) zs" using Nil.prems(2,3) by (intro dll_cong) auto
    then show ?thesis using Nil.prems Cons by simp
  qed simp
next
  case (Cons x xs)
  moreover have "prv s' x = prv s x" using Cons.prems(2,3) by (cases ys) auto
  ultimately show ?case by auto
qed

lemma dll_prv:
  "dll s p (xs @ a # ys) \<Longrightarrow> prv s a = Some (if xs = [] then p else Some (last xs))"
  by (induction xs arbitrary: p) (auto split: if_splits)

lemma chain_nxt:
  "chain s p (xs @ a # ys) \<Longrightarrow> nxt s a = Some (if ys = [] then None else Some (hd ys))"
  by (induction xs arbitrary: p) (auto simp: chain_Cons, cases ys, auto simp: chain_Cons)

lemma free_entry_effect:
  "mem s a \<noteq> None \<Longrightarrow> \<exists>s'. free_entry a s = Some s' \<and> nxt s' = (nxt s)(a := None) \<and> prv s' = (prv s)(a := None) \<and>
     datum s' = (datum s)(a := None) \<and> top s' = top s \<and> freed s' = freed s @ (case val_at s a of None \<Rightarrow> [] | Some v \<Rightarrow> [v])"
  by (auto simp: free_entry_def nxt_def prv_def datum_def val_at_def fun_eq_iff)

lemma unlink_entry_effect:
  assumes "chain s p (xs @ a # ys)" "dll s None (xs @ a # ys)" "distinct (xs @ a # ys)" "mem s a = Some e"
  shows "\<exists>s' m'. unlink_entry a e i (s, m) = Some (s', m') \<and> datum s' = datum s \<and> top s' = top s \<and> freed s' = freed s \<and>
    m' = m\<lparr>m_data := (if xs = [] then (m_data m)[i := e_next e] else m_data m), m_used := m_used m - 1\<rparr> \<and>
    (\<forall>b. nxt s' b = (if xs \<noteq> [] \<and> b = last xs then Some (e_next e) else nxt s b)) \<and>
    (\<forall>b. prv s' b = (if ys \<noteq> [] \<and> b = hd ys then prv s a else prv s b))"
proof -
  have n: "e_next e = (if ys = [] then None else Some (hd ys))" using chain_nxt [OF assms(1)] assms(4) by (simp add: nxt_def)
  have p: "e_prev e = (if xs = [] then None else Some (last xs))" using dll_prv [OF assms(2)] assms(4) by (simp add: prv_def)
  note live = chain_live [OF assms(1)]
  obtain s1 where s1: "(case e_next e of None \<Rightarrow> Some s | Some n \<Rightarrow> set_prev n (e_prev e) s) = Some s1" "nxt s1 = nxt s"
    "\<forall>b. prv s1 b = (if ys \<noteq> [] \<and> b = hd ys then prv s a else prv s b)" "relinked {} s s1"
  proof (cases "ys = []")
    case True
    then show ?thesis using that [of s] n by simp
  next
    case False
    then have "mem s (hd ys) \<noteq> None" using live by simp
    from set_prev_effect [OF this, of "e_prev e"] show ?thesis using that False n p dll_prv [OF assms(2)] by auto
  qed
  have "mem s1 a \<noteq> None" using assms(4) s1(4) unfolding mem_datum by (auto simp: relinked_def datum_def)
  then obtain e1 where e1: "mem s1 a = Some e1" by blast
  have same: "e_next e1 = e_next e" "e_prev e1 = e_prev e"
    using s1(2,3) e1 assms(3,4) by (auto simp: nxt_def prv_def fun_eq_iff split: if_splits dest!: spec [of _ a])
  show ?thesis
  proof (cases "xs = []")
    case True
    then show ?thesis using s1 e1 same p by (auto simp: unlink_entry_def relinked_def)
  next
    case False
    then have "mem s1 (last xs) \<noteq> None" using live [of "last xs"] s1(4) unfolding mem_datum by (auto simp: relinked_def)
    from set_next_effect [OF this, of "e_next e"] show ?thesis using False s1 e1 same p
      by (auto simp: unlink_entry_def relinked_def)
  qed
qed

lemma remove_bucket:
  assumes "i < length ls" "ls ! i = xs @ a # ys"
  shows "distinct (concat ls) \<Longrightarrow> distinct (concat (ls[i := xs @ ys]))"
    "length (concat ls) = Suc (length (concat (ls[i := xs @ ys])))"
    "distinct (concat ls) \<Longrightarrow> addrs (ls[i := xs @ ys]) = addrs ls - {a}"
  unfolding set_concat_addrs [symmetric] concat_upd(1) [OF assms(1)] concat_upd(2) [OF assms(1)] assms(2) by auto

lemma hashmap_delete_spec:
  assumes inv: "hm_dll (s, m) ls" and i: "hashcode_index key (m_size m) = Some i"
    and split: "ls ! i = xs @ a # ys" "key_at s a = key" "key \<notin> key_at s ` set xs"
  shows "\<exists>s' m'. hashmap_delete key (s, m) = Some (0, s', m') \<and> hm_dll (s', m') (ls[i := xs @ ys]) \<and>
    (\<forall>b. b \<noteq> a \<longrightarrow> datum s' b = datum s b) \<and> mem s' a = None \<and> m_size m' = m_size m \<and> m_idx m' = m_idx m \<and>
    freed s' = freed s @ (case val_at s a of None \<Rightarrow> [] | Some v \<Rightarrow> [v])"
proof -
  have inv': "hm_inv (s, m) ls" and dl: "\<And>j. j < m_size m \<Longrightarrow> dll s None (ls ! j)" using inv by (simp_all add: hm_dll_def)
  have len: "length (m_data m) = m_size m" "length ls = m_size m" using hm_invD [OF inv'] by simp_all
  have im: "i < m_size m" using i by (rule hashcode_index_less)
  have ch: "chain s (m_data m ! i) (xs @ a # ys)" and dls: "dll s None (xs @ a # ys)" using hm_invD(5) [OF inv' im] dl [OF im] split(1) by simp_all
  have dis: "distinct (xs @ a # ys)" using hm_invD(3) [OF inv'] concat_upd(1) [of i ls] im len split(1) by auto
  obtain e where e: "mem s a = Some e" using chain_live [OF ch] by auto
  obtain s1 m1 where u: "unlink_entry a e i (s, m) = Some (s1, m1)" "datum s1 = datum s" "top s1 = top s" "freed s1 = freed s"
    "m1 = m\<lparr>m_data := (if xs = [] then (m_data m)[i := e_next e] else m_data m), m_used := m_used m - 1\<rparr>"
    "\<forall>b. nxt s1 b = (if xs \<noteq> [] \<and> b = last xs then Some (e_next e) else nxt s b)"
    "\<forall>b. prv s1 b = (if ys \<noteq> [] \<and> b = hd ys then prv s a else prv s b)"
    using unlink_entry_effect [OF ch dls dis e, of i m] by blast
  have "mem s1 a \<noteq> None" using e u(2) unfolding mem_datum by (simp add: datum_def)
  from free_entry_effect [OF this] obtain s' where f: "free_entry a s1 = Some s'" "nxt s' = (nxt s1)(a := None)"
    "prv s' = (prv s1)(a := None)" "datum s' = (datum s1)(a := None)" "top s' = top s1"
    "freed s' = freed s1 @ (case val_at s1 a of None \<Rightarrow> [] | Some v \<Rightarrow> [v])" by blast
  have "find (\<lambda>b. key_at s b = key) (xs @ a # ys) = Some a" using split(2,3) by (induction xs) auto
  then have del: "hashmap_delete key (s, m) = Some (0, s', m1)"
    using hashmap_locate_spec [OF inv' i] e u(1) f(1) i split(1) by (simp add: hashmap_delete_def)
  have other: "b \<notin> set (xs @ a # ys)" if "j < m_size m" "j \<noteq> i" "b \<in> set (ls ! j)" for j b
    using hm_invD(6) [OF inv' that(1,3)] hm_invD(6) [OF inv' im, of b] that(2) split(1)
    by (auto simp: entry_ok_def split: option.splits)
  let ?ls = "ls[i := xs @ ys]"
  have cj: "nxt s' b = nxt s b" "prv s' b = prv s b" if "j < m_size m" "j \<noteq> i" "b \<in> set (ls ! j)" for j b
    using other [OF that] u(6,7) f(2,3) by auto
  have ci: "chain s' (if xs = [] then e_next e else m_data m ! i) (xs @ ys)"
    using dis u(6) f(2) e by (intro chain_skip [OF ch dis]) (auto simp: nxt_def)
  have di: "dll s' None (xs @ ys)" using dis u(7) f(3) by (intro dll_skip [OF dls dis]) auto
  have "hm_inv (s', m1) ?ls"
  proof (rule hm_invI)
    show "chain s' (m_data m1 ! j) (?ls ! j)" if "j < m_size m1" for j
      using that hm_invD(5) [OF inv', of j] chain_cong [of "ls ! j" s' s "m_data m ! j"] cj(1) [of j] ci len u(5)
      by (cases "j = i") auto
    show "entry_ok s' (m_size m1) j b" if "j < m_size m1" "b \<in> set (?ls ! j)" for j b
    proof -
      have j: "j < m_size m" using that(1) u(5) by simp
      have "b \<in> set (ls ! j)" "b \<noteq> a" using that(2) j im len split(1) dis other [of j b] by (cases "j = i"; auto)+
      then show ?thesis using hm_invD(6) [OF inv' j] f(4,5) u(2,3,5) by (simp add: entry_ok_def)
    qed
    show "m_used m1 = of_nat (length (concat ?ls))"
      using hm_invD(4) [OF inv'] remove_bucket(2) [of i ls xs a ys] im len split(1) u(5) by simp
    show "distinct (concat ?ls)" using remove_bucket(1) [of i ls xs a ys] hm_invD(3) [OF inv'] im len split(1) by simp
  qed (use len u(5) in simp_all)
  moreover have "dll s' None (?ls ! j)" if "j < m_size m" for j
    using that dl [of j] dll_cong [of "ls ! j" s' s None] cj(2) [of j] di len by (cases "j = i") auto
  ultimately have "hm_dll (s', m1) ?ls" using u(5) by (simp add: hm_dll_def)
  moreover have "mem s' a = None" using f(4) mem_datum [of s' a] by simp
  moreover have "val_at s1 a = val_at s a" using u(2) e by (auto simp: datum_def val_at_def fun_eq_iff dest!: spec [of _ a])
  ultimately show ?thesis using del f(4,6) u(2,4,5) by simp
qed

section \<open>Back pointers and growth\<close>

definition idx_at :: "store \<Rightarrow> nat \<Rightarrow> nat \<Rightarrow> nat option" where
  "idx_at s sz a = hashcode_index (key_at s a) sz"

lemma entry_ok_idx: "entry_ok s sz i a \<Longrightarrow> idx_at s sz a = Some i"
  by (auto simp: entry_ok_def idx_at_def key_at_def datum_def split: option.splits)

lemma idx_at_relinked: "relinked A s s' \<Longrightarrow> datum s a \<noteq> None \<Longrightarrow> idx_at s' sz a = idx_at s sz a"
  by (simp add: idx_at_def relinked_at)

lemma head_mem:
  assumes "hm_inv (s, m) ls" "i < m_size m" "m_data m ! i = Some b"
  shows "b \<in> set (ls ! i)" "b \<in> addrs ls"
proof -
  show "b \<in> set (ls ! i)" using hm_invD(5) [OF assms(1,2)] assms(3) by (cases "ls ! i") (auto simp: chain_Cons)
  then show "b \<in> addrs ls" using addrs_nth [of i ls b] hm_invD(2) [OF assms(1)] assms(2) by simp
qed

text \<open>Linking an entry changes no back pointer but that of the old head of its bucket.\<close>

lemma link_prv:
  assumes inv: "hm_inv (s, m) ls" and a: "a \<notin> addrs ls" "entry_ok s (m_size m) i a" and "i < m_size m"
    and "hashmap_link a (s, m) = Some (s', m')" "idx_at s (m_size m) b \<noteq> idx_at s (m_size m) a \<or> b = a"
  shows "prv s' b = prv s b"
proof -
  have p: "prv s' = (case m_data m ! i of None \<Rightarrow> prv s | Some b \<Rightarrow> (prv s)(b \<mapsto> Some a))"
    using hashmap_link_spec [OF inv a assms(4)] assms(5) by auto
  show ?thesis
  proof (cases "m_data m ! i")
    case (Some c)
    then have "c \<in> set (ls ! i)" "c \<in> addrs ls" using head_mem [OF inv assms(4)] by simp_all
    then have "idx_at s (m_size m) c = Some i" "c \<noteq> a" using hm_invD(6) [OF inv assms(4)] a(1) by (auto intro: entry_ok_idx)
    then have "c \<noteq> b" using assms(6) entry_ok_idx [OF a(2)] by auto
    then show ?thesis using p Some by simp
  qed (use p in simp)
qed

lemma distinct_single: "distinct l \<Longrightarrow> set l = {b} \<Longrightarrow> l = [b]"
  by (cases l; cases "tl l") (auto simp: insert_eq_iff)

lemma lone_bucket:
  assumes inv: "hm_inv (s, m) ls" and b: "b \<in> addrs ls"
    and lone: "\<And>c. c \<in> addrs ls \<Longrightarrow> c \<noteq> b \<Longrightarrow> idx_at s (m_size m) c \<noteq> idx_at s (m_size m) b"
  shows "\<exists>j < m_size m. ls ! j = [b] \<and> idx_at s (m_size m) b = Some j"
proof -
  have len: "length ls = m_size m" using hm_invD(2) [OF inv] .
  obtain j where j: "j < m_size m" "b \<in> set (ls ! j)" using addrs_ex [OF b] len by auto
  have idx: "idx_at s (m_size m) c = Some j" if "c \<in> set (ls ! j)" for c
    using hm_invD(6) [OF inv j(1) that] by (rule entry_ok_idx)
  have "c = b" if "c \<in> set (ls ! j)" for c
  proof (rule ccontr)
    assume "c \<noteq> b"
    moreover have "c \<in> addrs ls" using addrs_nth [of j ls c] that j(1) len by simp
    ultimately have "idx_at s (m_size m) c \<noteq> idx_at s (m_size m) b" by (intro lone)
    then show False unfolding idx [OF that] idx [OF j(2)] by simp
  qed
  then have "set (ls ! j) = {b}" using j(2) by blast
  moreover have "distinct (ls ! j)" using hm_invD(3) [OF inv] concat_upd(1) [of j ls] j(1) len by auto
  ultimately have "ls ! j = [b]" by (intro distinct_single)
  then show ?thesis using idx [OF j(2)] j(1) by (intro exI [of _ j]) simp
qed

lemma movable_datum: "movable s a \<Longrightarrow> datum s a \<noteq> None"
  by (auto simp: movable_def split: option.splits)

lemma grow_chain_prv:
  assumes "hm_inv (s, m) ls" "chain s p as" "distinct as" "set as \<inter> addrs ls = {}"
    "\<And>a. a \<in> set as \<Longrightarrow> movable s a" "0 < m_size m" "grow_chain p (s, m) = Some (s', m')" "datum s b \<noteq> None"
    "\<And>a. a \<in> set as \<Longrightarrow> a \<noteq> b \<Longrightarrow> idx_at s (m_size m) a \<noteq> idx_at s (m_size m) b"
  shows "prv s' b = prv s b"
  using assms
proof (induction as arbitrary: p s m ls)
  case Nil
  then show ?case by (auto simp: grow_chain.simps)
next
  case (Cons a as)
  obtain q where q: "p = Some a" "nxt s a = Some q" "chain s q as" using Cons.prems(2) by (auto simp: chain_Cons)
  obtain i where i: "i < m_size m" "entry_ok s (m_size m) i a"
    using movable_ok [of s a "m_size m"] Cons.prems(5) [of a] Cons.prems(6) by auto
  have a: "a \<notin> addrs ls" using Cons.prems(4) by simp
  obtain s1 m1 where s1: "hashmap_link a (s, m) = Some (s1, m1)" "hm_inv (s1, m1) (ls[i := a # ls ! i])"
    "relinked {a} s s1" "m_size m1 = m_size m"
    using hashmap_link_spec [OF Cons.prems(1) a i(2,1)] by blast
  have set1: "addrs (ls[i := a # ls ! i]) = insert a (addrs ls)"
    using push_bucket(3) [of i ls a] i(1) hm_invD(2) [OF Cons.prems(1)] by simp
  have "prv s1 b = prv s b"
    using link_prv [OF Cons.prems(1) a i(2,1) s1(1), of b] Cons.prems(9) [of a] by (cases "a = b") auto
  moreover have "prv s' b = prv s1 b"
  proof (rule Cons.IH [OF s1(2)])
    show "chain s1 q as" using q(3) Cons.prems(3) chain_relinked [OF s1(3), of as q] by simp
    show "distinct as" "set as \<inter> addrs (ls[i := a # ls ! i]) = {}" using Cons.prems(3,4) by (auto simp: set1)
    show "movable s1 c" if "c \<in> set as" for c using Cons.prems(5) that movable_relinked [OF s1(3)] by simp
    show "0 < m_size m1" "datum s1 b \<noteq> None" using Cons.prems(6,8) s1(3,4) by (simp_all add: relinked_def)
    obtain e where "mem s a = Some e" "e_next e = q" using q(2) by (auto simp: nxt_def)
    then show "grow_chain q (s1, m1) = Some (s', m')"
      using q(1) s1(1) Cons.prems(7) by (subst (asm) grow_chain.simps) simp
    show "idx_at s1 (m_size m1) c \<noteq> idx_at s1 (m_size m1) b" if "c \<in> set as" "c \<noteq> b" for c
      using Cons.prems(9) [of c] that Cons.prems(5) [of c] Cons.prems(8) idx_at_relinked [OF s1(3)] movable_datum s1(4) by simp
  qed
  ultimately show ?case by simp
qed

lemma grow_buckets_prv:
  assumes "list_all2 (chain s) ps ass" "hm_inv (s, m) ls" "distinct (concat ass)" "addrs ass \<inter> addrs ls = {}"
    "\<And>a. a \<in> addrs ass \<Longrightarrow> movable s a" "0 < m_size m" "grow_buckets ps (s, m) = Some (s', m')" "datum s b \<noteq> None"
    "\<And>a. a \<in> addrs ass \<Longrightarrow> a \<noteq> b \<Longrightarrow> idx_at s (m_size m) a \<noteq> idx_at s (m_size m) b"
  shows "prv s' b = prv s b"
  using assms
proof (induction ps arbitrary: ass s m ls)
  case Nil
  then show ?case by simp
next
  case (Cons p ps)
  obtain as ass' where ass: "ass = as # ass'" "chain s p as" "list_all2 (chain s) ps ass'"
    using Cons.prems(1) by (auto simp: list_all2_Cons1)
  have A: "addrs ass = set as \<union> addrs ass'" by (simp add: ass addrs_def)
  have dis: "distinct as" "distinct (concat ass')" "set as \<inter> addrs ass' = {}"
    using Cons.prems(3) ass(1) by (auto simp: addrs_def)
  have as: "set as \<inter> addrs ls = {}" "\<And>a. a \<in> set as \<Longrightarrow> movable s a" using Cons.prems(4,5) A by auto
  obtain s1 m1 ls1 where s1: "grow_chain p (s, m) = Some (s1, m1)" "hm_inv (s1, m1) ls1" "addrs ls1 = set as \<union> addrs ls"
    "relinked (set as) s s1" "m_size m1 = m_size m"
    using grow_chain_spec [OF Cons.prems(2) ass(2) dis(1) as Cons.prems(6)] by auto
  have "prv s1 b = prv s b"
    using Cons.prems(9) A by (intro grow_chain_prv [OF Cons.prems(2) ass(2) dis(1) as Cons.prems(6) s1(1) Cons.prems(8)]) auto
  moreover have "prv s' b = prv s1 b"
  proof (rule Cons.IH [OF _ s1(2) dis(2)])
    show "list_all2 (chain s1) ps ass'" using ass(3) s1(4) dis(3) by (rule chains_relinked)
    show "addrs ass' \<inter> addrs ls1 = {}" using Cons.prems(4) dis(3) by (auto simp: s1(3) A)
    show "movable s1 a" if "a \<in> addrs ass'" for a using Cons.prems(5) that movable_relinked [OF s1(4)] A by simp
    show "0 < m_size m1" "datum s1 b \<noteq> None" using Cons.prems(6,8) s1(4,5) by (simp_all add: relinked_def)
    show "grow_buckets ps (s1, m1) = Some (s', m')" using Cons.prems(7) s1(1) by simp
    show "idx_at s1 (m_size m1) c \<noteq> idx_at s1 (m_size m1) b" if "c \<in> addrs ass'" "c \<noteq> b" for c
      using Cons.prems(9) [of c] that Cons.prems(5) [of c] Cons.prems(8) idx_at_relinked [OF s1(4)] movable_datum s1(5) A by simp
  qed
  ultimately show ?case by simp
qed

lemma hashmap_grow_prv:
  assumes inv: "hm_inv (s, m) ls" and idx: "m_idx m + 1 < length primes" and "hashmap_grow True (s, m) = Some (0, s', m')"
    and b: "b \<in> addrs ls" "\<And>a. a \<in> addrs ls \<Longrightarrow> a \<noteq> b \<Longrightarrow> idx_at s (primes ! (m_idx m + 1)) a \<noteq> idx_at s (primes ! (m_idx m + 1)) b"
  shows "prv s' b = prv s b"
proof -
  let ?p = "primes ! (m_idx m + 1)"
  let ?m = "m\<lparr>m_idx := m_idx m + 1, m_data := replicate ?p None, m_size := ?p, m_used := 0\<rparr>"
  have len: "length (m_data m) = m_size m" "length ls = m_size m" using hm_invD [OF inv] by simp_all
  have "hm_inv (s, ?m) (replicate ?p [])" by (rule hm_invI) auto
  moreover have "list_all2 (chain s) (m_data m) ls"
    using hm_invD(5) [OF inv] len by (simp add: list_all2_conv_all_nth)
  moreover have "movable s a" if "a \<in> addrs ls" for a
    using addrs_ex [OF that] hm_invD(6) [OF inv] len by (auto intro: entry_ok_movable)
  moreover have "addrs (replicate ?p []) = {}" by (auto simp: addrs_def)
  moreover have "grow_buckets (m_data m) (s, ?m) = Some (s', m')"
    using assms(3) idx len by (auto simp: hashmap_grow_def hashmap_size_def)
  ultimately show ?thesis
    using grow_buckets_prv [of s "m_data m" ls ?m "replicate ?p []" s' m' b] hm_invD(3) [OF inv] primes_pos [OF idx] b addrs_datum [OF inv b(1)]
    by auto
qed

text \<open>Deleting the only entry of a bucket through a stale back pointer leaves the bucket dangling.\<close>

lemma delete_stale:
  assumes inv: "hm_inv (s, m) ls" and j: "j < m_size m" "ls ! j = [b]" and "prv s b = Some (Some a)" "mem s a \<noteq> None" "a \<noteq> b"
  shows "\<exists>sm2. hashmap_delete (key_at s b) (s, m) = Some (0, sm2) \<and> hashmap_find (key_at s b) sm2 = None"
proof -
  have ok: "entry_ok s (m_size m) j b" using hm_invD(6) [OF inv j(1)] j(2) by simp
  have i: "hashcode_index (key_at s b) (m_size m) = Some j" using entry_ok_idx [OF ok] by (simp add: idx_at_def)
  have ch: "m_data m ! j = Some b" "nxt s b = Some None" using hm_invD(5) [OF inv j(1)] j(2) by (auto simp: chain_Cons)
  obtain e where e: "mem s b = Some e" "e_next e = None" "e_prev e = Some a"
    using ch(2) assms(4) by (auto simp: nxt_def prv_def)
  obtain s1 where s1: "set_next a None s = Some s1" "relinked {a} s s1" using set_next_effect [OF assms(5)] by blast
  have "mem s1 b \<noteq> None" using e(1) s1(2) unfolding mem_datum by (auto simp: relinked_def datum_def)
  from free_entry_effect [OF this] obtain s2 where s2: "free_entry b s1 = Some s2" "datum s2 = (datum s1)(b := None)" by blast
  have "unlink_entry b e j (s, m) = Some (s1, m\<lparr>m_used := m_used m - 1\<rparr>)"
    using e s1(1) by (simp add: unlink_entry_def)
  then have del: "hashmap_delete (key_at s b) (s, m) = Some (0, s2, m\<lparr>m_used := m_used m - 1\<rparr>)"
    using hashmap_locate_spec [OF inv i] i j(2) e(1) s2(1) by (simp add: hashmap_delete_def)
  have "mem s2 b = None" using s2(2) mem_datum [of s2 b] by simp
  then have "hashmap_find (key_at s b) (s2, m\<lparr>m_used := m_used m - 1\<rparr>) = None"
    using i ch(1) j(1) hm_invD(1) [OF inv] by (simp add: hashmap_find_def hashmap_locate_def locate_loop.simps [of _ _ "Some b"])
  then show ?thesis using del by blast
qed

section \<open>Lookups after a deletion\<close>

lemma find_split:
  assumes "find P zs = Some a"
  obtains xs ys where "zs = xs @ a # ys" "P a" "\<forall>x \<in> set xs. \<not> P x"
proof -
  obtain n where n: "n < length zs" "P (zs ! n)" "a = zs ! n" "\<forall>j < n. \<not> P (zs ! j)"
    using assms by (auto simp: find_Some_iff)
  have "\<forall>x \<in> set (take n zs). \<not> P x" using n(1,4) by (auto simp: in_set_conv_nth)
  then show ?thesis using that [of "take n zs" "drop (Suc n) zs"] n id_take_nth_drop [OF n(1)] by simp
qed

lemma hashmap_find_list:
  assumes "hm_inv (s, m) ls" "hashcode_index k (m_size m) = Some i"
  shows "hashmap_find k (s, m) = Some (case find (\<lambda>a. key_at s a = k) (ls ! i) of None \<Rightarrow> None | Some a \<Rightarrow> val_at s a)"
proof (cases "find (\<lambda>a. key_at s a = k) (ls ! i)")
  case None
  then show ?thesis using hashmap_locate_spec [OF assms] by (simp add: hashmap_find_def)
next
  case (Some a)
  then have "a \<in> set (ls ! i)" by (auto simp: find_Some_iff)
  then have "mem s a \<noteq> None"
    using chain_live [OF hm_invD(5) [OF assms(1) hashcode_index_less [OF assms(2)]]] by blast
  then show ?thesis using hashmap_locate_spec [OF assms] Some by (auto simp: hashmap_find_def val_at_def)
qed

lemma find_cong_set: "(\<And>x. x \<in> set xs \<Longrightarrow> P x = Q x) \<Longrightarrow> find P xs = find Q xs"
  by (induction xs) auto

lemma find_remove: "\<not> P a \<Longrightarrow> find P (xs @ a # ys) = find P (xs @ ys)"
  by (induction xs) auto

lemma datum_at: "datum s' b = datum s b \<Longrightarrow> datum s b \<noteq> None \<Longrightarrow> key_at s' b = key_at s b \<and> val_at s' b = val_at s b"
  by (auto simp: datum_def key_at_def val_at_def)

lemma find_after_delete:
  assumes inv: "hm_inv (s, m) ls" "hm_inv (s', m') (ls[i := xs @ ys])" and i: "hashcode_index key (m_size m) = Some i"
    and sp: "ls ! i = xs @ a # ys" "key_at s a = key"
    and d: "\<forall>b. b \<noteq> a \<longrightarrow> datum s' b = datum s b" "m_size m' = m_size m" and "k \<noteq> key"
  shows "hashmap_find k (s', m') = hashmap_find k (s, m)"
proof -
  have sz: "0 < m_size m" using hashcode_index_less [OF i] by simp
  then obtain j where j: "hashcode_index k (m_size m) = Some j" by (auto simp: hashcode_index_def)
  then have jm: "j < m_size m" by (rule hashcode_index_less)
  have len: "length ls = m_size m" using hm_invD(2) [OF inv(1)] .
  have at: "key_at s' b = key_at s b \<and> val_at s' b = val_at s b" if "b \<in> addrs ls" "b \<noteq> a" for b
    using datum_at [of s' b s] d(1) addrs_datum [OF inv(1) that(1)] that(2) by simp
  let ?l = "ls[i := xs @ ys] ! j"
  have l: "b \<in> addrs ls \<and> b \<noteq> a" if "b \<in> set ?l" for b
  proof -
    have "b \<in> addrs (ls[i := xs @ ys])" using addrs_nth [of j "ls[i := xs @ ys]" b] jm len that by simp
    then show ?thesis using remove_bucket(3) [of i ls xs a ys] hashcode_index_less [OF i] len sp(1) hm_invD(3) [OF inv(1)] by simp
  qed
  have "find (\<lambda>b. key_at s' b = k) ?l = find (\<lambda>b. key_at s b = k) ?l" using at l by (intro find_cong_set) simp
  also have "\<dots> = find (\<lambda>b. key_at s b = k) (ls ! j)"
    using find_remove [of "\<lambda>b. key_at s b = k" a xs ys] sp assms(8) jm len by (cases "j = i") auto
  finally have f: "find (\<lambda>b. key_at s' b = k) ?l = find (\<lambda>b. key_at s b = k) (ls ! j)" .
  moreover have "val_at s' b = val_at s b" if "find (\<lambda>b. key_at s' b = k) ?l = Some b" for b
    using at [of b] l [of b] that by (auto simp: find_Some_iff)
  ultimately show ?thesis
    using hashmap_find_list [OF inv(1) j] hashmap_find_list [OF inv(2), of k j] j d(2) by (auto split: option.splits)
qed

section \<open>Properties\<close>

fun insert_all :: "(byte list \<times> nat option) list \<Rightarrow> store \<times> hashmap \<Rightarrow> (store \<times> hashmap) option" where
  "insert_all [] sm = Some sm"
| "insert_all ((k, v) # kvs) sm = Option.bind (hashmap_insert (\<lambda>_. True) k v sm) (\<lambda>(_, sm'). insert_all kvs sm')"

definition empty_store :: store where
  "empty_store = \<lparr>mem = Map.empty, top = 0, freed = []\<rparr>"

definition hm_rep :: "store \<times> hashmap \<Rightarrow> (byte list \<rightharpoonup> nat option) \<Rightarrow> nat \<Rightarrow> bool" where
  "hm_rep sm M n \<longleftrightarrow> (\<exists>ls. hm_ok sm ls \<and> inj_on (key_at (fst sm)) (addrs ls) \<and> length (concat ls) = n \<and>
     (\<forall>k v. M k = Some v \<longleftrightarrow> (\<exists>a \<in> addrs ls. key_at (fst sm) a = k \<and> val_at (fst sm) a = v)))"

lemma hm_rep_insert:
  assumes "hm_rep (s, m) M n" "M k = None" "n + 1 < 2 ^ 16"
  shows "\<exists>r s' m'. hashmap_insert (\<lambda>_. True) k v (s, m) = Some (r, s', m') \<and> hm_rep (s', m') (M(k \<mapsto> v)) (n + 1) \<and> 0 < m_size m'"
proof -
  obtain ls where ls: "hm_ok (s, m) ls" "inj_on (key_at s) (addrs ls)" "length (concat ls) = n"
    "\<forall>k v. M k = Some v \<longleftrightarrow> (\<exists>a \<in> addrs ls. key_at s a = k \<and> val_at s a = v)"
    using assms(1) by (auto simp: hm_rep_def)
  obtain a s' m' ls' where i: "hashmap_insert (\<lambda>_. True) k v (s, m) = Some (Some a, s', m')" "hm_ok (s', m') ls'"
    "addrs ls' = insert a (addrs ls)" "a \<notin> addrs ls" "key_at s' a = k" "val_at s' a = v" "0 < m_size m'"
    "\<forall>b \<in> addrs ls. key_at s' b = key_at s b \<and> val_at s' b = val_at s b"
    using hashmap_insert_spec [OF ls(1), of k v] assms(3) ls(3) by auto
  have new: "key_at s b \<noteq> k" if "b \<in> addrs ls" for b using ls(4) assms(2) that by (metis option.distinct(1))
  have "inj_on (key_at s') (addrs ls')"
  proof -
    have "inj_on (key_at s') (addrs ls)" using ls(2) i(8) by (simp add: inj_on_def)
    moreover have "key_at s' a \<notin> key_at s' ` addrs ls" using i(5,8) new by (metis imageE)
    ultimately show ?thesis using i(3,4) by simp
  qed
  moreover have "length (concat ls') = n + 1"
  proof -
    have "finite (addrs ls)" by (simp add: addrs_def)
    then show ?thesis using length_concat_addrs [of s m ls] length_concat_addrs [of s' m' ls'] ls(1,3) i(2-4)
      by (simp add: hm_ok_def)
  qed
  moreover have "(M(k \<mapsto> v)) q = Some w \<longleftrightarrow> (\<exists>a \<in> addrs ls'. key_at s' a = q \<and> val_at s' a = w)" for q w
    using ls(4) i(3,5,6,8) new by (cases "q = k") auto
  ultimately have "hm_rep (s', m') (M(k \<mapsto> v)) (n + 1)" using i(2) by (auto simp: hm_rep_def)
  then show ?thesis using i(1,7) by blast
qed

lemma hm_rep_find:
  assumes "hm_rep (s, m) M n" "0 < m_size m"
  shows "hashmap_find k (s, m) = Some (case M k of None \<Rightarrow> None | Some v \<Rightarrow> v)"
proof -
  obtain ls where ls: "hm_inv (s, m) ls" "inj_on (key_at s) (addrs ls)"
    "\<forall>k v. M k = Some v \<longleftrightarrow> (\<exists>a \<in> addrs ls. key_at s a = k \<and> val_at s a = v)"
    using assms(1) by (auto simp: hm_rep_def hm_ok_def)
  note f = hashmap_find_spec [OF ls(1) assms(2) ls(2), of k]
  show ?thesis
  proof (cases "M k")
    case None
    then have "k \<notin> key_at s ` addrs ls" using ls(3) by (metis imageE option.distinct(1))
    then show ?thesis using f None by simp
  next
    case (Some v)
    then obtain a where "a \<in> addrs ls" "key_at s a = k" "val_at s a = v" using ls(3) by blast
    then show ?thesis using f Some by auto
  qed
qed

lemma insert_all_rep:
  assumes "hm_rep sm M n" "distinct (map fst kvs)" "\<forall>k \<in> fst ` set kvs. M k = None" "n + length kvs < 2 ^ 16"
  shows "\<exists>sm'. insert_all kvs sm = Some sm' \<and> hm_rep sm' (M ++ map_of kvs) (n + length kvs) \<and> (kvs \<noteq> [] \<longrightarrow> 0 < m_size (snd sm'))"
  using assms
proof (induction kvs arbitrary: sm M n)
  case (Cons kv kvs)
  obtain k v s m where kv: "kv = (k, v)" "sm = (s, m)" by (cases kv; cases sm)
  obtain r s' m' where i: "hashmap_insert (\<lambda>_. True) k v (s, m) = Some (r, s', m')" "hm_rep (s', m') (M(k \<mapsto> v)) (n + 1)" "0 < m_size m'"
    using hm_rep_insert [of s m M n k v] Cons.prems kv by auto
  have "distinct (map fst kvs)" "\<forall>q \<in> fst ` set kvs. (M(k \<mapsto> v)) q = None" "n + 1 + length kvs < 2 ^ 16"
    using Cons.prems(2-4) kv by auto
  then obtain sm' where sm': "insert_all kvs (s', m') = Some sm'" "hm_rep sm' (M(k \<mapsto> v) ++ map_of kvs) (n + 1 + length kvs)"
    "kvs \<noteq> [] \<longrightarrow> 0 < m_size (snd sm')"
    using Cons.IH [OF i(2)] by blast
  have "M(k \<mapsto> v) ++ map_of kvs = M ++ map_of (kv # kvs)"
    using Cons.prems(2) kv map_add_upd_left [of k "map_of kvs" M v] by (simp add: dom_map_of_conv_image_fst)
  moreover have "insert_all (kv # kvs) sm = Some sm'" using i(1) sm'(1) kv by simp
  moreover have "0 < m_size (snd sm')" using sm'(1,3) i(3) by (cases kvs) auto
  ultimately show ?case using sm'(2) by (simp del: map_of.simps)
qed auto

text \<open>C12: any list of fewer than 65536 bindings with distinct keys, inserted into a new table of any
  accepted size, growing as often as needed, is found again: \<open>hashmap_find\<close> answers the value of
  every inserted key and null for every other, with no undefined access and no endless chain.\<close>

theorem hashmap_inserts_found:
  assumes "hashmap_create True sz = Some m" "m_idx m + 1 < length primes"
    and "distinct (map fst kvs)" "kvs \<noteq> []" "length kvs < 2 ^ 16"
  shows "\<exists>sm. insert_all kvs (empty_store, m) = Some sm \<and>
    (\<forall>key. hashmap_find key sm = Some (case map_of kvs key of None \<Rightarrow> None | Some v \<Rightarrow> v))"
proof -
  have m: "m_size m = 0" "m_used m = 0" "m_data m = []" using assms(1) by (auto simp: hashmap_create_def Let_def split: if_splits)
  have "hm_ok (empty_store, m) []" using assms(2) m by (simp add: hm_ok_def hm_inv_def)
  then have "hm_rep (empty_store, m) Map.empty 0" by (auto simp: hm_rep_def addrs_def intro!: exI [of _ "[]"])
  then obtain sm where sm: "insert_all kvs (empty_store, m) = Some sm" "hm_rep sm (map_of kvs) (length kvs)" "0 < m_size (snd sm)"
    using insert_all_rep [of "(empty_store, m)" Map.empty 0 kvs] assms(3-5) by auto
  then show ?thesis using hm_rep_find [of "fst sm" "snd sm"] by auto
qed

theorem hashmap_inserts_found_witness:
  "\<exists>m sm. hashmap_create True 5 = Some m \<and> insert_all [([1], Some 10), ([8, 0], Some 20)] (empty_store, m) = Some sm \<and>
     hashmap_find [1] sm = Some (Some 10) \<and> hashmap_find [2] sm = Some None"
proof -
  have m: "hashmap_create True 5 = Some \<lparr>m_size = 0, m_used = 0, m_idx = 1, m_data = []\<rparr>"
    by (simp add: hashmap_create_def primes_def)
  show ?thesis
    using hashmap_inserts_found [OF m, of "[([1], Some 10), ([8, 0], Some 20)]"] m by (auto simp: primes_def)
qed

text \<open>C13: on a table whose back pointers are right \<open>hashmap_delete\<close> returns 1 and changes nothing when
  the key is absent; otherwise it returns 0, frees exactly the entry \<open>hashmap_locate\<close> finds (the
  newest under that key) and its value, keeps the invariant, and no other key is affected.\<close>

theorem hashmap_delete_correct:
  assumes "hm_dll (s, m) ls" "0 < m_size m"
  shows "case hashmap_locate key (s, m) of None \<Rightarrow> False
    | Some None \<Rightarrow> hashmap_delete key (s, m) = Some (1, s, m)
    | Some (Some a) \<Rightarrow> \<exists>s' m' ls'. hashmap_delete key (s, m) = Some (0, s', m') \<and> hm_dll (s', m') ls' \<and>
        addrs ls' = addrs ls - {a} \<and> mem s' a = None \<and>
        freed s' = freed s @ (case val_at s a of None \<Rightarrow> [] | Some v \<Rightarrow> [v]) \<and>
        (\<forall>k. k \<noteq> key \<longrightarrow> hashmap_find k (s', m') = hashmap_find k (s, m))"
proof -
  have inv: "hm_inv (s, m) ls" using assms(1) by (simp add: hm_dll_def)
  obtain i where i: "hashcode_index key (m_size m) = Some i" using assms(2) by (auto simp: hashcode_index_def)
  have im: "i < length ls" using hashcode_index_less [OF i] hm_invD(2) [OF inv] by simp
  note loc = hashmap_locate_spec [OF inv i]
  show ?thesis
  proof (cases "find (\<lambda>a. key_at s a = key) (ls ! i)")
    case None
    then show ?thesis using loc i by (simp add: hashmap_delete_def)
  next
    case (Some a)
    then obtain xs ys where sp': "ls ! i = xs @ a # ys" "key_at s a = key" "\<forall>x \<in> set xs. key_at s x \<noteq> key"
      by (rule find_split)
    note sp = sp'(1,2)
    have "key \<notin> key_at s ` set xs" using sp'(3) by auto
    obtain s' m' where d: "hashmap_delete key (s, m) = Some (0, s', m')" "hm_dll (s', m') (ls[i := xs @ ys])"
      "\<forall>b. b \<noteq> a \<longrightarrow> datum s' b = datum s b" "mem s' a = None" "m_size m' = m_size m"
      "freed s' = freed s @ (case val_at s a of None \<Rightarrow> [] | Some v \<Rightarrow> [v])"
      using hashmap_delete_spec [OF assms(1) i sp \<open>key \<notin> _\<close>] by blast
    have "addrs (ls[i := xs @ ys]) = addrs ls - {a}" using remove_bucket(3) [OF im sp(1)] hm_invD(3) [OF inv] .
    moreover have "hashmap_find k (s', m') = hashmap_find k (s, m)" if "k \<noteq> key" for k
      using find_after_delete [OF inv _ i sp d(3,5) that] d(2) by (simp add: hm_dll_def)
    ultimately show ?thesis using loc Some d by auto
  qed
qed

definition hm_pair :: "store \<times> hashmap" where
  "hm_pair = (\<lparr>mem = [0 \<mapsto> \<lparr>e_key = [1], e_hash_code = 1, e_value = Some 10, e_next = Some 1, e_prev = None\<rparr>,
                     1 \<mapsto> \<lparr>e_key = [2], e_hash_code = 2, e_value = Some 20, e_next = None, e_prev = Some 0\<rparr>],
              top = 2, freed = []\<rparr>,
             \<lparr>m_size = 1, m_used = 2, m_idx = 0, m_data = [Some 0]\<rparr>)"

lemma hm_pair_dll: "hm_dll hm_pair [[0, 1]]"
  by (simp add: hm_pair_def hm_dll_def hm_inv_def chain_Cons nxt_def prv_def entry_ok_def datum_def
      hashcode_create_def hashcode_index_def schar_def)

theorem hashmap_delete_correct_witness:
  "\<exists>s' m' ls'. hashmap_delete [2] hm_pair = Some (0, s', m') \<and> hm_dll (s', m') ls' \<and> freed s' = [20] \<and>
     hashmap_find [1] (s', m') = Some (Some 10)"
proof -
  obtain s m where sm: "hm_pair = (s, m)" by (rule prod.exhaust)
  have m: "m_size m = 1" "val_at s 1 = Some 20" "freed s = []" "key_at s 0 = [1]" "key_at s 1 = [2]" "val_at s 0 = Some 10"
    using sm by (auto simp: hm_pair_def val_at_def key_at_def)
  have inv: "hm_inv (s, m) [[0, 1]]" using hm_pair_dll sm by (simp add: hm_dll_def)
  have i: "hashcode_index k (m_size m) = Some 0" for k by (simp add: m hashcode_index_def)
  have "hashmap_locate [2] (s, m) = Some (Some 1)" using hashmap_locate_spec [OF inv i] m by simp
  moreover have "hashmap_find [1] (s, m) = Some (Some 10)" using hashmap_find_list [OF inv i] m by simp
  ultimately show ?thesis using hashmap_delete_correct [of s m "[[0, 1]]" "[2]"] hm_pair_dll m sm by auto
qed

text \<open>C14: \<open>hashmap_grow\<close> relinks the entries without resetting \<open>prev\<close>. Whenever a full table holds an
  entry \<open>b\<close> that follows another in its bucket and gets a bucket of its own by the growth an insertion
  causes, \<open>b\<close> is still found, but deleting it leaves its bucket pointing to the freed entry, so that
  looking its key up is undefined behaviour.\<close>

theorem hashmap_delete_after_grow:
  assumes "hm_dll (s, m) ls" "m_size m \<le> unat (m_used m)" "m_idx m + 1 < length primes"
    and "i < m_size m" "ls ! i = xs @ a # b # ys"
    and "\<forall>c \<in> addrs ls. c \<noteq> b \<longrightarrow>
      hashcode_index (key_at s c) (primes ! (m_idx m + 1)) \<noteq> hashcode_index (key_at s b) (primes ! (m_idx m + 1))"
    and "hashcode_index key (primes ! (m_idx m + 1)) \<noteq> hashcode_index (key_at s b) (primes ! (m_idx m + 1))"
  shows "\<exists>r sm1 sm2. hashmap_insert (\<lambda>_. True) key v (s, m) = Some (r, sm1) \<and>
    hashmap_find (key_at s b) sm1 = Some (val_at s b) \<and>
    hashmap_delete (key_at s b) sm1 = Some (0, sm2) \<and> hashmap_find (key_at s b) sm2 = None"
proof -
  let ?p = "primes ! (m_idx m + 1)"
  have inv: "hm_inv (s, m) ls" and "dll s None (ls ! i)" using assms(1,4) by (simp_all add: hm_dll_def)
  then have prv: "prv s b = Some (Some a)" using dll_prv [of s None "xs @ [a]" b ys] assms(5) by simp
  have ab: "a \<in> addrs ls" "b \<in> addrs ls" "a \<noteq> b"
    using addrs_nth [of i ls] hm_invD(2,3) [OF inv] concat_upd(1) [of i ls] assms(4,5) by auto
  obtain s1 m1 ls1 where g: "hashmap_grow True (s, m) = Some (0, s1, m1)" "hm_inv (s1, m1) ls1" "addrs ls1 = addrs ls"
    "relinked (addrs ls) s s1" "m_size m1 = ?p" "m_idx m1 = m_idx m + 1"
    using hashmap_grow_spec [OF inv assms(3)] by blast
  have prv1: "prv s1 b = Some (Some a)"
    using hashmap_grow_prv [OF inv assms(3) g(1) ab(2)] assms(6) prv by (simp add: idx_at_def)
  obtain c0 s2 where al: "alloc_entry key v s1 = (c0, s2)" by (rule prod.exhaust)
  note A = alloc_entry_spec [OF g(2) al]
  have p: "0 < ?p" using primes_pos [OF assms(3)] .
  obtain j0 where j0: "j0 < ?p" "entry_ok s2 ?p j0 c0" using movable_ok [OF A(3) p] by blast
  obtain s3 m3 where l: "hashmap_link c0 (s2, m1) = Some (s3, m3)" "hm_inv (s3, m3) (ls1[j0 := c0 # ls1 ! j0])"
    "relinked {c0} s2 s3" "m_size m3 = ?p"
    using hashmap_link_spec [OF A(1,2)] j0 g(5) by metis
  have same: "key_at s3 c = key_at s c \<and> val_at s3 c = val_at s c \<and> datum s3 c \<noteq> None" if "c \<in> addrs ls" for c
    using relinked_at [OF g(4), of c] A(7) [of c] relinked_at [OF l(3), of c] addrs_datum [OF inv that] addrs_datum [OF A(1), of c]
      that g(3) l(3) by (simp add: relinked_def)
  have idx2: "idx_at s2 ?p c = hashcode_index (key_at s c) ?p" if "c \<in> addrs ls" for c
    using relinked_at [OF g(4), of c] A(7) [of c] addrs_datum [OF inv that] that g(3) by (simp add: idx_at_def)
  have idx0: "idx_at s2 ?p c0 = hashcode_index key ?p" using A(4) by (simp add: idx_at_def)
  obtain j where j: "j < ?p" and lj: "ls1 ! j = [b]" and ij: "idx_at s2 ?p b = Some j"
    using lone_bucket [OF A(1), of b] ab(2) g(3,5) idx2 assms(6) by auto
  have "j \<noteq> j0" using ij entry_ok_idx [OF j0(2)] idx0 idx2 [OF ab(2)] assms(7) by auto
  then have lj3: "ls1[j0 := c0 # ls1 ! j0] ! j = [b]" using lj by simp
  have "b \<noteq> c0" "a \<noteq> c0" using A(2) ab g(3) by auto
  then have "prv s3 b = Some (Some a)"
    using link_prv [OF A(1,2), of j0 s3 m3 b] j0 g(5) l(1) idx0 idx2 [OF ab(2)] assms(7) A(10) [of b] prv1 by simp
  moreover have ins: "hashmap_insert (\<lambda>_. True) key v (s, m) = Some (Some c0, s3, m3)"
    using assms(2) g(1) al l(1) by (simp add: hashmap_insert_def)
  moreover have "hashcode_index (key_at s b) (m_size m3) = Some j" using ij idx2 [OF ab(2)] l(4) by simp
  then have "hashmap_find (key_at s b) (s3, m3) = Some (val_at s b)"
    using hashmap_find_list [OF l(2)] lj3 same [OF ab(2)] by simp
  moreover have "mem s3 a \<noteq> None" using same [OF ab(1)] mem_datum by blast
  ultimately show ?thesis using delete_stale [OF l(2), of j b a] j l(4) lj3 ab(3) same [OF ab(2)] by metis
qed

theorem hashmap_delete_after_grow_witness:
  "\<exists>r sm1 sm2. hashmap_insert (\<lambda>_. True) [3] None hm_pair = Some (r, sm1) \<and> hashmap_find [2] sm1 = Some (Some 20) \<and>
     hashmap_delete [2] sm1 = Some (0, sm2) \<and> hashmap_find [2] sm2 = None"
proof -
  obtain s m where sm: "hm_pair = (s, m)" by (rule prod.exhaust)
  have m: "m_size m = 1" "m_used m = 2" "m_idx m = 0" "val_at s 1 = Some 20" "key_at s 0 = [1]" "key_at s 1 = [2]"
    using sm by (auto simp: hm_pair_def val_at_def key_at_def)
  have p: "primes ! Suc 0 = 7" "Suc 0 < length primes" by (simp_all add: primes_def)
  have h: "hashcode_index [1] 7 = Some 1" "hashcode_index [2] 7 = Some 2" "hashcode_index [3] 7 = Some 3"
    by (simp_all add: hashcode_index_def schar_def)
  show ?thesis
    using hashmap_delete_after_grow [of s m "[[0, 1]]" 0 "[]" 0 1 "[]" "[3]" None] hm_pair_dll m sm p h
    by (simp add: addrs_def)
qed

lemma length_primes: "length primes = 72"
  by (simp add: primes_def)

text \<open>A table has no buckets before its first insertion: looking a key up in it divides by zero,
  and a table created with the largest accepted sizes fails at its first insertion, which reads
  past the end of the prime table.\<close>

theorem hashmap_empty_undefined:
  assumes "hashmap_create True sz = Some m"
  shows "hashmap_find key (s, m) = None \<and> hashmap_delete key (s, m) = None \<and>
    (5999471 \<le> unat (word_of_int sz :: u32) \<longrightarrow> hashmap_insert ok key v (s, m) = None)"
proof -
  let ?n = "unat (word_of_int sz :: u32)"
  have m: "m = \<lparr>m_size = 0, m_used = 0, m_idx = length (takeWhile (\<lambda>p. p \<le> ?n) primes), m_data = []\<rparr>"
    and idx: "length (takeWhile (\<lambda>p. p \<le> ?n) primes) < 72"
    using assms length_primes by (auto simp: hashmap_create_def Let_def split: if_splits)
  have "71 \<le> length (takeWhile (\<lambda>p. p \<le> ?n) primes)" if "5999471 \<le> ?n"
  proof -
    have "\<forall>p \<in> set (take 71 primes). p \<le> ?n" using that by (simp add: primes_def)
    then have "takeWhile (\<lambda>p. p \<le> ?n) (take 71 primes @ drop 71 primes) = take 71 primes @ takeWhile (\<lambda>p. p \<le> ?n) (drop 71 primes)"
      by (intro takeWhile_append2) auto
    then show ?thesis by (simp add: primes_def)
  qed
  then have "hashmap_insert ok key v (s, m) = None" if "5999471 \<le> ?n"
    using that m by (simp add: hashmap_insert_def hashmap_grow_def rd_def length_primes)
  then show ?thesis using m by (simp add: hashmap_find_def hashmap_locate_def hashmap_delete_def hashcode_index_def)
qed

theorem hashmap_empty_undefined_witness:
  "\<exists>m. hashmap_create True 0 = Some m \<and> hashmap_find [1] (empty_store, m) = None"
proof -
  have "hashmap_create True 0 = Some \<lparr>m_size = 0, m_used = 0, m_idx = 0, m_data = []\<rparr>"
    by (simp add: hashmap_create_def primes_def)
  then show ?thesis using hashmap_empty_undefined [of 0 _ "[1]" empty_store] by blast
qed

end
