(* ===== verification/Mfile.thy ===== *)
theory Mfile
  imports Prelude
begin

text \<open>
  Model of \<^verbatim>\<open>c/libgs/libmfile/mfile.c\<close>: a file in memory, a tail queue of data blocks of equal
  capacity with a write and a read position. The queue is the list \<open>head\<close> of its blocks and a
  block pointer is the block's position in it, so inserting at the head moves the pointers along
  with their blocks. Counters are unbounded (the \<open>int\<close>s of the code do not wrap below 2 GiB); the
  outcome of the \<open>k\<close>-th allocation of a call is \<open>ok k\<close>; the bytes of a fresh buffer are whatever
  \<open>fill\<close> says. Accesses outside a buffer and through null pointers are undefined behaviour, the
  result \<open>None\<close>. What \<open>mread\<close> copies to the caller is returned as a list.
\<close>

section \<open>State\<close>

record data_block =
  data_len :: nat
  bdata :: "byte list"
  wcount :: nat
  rcount :: nat

record mfile =
  total_size :: int
  new_header_size :: int
  head :: "data_block list"
  block_num :: nat
  write_p :: "nat option"
  read_p :: "nat option"
  is_full :: bool
  is_empty :: bool
  DATA_BLOCK_SIZE :: int
  ccache :: byte
  user_alloc :: bool
  fill :: "nat \<Rightarrow> byte"

definition DEFAULT_DATA_BLOCK_SIZE :: int where "DEFAULT_DATA_BLOCK_SIZE = 8888"

abbreviation CR :: byte where "CR \<equiv> 13"
abbreviation LF :: byte where "LF \<equiv> 10"

text \<open>The queue operations of \<^verbatim>\<open>queue.h\<close> the code uses.\<close>

definition TAILQ_FIRST :: "mfile \<Rightarrow> nat option" where
  "TAILQ_FIRST h = (if head h = [] then None else Some 0)"

definition TAILQ_NEXT :: "nat \<Rightarrow> mfile \<Rightarrow> nat option" where
  "TAILQ_NEXT p h = (if Suc p < length (head h) then Some (Suc p) else None)"

definition TAILQ_INSERT_TAIL :: "data_block \<Rightarrow> mfile \<Rightarrow> mfile" where
  "TAILQ_INSERT_TAIL b h = h\<lparr>head := head h @ [b]\<rparr>"

definition TAILQ_INSERT_HEAD :: "data_block \<Rightarrow> mfile \<Rightarrow> mfile" where
  "TAILQ_INSERT_HEAD b h =
    h\<lparr>head := b # head h, write_p := map_option Suc (write_p h), read_p := map_option Suc (read_p h)\<rparr>"

definition upd_block :: "nat \<Rightarrow> data_block \<Rightarrow> mfile \<Rightarrow> mfile" where
  "upd_block p b h = h\<lparr>head := (head h)[p := b]\<rparr>"

section \<open>Opening, closing, seeking\<close>

text \<open>\<open>af\<close> and \<open>fe\<close> say whether an allocator and a freer are given; the outer \<open>None\<close> is the \<open>memset\<close>
  of a null handler.\<close>

definition mopen :: "(nat \<Rightarrow> byte) \<Rightarrow> bool \<Rightarrow> bool \<Rightarrow> bool \<Rightarrow> int \<Rightarrow> mfile option option" where
  "mopen fl ok af fe data_block_size =
    (if af = fe then
       (if ok then
          Some (Some \<lparr>total_size = 0, new_header_size = 0, head = [], block_num = 0, write_p = None, read_p = None,
            is_full = True, is_empty = False,
            DATA_BLOCK_SIZE = (if data_block_size = 0 then DEFAULT_DATA_BLOCK_SIZE else data_block_size),
            ccache = LF, user_alloc = af, fill = fl\<rparr>)
        else None)
     else Some None)"

text \<open>The calls \<open>mclose\<close> makes, in order: which freer gets which object.\<close>

datatype freer = User_freer | Libc_free
datatype freed_obj = Block_data nat | Block nat | Handler

definition mclose :: "mfile option \<Rightarrow> (freer \<times> freed_obj) list" where
  "mclose handler = (case handler of
      None \<Rightarrow> []
    | Some h \<Rightarrow>
        let f = (if user_alloc h then User_freer else Libc_free)
        in concat (map (\<lambda>i. [(f, Block_data i), (f, Block i)]) [0..<length (head h)]) @ [(Libc_free, Handler)])"

definition mseek :: "mfile \<Rightarrow> mfile" where
  "mseek h = h\<lparr>is_empty := False, read_p := None, head := map (\<lambda>b. b\<lparr>rcount := 0\<rparr>) (head h)\<rparr>"

fun seek_loop :: "nat \<Rightarrow> nat \<Rightarrow> data_block list \<Rightarrow> (nat \<times> nat) option" where
  "seek_loop pos i [] = None"
| "seek_loop pos i (b # bs) = (if pos \<le> wcount b then Some (i, pos) else seek_loop (pos - wcount b) (Suc i) bs)"

definition mseek_pos :: "int \<Rightarrow> mfile \<Rightarrow> mfile" where
  "mseek_pos pos h0 =
    (let h = mseek h0
     in case seek_loop (nat pos) 0 (head h) of
          None \<Rightarrow> h
        | Some (i, r) \<Rightarrow> (upd_block i ((head h ! i)\<lparr>rcount := r\<rparr>) h)\<lparr>read_p := Some i\<rparr>)"

section \<open>Writing\<close>

text \<open>Two allocations per block, the second of \<open>DATA_BLOCK_SIZE\<close> bytes: a negative size, converted to
  \<open>size_t\<close>, never succeeds.\<close>

definition new_block :: "(nat \<Rightarrow> bool) \<Rightarrow> nat \<Rightarrow> mfile \<Rightarrow> data_block option" where
  "new_block ok k h =
    (if ok k \<and> ok (k + 1) \<and> 0 \<le> DATA_BLOCK_SIZE h
     then Some \<lparr>data_len = 0, bdata = map (fill h) [0..<nat (DATA_BLOCK_SIZE h)], wcount = 0, rcount = 0\<rparr>
     else None)"

definition add_tail :: "data_block \<Rightarrow> mfile \<Rightarrow> mfile" where
  "add_tail b h =
    TAILQ_INSERT_TAIL b (h\<lparr>block_num := block_num h + 1, write_p := Some (length (head h))\<rparr>)"

definition fill_block :: "data_block \<Rightarrow> byte list \<Rightarrow> data_block option" where
  "fill_block b bs =
    map_option (\<lambda>d. b\<lparr>bdata := d, wcount := wcount b + length bs, data_len := wcount b + length bs\<rparr>)
      (memcpy (bdata b) (wcount b) bs)"

definition write_block :: "byte list \<Rightarrow> nat \<Rightarrow> nat \<Rightarrow> mfile \<Rightarrow> (nat \<times> mfile) option" where
  "write_block data len writed h = do {
     p \<leftarrow> write_p h;
     b \<leftarrow> rd (head h) p;
     let free_count = DATA_BLOCK_SIZE h - int (wcount b);
     if int (len - writed) \<le> free_count then do {
       bs \<leftarrow> rd_block data writed (len - writed);
       b' \<leftarrow> fill_block b bs;
       Some (len, (upd_block p b' h)\<lparr>is_full := int (wcount b') = DATA_BLOCK_SIZE h\<rparr>) }
     else if free_count < 0 then None
     else do {
       bs \<leftarrow> rd_block data writed (nat free_count);
       b' \<leftarrow> fill_block b bs;
       Some (writed + nat free_count, (upd_block p b' h)\<lparr>is_full := True\<rparr>) } }"

partial_function (option) mwrite_loop ::
  "(nat \<Rightarrow> bool) \<Rightarrow> byte list \<Rightarrow> nat \<Rightarrow> nat \<Rightarrow> nat \<Rightarrow> mfile \<Rightarrow> (int \<times> mfile) option" where
  "mwrite_loop ok data len writed k h =
    (if writed < len then
       if is_full h then
         (case new_block ok k h of
            None \<Rightarrow> Some (-1, h)
          | Some b \<Rightarrow> do {
              (w, h') \<leftarrow> write_block data len writed (add_tail b h);
              mwrite_loop ok data len w (k + 2) h' })
       else do {
         (w, h') \<leftarrow> write_block data len writed h;
         mwrite_loop ok data len w k h' }
     else Some (1, h))"

declare mwrite_loop.simps [code]

definition mwrite :: "(nat \<Rightarrow> bool) \<Rightarrow> byte list \<Rightarrow> int \<Rightarrow> mfile option \<Rightarrow> (int \<times> mfile option) option" where
  "mwrite ok data len handler = (case handler of
      None \<Rightarrow> Some (-1, None)
    | Some h \<Rightarrow> map_option (map_prod id Some) (mwrite_loop ok data (nat len) 0 0 (h\<lparr>total_size := total_size h + len\<rparr>)))"

definition mwrite_head :: "(nat \<Rightarrow> bool) \<Rightarrow> byte list \<Rightarrow> int \<Rightarrow> mfile option \<Rightarrow> (int \<times> mfile option) option" where
  "mwrite_head ok data len handler = (case handler of
      None \<Rightarrow> Some (-1, None)
    | Some h \<Rightarrow>
        if DATA_BLOCK_SIZE h < len then Some (-1, Some h)
        else
          let h1 = h\<lparr>total_size := total_size h + len\<rparr>
          in case new_block ok 0 h1 of
               None \<Rightarrow> Some (-1, Some h1)
             | Some b \<Rightarrow>
                 if len < 0 then None
                 else do {
                   bs \<leftarrow> rd_block data 0 (nat len);
                   b' \<leftarrow> fill_block b bs;
                   Some (1, Some (TAILQ_INSERT_HEAD b'
                     (h1\<lparr>new_header_size := new_header_size h1 + len, block_num := block_num h1 + 1\<rparr>))) })"

section \<open>Reading\<close>

text \<open>One round of the loop of \<open>mread\<close>: \<open>None\<close> when it breaks without reading.\<close>

definition next_block :: "nat \<Rightarrow> mfile \<Rightarrow> nat option" where
  "next_block p h = (if is_empty h then TAILQ_NEXT p h else Some p)"

function mread_loop :: "nat \<Rightarrow> byte list \<Rightarrow> nat \<Rightarrow> mfile \<Rightarrow> (byte list \<times> mfile) option" where
  "mread_loop len out p h =
    (if length out < len then
       (case next_block p h of
          None \<Rightarrow> Some (out, h)
        | Some q \<Rightarrow> (case rd (head h) q of
            None \<Rightarrow> None
          | Some b \<Rightarrow>
              let h1 = h\<lparr>read_p := Some q\<rparr>; could_read = int (wcount b) - int (rcount b)
              in if could_read \<le> 0 then Some (out, h1)
                 else
                   let n = min (len - length out) (nat could_read)
                   in (case rd_block (bdata b) (rcount b) n of
                         None \<Rightarrow> None
                       | Some bs \<Rightarrow>
                           let b' = b\<lparr>rcount := rcount b + n\<rparr>;
                               h2 = (upd_block q b' h1)\<lparr>is_empty := rcount b + n = wcount b\<rparr>
                           in if int (len - length out) \<le> could_read then Some (out @ bs, h2)
                              else mread_loop len (out @ bs) q h2)))
     else Some (out, h))"
  by pat_completeness auto
termination
  by (relation "measure (\<lambda>(len, out, p, h). len - length out)")
    (auto simp: rd_block_def split: if_splits)

definition mread :: "int \<Rightarrow> mfile option \<Rightarrow> (int \<times> byte list \<times> mfile option) option" where
  "mread len handler = (case handler of
      None \<Rightarrow> Some (-1, [], None)
    | Some h \<Rightarrow>
        (case (case read_p h of None \<Rightarrow> TAILQ_FIRST h | Some p \<Rightarrow> Some p) of
           None \<Rightarrow> Some (-1, [], Some h)
         | Some p \<Rightarrow>
             map_option (\<lambda>(bs, h'). (int (length bs), bs, Some h'))
               (mread_loop (nat len) [] p (h\<lparr>read_p := Some p\<rparr>))))"

definition mgetc :: "mfile \<Rightarrow> (byte \<times> mfile) option" where
  "mgetc h0 =
    (case (case read_p h0 of None \<Rightarrow> TAILQ_FIRST h0 | Some p \<Rightarrow> Some p) of
       None \<Rightarrow> Some (0, h0)
     | Some p \<Rightarrow>
         let h = h0\<lparr>read_p := Some p\<rparr>
         in (case next_block p h of
               None \<Rightarrow> Some (0, h)
             | Some q \<Rightarrow> do {
                 b \<leftarrow> rd (head h) q;
                 c \<leftarrow> rd (bdata b) (rcount b);
                 let b' = b\<lparr>rcount := rcount b + 1\<rparr>;
                 Some (c, (upd_block q b' (h\<lparr>read_p := Some q\<rparr>))\<lparr>is_empty := rcount b' = wcount b'\<rparr>) }))"

definition line_char :: "mfile \<Rightarrow> (byte \<times> mfile) option" where
  "line_char h = (if ccache h = LF then mgetc h else Some (ccache h, h\<lparr>ccache := CR\<rparr>))"

function line_loop :: "int \<Rightarrow> nat \<Rightarrow> byte list \<Rightarrow> mfile \<Rightarrow> (int \<times> byte list \<times> mfile) option" where
  "line_loop n d buf h = do {
     (c, h1) \<leftarrow> line_char h;
     buf1 \<leftarrow> wr buf d c;
     if c = CR then do {
       (e, h2) \<leftarrow> mgetc h1;
       let h3 = h2\<lparr>ccache := e\<rparr>;
       if e = 0 then do {
         buf2 \<leftarrow> wr buf1 (d + 1) LF;
         buf3 \<leftarrow> wr buf2 (d + 2) 0;
         Some (int (d + 2), buf3, h3) }
       else if e \<noteq> LF then Some (int (d + 1), buf1, h3)
       else do { buf2 \<leftarrow> wr buf1 (d + 1) e; Some (int (d + 2), buf2, h3) } }
     else if c = LF then Some (int (d + 1), buf1, h1)
     else if c = 0 then Some (int d, buf1, h1)
     else if 0 < n - 1 then line_loop (n - 1) (d + 1) buf1 h1
     else Some (0, buf1, h1) }"
  by pat_completeness auto
termination by (relation "measure (\<lambda>(n, d, buf, h). nat n)") auto

definition mread_line :: "byte list \<Rightarrow> int \<Rightarrow> mfile option \<Rightarrow> (int \<times> byte list \<times> mfile option) option" where
  "mread_line buf n handler = (case handler of
      None \<Rightarrow> Some (0, buf, None)
    | Some h \<Rightarrow>
        if n \<le> 0 then None
        else do {
          buf1 \<leftarrow> wr buf (nat (n - 1)) 0;
          if n - 2 = 0 then Some (0, buf1, Some h)
          else do { (r, buf2, h') \<leftarrow> line_loop (n - 2) 0 buf1 h; Some (r, buf2, Some h') } })"

section \<open>The rest\<close>

definition MAX_BLOCK_NUMBER :: nat where "MAX_BLOCK_NUMBER = 1024"

text \<open>\<open>writev\<close> gets the data of the blocks and returns a count or -1.\<close>

definition mwrite_file :: "(byte list list \<Rightarrow> int) \<Rightarrow> mfile option \<Rightarrow> int" where
  "mwrite_file writev handler = (case handler of
      None \<Rightarrow> -1
    | Some h \<Rightarrow>
        if MAX_BLOCK_NUMBER \<le> length (head h) then -1
        else if sum_list (map data_len (head h)) = 0 then 0
        else
          let retval = writev (map (\<lambda>b. take (data_len b) (bdata b)) (head h))
          in if retval < 0 then -1 else retval)"

definition msize :: "mfile \<Rightarrow> int" where
  "msize h = total_size h"

definition mfile_new_header_size :: "mfile \<Rightarrow> int" where
  "mfile_new_header_size h = new_header_size h"

text \<open>\<open>dest\<close> and \<open>src\<close> are different files; the result of \<open>mwrite\<close> is not looked at.\<close>

function copy_loop :: "(nat \<Rightarrow> nat \<Rightarrow> bool) \<Rightarrow> nat \<Rightarrow> nat \<Rightarrow> mfile \<times> mfile \<Rightarrow> (bool \<times> mfile \<times> mfile) option" where
  "copy_loop ok i stop ds =
    (if i < stop then
       let j = min (stop - i) 1024
       in (case mread (int j) (Some (snd ds)) of
             Some (ret, bs, Some src) \<Rightarrow>
               if ret \<le> 0 then Some (False, fst ds, src)
               else (case mwrite (ok i) bs ret (Some (fst ds)) of
                   Some (r, Some dest) \<Rightarrow>
                     if ret < 1024 then Some (True, dest, src) else copy_loop ok (i + j) stop (dest, src)
                 | _ \<Rightarrow> None)
           | _ \<Rightarrow> None)
     else Some (True, ds))"
  by pat_completeness auto
termination by (relation "measure (\<lambda>(ok, i, stop, ds). stop - i)") auto

definition mfile_copy ::
  "(nat \<Rightarrow> nat \<Rightarrow> bool) \<Rightarrow> mfile \<Rightarrow> mfile \<Rightarrow> nat \<Rightarrow> nat \<Rightarrow> (int \<times> mfile \<times> mfile) option" where
  "mfile_copy ok dest src start stop =
    map_option (\<lambda>(done, ds). (if done then int stop - int start else -1, ds))
      (copy_loop ok start stop (dest, mseek_pos (int start) src))"

declare mread_loop.simps [simp del] line_loop.simps [simp del] copy_loop.simps [simp del]

section \<open>Invariants\<close>

text \<open>The bytes of a block and of a file, and what the reader has still to see.\<close>

definition blk :: "data_block \<Rightarrow> byte list" where
  "blk b = take (wcount b) (bdata b)"

definition content :: "mfile \<Rightarrow> byte list" where
  "content h = concat (map blk (head h))"

definition unread :: "mfile \<Rightarrow> byte list" where
  "unread h = (case read_p h of
      None \<Rightarrow> content h
    | Some p \<Rightarrow> drop (rcount (head h ! p)) (blk (head h ! p)) @ concat (map blk (drop (Suc p) (head h))))"

definition block_ok :: "nat \<Rightarrow> data_block \<Rightarrow> bool" where
  "block_ok n b \<longleftrightarrow> length (bdata b) = n \<and> wcount b \<le> n \<and> data_len b = wcount b \<and> rcount b \<le> wcount b"

definition mfile_ok :: "mfile \<Rightarrow> bool" where
  "mfile_ok h \<longleftrightarrow> 0 < DATA_BLOCK_SIZE h \<and>
    (\<forall>b \<in> set (head h). block_ok (nat (DATA_BLOCK_SIZE h)) b \<and> 0 < wcount b) \<and>
    (\<not> is_full h \<longrightarrow> head h \<noteq> [] \<and> write_p h = Some (length (head h) - 1) \<and> int (wcount (last (head h))) < DATA_BLOCK_SIZE h)"

definition read_ok :: "mfile \<Rightarrow> bool" where
  "read_ok h \<longleftrightarrow> (case read_p h of
      None \<Rightarrow> \<not> is_empty h \<and> (\<forall>b \<in> set (head h). rcount b = 0)
    | Some p \<Rightarrow> p < length (head h) \<and> (\<forall>b \<in> set (drop (Suc p) (head h)). rcount b = 0) \<and>
        (is_empty h \<longleftrightarrow> rcount (head h ! p) = wcount (head h ! p)))"

section \<open>Writing\<close>

lemma fill_block_ok:
  assumes "block_ok n b" "wcount b + length bs \<le> n"
  obtains b' where "fill_block b bs = Some b'" "block_ok n b'" "blk b' = blk b @ bs"
    "wcount b' = wcount b + length bs" "rcount b' = rcount b"
proof -
  let ?b = "b\<lparr>bdata := take (wcount b) (bdata b) @ bs @ drop (wcount b + length bs) (bdata b),
    wcount := wcount b + length bs, data_len := wcount b + length bs\<rparr>"
  have "fill_block b bs = Some ?b" using assms by (simp add: fill_block_def memcpy_def block_ok_def)
  then show thesis by (rule that) (use assms in \<open>simp_all add: block_ok_def blk_def\<close>)
qed

lemma write_block_ok:
  assumes h: "head h = bs @ [b]" "write_p h = Some (length bs)" "0 < DATA_BLOCK_SIZE h"
    and b: "block_ok (nat (DATA_BLOCK_SIZE h)) b" "int (wcount b) < DATA_BLOCK_SIZE h"
    and w: "w < len" "len \<le> length data"
  obtains n b' where "write_block data len w h = Some (w + n, h\<lparr>head := bs @ [b'], is_full := int (wcount b') = DATA_BLOCK_SIZE h\<rparr>)"
    "0 < n" "w + n \<le> len" "block_ok (nat (DATA_BLOCK_SIZE h)) b'" "0 < wcount b'" "blk b' = blk b @ take n (drop w data)" "rcount b' = rcount b"
proof (cases "int (len - w) \<le> DATA_BLOCK_SIZE h - int (wcount b)")
  case True
  have bs: "rd_block data w (len - w) = Some (take (len - w) (drop w data))" using w by (simp add: rd_block_def)
  obtain b' where b': "fill_block b (take (len - w) (drop w data)) = Some b'" "block_ok (nat (DATA_BLOCK_SIZE h)) b'"
    "blk b' = blk b @ take (len - w) (drop w data)" "wcount b' = wcount b + length (take (len - w) (drop w data))" "rcount b' = rcount b"
    by (rule fill_block_ok [OF b(1), of "take (len - w) (drop w data)"]) (use True w in auto)
  show thesis
  proof (rule that [of "len - w" b'])
    show "write_block data len w h = Some (w + (len - w), h\<lparr>head := bs @ [b'], is_full := int (wcount b') = DATA_BLOCK_SIZE h\<rparr>)"
      using h(1,2) True w bs b'(1) by (simp add: write_block_def upd_block_def Let_def)
  qed (use b' w in auto)
next
  case False
  let ?n = "nat (DATA_BLOCK_SIZE h - int (wcount b))"
  have n: "w + ?n \<le> len" "0 < ?n" "\<not> int len - int w \<le> DATA_BLOCK_SIZE h - int (wcount b)" using False b(2) w by auto
  have bs: "rd_block data w ?n = Some (take ?n (drop w data))" using w n by (simp add: rd_block_def)
  obtain b' where b': "fill_block b (take ?n (drop w data)) = Some b'" "block_ok (nat (DATA_BLOCK_SIZE h)) b'"
    "blk b' = blk b @ take ?n (drop w data)" "wcount b' = wcount b + length (take ?n (drop w data))" "rcount b' = rcount b"
    by (rule fill_block_ok [OF b(1), of "take ?n (drop w data)"]) (use b(2) in auto)
  have full: "int (wcount b') = DATA_BLOCK_SIZE h" using b'(4) b(2) w n by simp
  show thesis
  proof (rule that [of ?n b'])
    show "write_block data len w h = Some (w + ?n, h\<lparr>head := bs @ [b'], is_full := int (wcount b') = DATA_BLOCK_SIZE h\<rparr>)"
      using h(1,2) False n(3) b(2) bs b'(1) full by (simp add: write_block_def upd_block_def Let_def)
  qed (use b' w n in auto)
qed

text \<open>\<open>grew h h' w\<close>: \<open>h'\<close> is \<open>h\<close> with \<open>w\<close> appended; the reader's fields are as before and new blocks are
  unread.\<close>

definition grew :: "mfile \<Rightarrow> mfile \<Rightarrow> byte list \<Rightarrow> bool" where
  "grew h h' w \<longleftrightarrow> mfile_ok h' \<and> content h' = content h @ w \<and>
    (\<exists>k. map rcount (head h') = map rcount (head h) @ replicate k 0) \<and>
    read_p h' = read_p h \<and> is_empty h' = is_empty h \<and> ccache h' = ccache h \<and> total_size h' = total_size h \<and>
    DATA_BLOCK_SIZE h' = DATA_BLOCK_SIZE h"

lemma grew_refl: "mfile_ok h \<Longrightarrow> grew h h []"
  by (auto simp: grew_def intro: exI [of _ 0])

lemma grew_trans: "grew h h1 u \<Longrightarrow> grew h1 h2 v \<Longrightarrow> grew h h2 (u @ v)"
  unfolding grew_def by (auto simp: replicate_add [symmetric])

lemma write_round:
  assumes ok: "mfile_ok h" and w: "w < len" "len \<le> length data"
    and g: "g = (if is_full h then add_tail b h else h)" "is_full h \<Longrightarrow> new_block al k h = Some b"
  obtains n h' where "write_block data len w g = Some (w + n, h')" "0 < n" "w + n \<le> len" "grew h h' (take n (drop w data))"
proof (cases "is_full h")
  case True
  let ?B = "nat (DATA_BLOCK_SIZE h)"
  have b: "b = \<lparr>data_len = 0, bdata = map (fill h) [0..<?B], wcount = 0, rcount = 0\<rparr>" "0 < DATA_BLOCK_SIZE h"
    using g(2) True ok by (auto simp: new_block_def mfile_ok_def split: if_splits)
  have hd: "head g = head h @ [b]" "write_p g = Some (length (head h))" "DATA_BLOCK_SIZE g = DATA_BLOCK_SIZE h"
    "read_p g = read_p h" "is_empty g = is_empty h" "ccache g = ccache h" "total_size g = total_size h"
    using g True by (simp_all add: add_tail_def TAILQ_INSERT_TAIL_def)
  obtain n b' where n: "write_block data len w g = Some (w + n, g\<lparr>head := head h @ [b'], is_full := int (wcount b') = DATA_BLOCK_SIZE g\<rparr>)"
    "0 < n" "w + n \<le> len" "block_ok ?B b'" "0 < wcount b'" "blk b' = blk b @ take n (drop w data)" "rcount b' = rcount b"
    by (rule write_block_ok [OF hd(1,2) _ _ _ w]) (use b hd in \<open>auto simp: block_ok_def\<close>)
  have "grew h (g\<lparr>head := head h @ [b'], is_full := int (wcount b') = DATA_BLOCK_SIZE g\<rparr>) (take n (drop w data))"
    using ok hd n(4-7) b unfolding grew_def by (auto simp: mfile_ok_def content_def blk_def block_ok_def intro: exI [of _ 1])
  then show thesis using n(1-3) by (intro that)
next
  case False
  let ?B = "nat (DATA_BLOCK_SIZE h)"
  obtain bs b where hd: "head h = bs @ [b]" using ok False by (cases "head h" rule: rev_cases) (auto simp: mfile_ok_def)
  then have b: "block_ok ?B b" "int (wcount b) < DATA_BLOCK_SIZE h" "write_p h = Some (length bs)" "0 < DATA_BLOCK_SIZE h"
    using ok False by (auto simp: mfile_ok_def)
  obtain n b' where n: "write_block data len w h = Some (w + n, h\<lparr>head := bs @ [b'], is_full := int (wcount b') = DATA_BLOCK_SIZE h\<rparr>)"
    "0 < n" "w + n \<le> len" "block_ok ?B b'" "0 < wcount b'" "blk b' = blk b @ take n (drop w data)" "rcount b' = rcount b"
    by (rule write_block_ok [OF hd b(3,4,1,2) w])
  have "grew h (h\<lparr>head := bs @ [b'], is_full := int (wcount b') = DATA_BLOCK_SIZE h\<rparr>) (take n (drop w data))"
    using ok hd n(4-7) b unfolding grew_def by (auto simp: mfile_ok_def content_def block_ok_def intro: exI [of _ 0])
  then show thesis using n(1-3) False g by (intro that) auto
qed

lemma mwrite_loop_ok:
  assumes "mfile_ok h" "len \<le> length data" "w \<le> len"
  shows "\<exists>r n h'. mwrite_loop al data len w k h = Some (r, h') \<and> grew h h' (take n (drop w data)) \<and>
    w + n \<le> len \<and> (r = 1 \<and> w + n = len \<or> r = -1 \<and> \<not> (\<forall>i. al i))"
  using assms
proof (induction "len - w" arbitrary: w k h rule: less_induct)
  case less
  show ?case
  proof (cases "w < len")
    case False
    then show ?thesis using less.prems grew_refl by (subst mwrite_loop.simps) (auto intro: exI [of _ 0])
  next
    case True
    show ?thesis
    proof (cases "is_full h \<and> new_block al k h = None")
      case no: True
      then have "\<not> (\<forall>i. al i)" using less.prems(1) by (auto simp: new_block_def mfile_ok_def split: if_splits)
      then show ?thesis using no True less.prems grew_refl by (subst mwrite_loop.simps) (auto intro!: exI [of _ 0])
    next
      case False
      then obtain b where b: "is_full h \<Longrightarrow> new_block al k h = Some b" by auto
      obtain n h' where n: "write_block data len w (if is_full h then add_tail b h else h) = Some (w + n, h')"
        "0 < n" "w + n \<le> len" "grew h h' (take n (drop w data))"
        by (rule write_round [OF less.prems(1) True less.prems(2) refl b])
      let ?k = "if is_full h then k + 2 else k"
      have step: "mwrite_loop al data len w k h = mwrite_loop al data len (w + n) ?k h'"
        using True n(1) b by (subst mwrite_loop.simps) auto
      have "len - (w + n) < len - w" "mfile_ok h'" using True n by (auto simp: grew_def)
      from less.hyps [OF this less.prems(2) n(3), of ?k] obtain r n' h'' where IH:
        "mwrite_loop al data len (w + n) ?k h' = Some (r, h'')" "grew h' h'' (take n' (drop (w + n) data))"
        "w + n + n' \<le> len" "r = 1 \<and> w + n + n' = len \<or> r = -1 \<and> \<not> (\<forall>i. al i)" by blast
      have "take n (drop w data) @ take n' (drop (w + n) data) = take (n + n') (drop w data)"
        by (simp add: take_add) (simp add: add.commute)
      then have "grew h h'' (take (n + n') (drop w data))" using grew_trans [OF n(4) IH(2)] by simp
      then show ?thesis using step IH by (intro exI [of _ r] exI [of _ "n + n'"] exI [of _ h'']) auto
    qed
  qed
qed

lemma mwrite_ok:
  assumes "mfile_ok h" "int n = len" "n \<le> length data"
  shows "\<exists>r k h'. mwrite al data len (Some h) = Some (r, Some h') \<and> grew (h\<lparr>total_size := total_size h + len\<rparr>) h' (take k data) \<and>
    k \<le> n \<and> (r = 1 \<and> k = n \<or> r = -1 \<and> \<not> (\<forall>i. al i))"
proof -
  have "mfile_ok (h\<lparr>total_size := total_size h + len\<rparr>)" using assms(1) by (simp add: mfile_ok_def)
  from mwrite_loop_ok [OF this assms(3), of 0 al 0] obtain r k h' where
    "mwrite_loop al data n 0 0 (h\<lparr>total_size := total_size h + len\<rparr>) = Some (r, h')"
    "grew (h\<lparr>total_size := total_size h + len\<rparr>) h' (take k data)" "k \<le> n" "r = 1 \<and> k = n \<or> r = -1 \<and> \<not> (\<forall>i. al i)"
    by auto
  moreover have "nat len = n" using assms(2) by simp
  ultimately show ?thesis by (intro exI [of _ r] exI [of _ k] exI [of _ h']) (simp add: mwrite_def)
qed

section \<open>Reading\<close>

lemma mfile_ok_nth: "mfile_ok h \<Longrightarrow> p < length (head h) \<Longrightarrow>
    block_ok (nat (DATA_BLOCK_SIZE h)) (head h ! p) \<and> 0 < wcount (head h ! p)"
  by (simp add: mfile_ok_def)

lemma block_ok_upd: "block_ok n b \<Longrightarrow> r \<le> wcount b \<Longrightarrow> block_ok n (b\<lparr>rcount := r\<rparr>)"
  by (simp add: block_ok_def)

lemma blk_upd [simp]: "blk (b\<lparr>rcount := r\<rparr>) = blk b"
  by (simp add: blk_def)

lemma blk_length: "block_ok n b \<Longrightarrow> length (blk b) = wcount b"
  by (simp add: block_ok_def blk_def)

text \<open>Setting the read count of a block changes neither the content nor the well-formedness.\<close>

lemma set_read:
  assumes "mfile_ok h" "p < length (head h)" "r \<le> wcount (head h ! p)"
    and "h' = (upd_block p ((head h ! p)\<lparr>rcount := r\<rparr>) h)\<lparr>read_p := q, is_empty := e\<rparr>"
  shows "mfile_ok h'" "content h' = content h" "total_size h' = total_size h" "ccache h' = ccache h"
proof -
  have "block_ok (nat (DATA_BLOCK_SIZE h)) ((head h ! p)\<lparr>rcount := r\<rparr>)"
    using mfile_ok_nth [OF assms(1,2)] assms(3) by (simp add: block_ok_upd)
  moreover have "wcount (last ((head h)[p := (head h ! p)\<lparr>rcount := r\<rparr>])) = wcount (last (head h))"
    using assms(2) by (cases "head h = []") (auto simp: last_conv_nth nth_list_update)
  ultimately show "mfile_ok h'" using assms by (auto simp: mfile_ok_def upd_block_def dest!: set_update_subset_insert [THEN subsetD])
  have "map blk ((head h)[p := (head h ! p)\<lparr>rcount := r\<rparr>]) = map blk (head h)"
    using assms(2) by (intro nth_equalityI) (auto simp: nth_list_update)
  then show "content h' = content h" using assms(4) by (simp add: content_def upd_block_def)
qed (simp_all add: assms(4) upd_block_def)

text \<open>The block the next byte comes from.\<close>

lemma next_block_ok:
  assumes "mfile_ok h" "read_ok h" "read_p h = Some p"
  shows "next_block p h = None \<Longrightarrow> unread h = []"
    and "next_block p h = Some q \<Longrightarrow> q < length (head h) \<and> rcount (head h ! q) < wcount (head h ! q) \<and>
      (\<forall>b \<in> set (drop (Suc q) (head h)). rcount b = 0) \<and>
      unread h = drop (rcount (head h ! q)) (blk (head h ! q)) @ concat (map blk (drop (Suc q) (head h)))"
proof -
  have p: "p < length (head h)" "\<forall>b \<in> set (drop (Suc p) (head h)). rcount b = 0"
    "is_empty h \<longleftrightarrow> rcount (head h ! p) = wcount (head h ! p)" using assms(2,3) by (simp_all add: read_ok_def)
  note ok = mfile_ok_nth [OF assms(1)]
  have un: "unread h = drop (rcount (head h ! p)) (blk (head h ! p)) @ concat (map blk (drop (Suc p) (head h)))"
    using assms(3) by (simp add: unread_def)
  have len: "length (blk (head h ! p)) = wcount (head h ! p)" using ok [OF p(1)] blk_length by blast
  show "next_block p h = None \<Longrightarrow> unread h = []"
    using p un len by (auto simp: next_block_def TAILQ_NEXT_def split: if_splits)
  assume q: "next_block p h = Some q"
  show "q < length (head h) \<and> rcount (head h ! q) < wcount (head h ! q) \<and>
      (\<forall>b \<in> set (drop (Suc q) (head h)). rcount b = 0) \<and>
      unread h = drop (rcount (head h ! q)) (blk (head h ! q)) @ concat (map blk (drop (Suc q) (head h)))"
  proof (cases "is_empty h")
    case False
    then have "q = p" using q by (simp add: next_block_def)
    moreover have "rcount (head h ! p) \<le> wcount (head h ! p)" using ok [OF p(1)] by (simp add: block_ok_def)
    ultimately show ?thesis using p un False by auto
  next
    case True
    then have q': "q = Suc p" "q < length (head h)" using q by (auto simp: next_block_def TAILQ_NEXT_def split: if_splits)
    then have drop: "drop (Suc p) (head h) = head h ! q # drop (Suc q) (head h)" by (simp add: Cons_nth_drop_Suc)
    then have "rcount (head h ! q) = 0" "\<forall>b \<in> set (drop (Suc q) (head h)). rcount b = 0" using p(2) by auto
    then show ?thesis using True p(3) un len drop q' ok [OF q'(2)] by simp
  qed
qed

lemma take_bytes:
  assumes "mfile_ok h" "q < length (head h)" "rcount (head h ! q) + n \<le> wcount (head h ! q)"
  shows "rd_block (bdata (head h ! q)) (rcount (head h ! q)) n
    = Some (take n (drop (rcount (head h ! q)) (blk (head h ! q))))"
  using mfile_ok_nth [OF assms(1,2)] assms(3) by (simp add: rd_block_def block_ok_def blk_def drop_take min_def)

text \<open>Advancing by \<open>n\<close> bytes within a block.\<close>

lemma advance:
  assumes ok: "mfile_ok h" and q: "q < length (head h)" "rcount (head h ! q) + n \<le> wcount (head h ! q)"
    "\<forall>b \<in> set (drop (Suc q) (head h)). rcount b = 0"
    and h': "h' = (upd_block q ((head h ! q)\<lparr>rcount := rcount (head h ! q) + n\<rparr>) h)
      \<lparr>read_p := Some q, is_empty := rcount (head h ! q) + n = wcount (head h ! q)\<rparr>"
  shows "mfile_ok h'" "read_ok h'" "content h' = content h" "read_p h' = Some q"
    "unread h' = drop n (drop (rcount (head h ! q)) (blk (head h ! q)) @ concat (map blk (drop (Suc q) (head h))))"
proof -
  show "mfile_ok h'" "content h' = content h" using set_read [OF ok q(1,2)] h' by blast+
  have hd: "head h' = (head h)[q := (head h ! q)\<lparr>rcount := rcount (head h ! q) + n\<rparr>]" "read_p h' = Some q"
    "is_empty h' \<longleftrightarrow> rcount (head h ! q) + n = wcount (head h ! q)" using h' by (simp_all add: upd_block_def)
  then show "read_p h' = Some q" by simp
  show "read_ok h'" using q hd by (simp add: read_ok_def)
  have "length (blk (head h ! q)) = wcount (head h ! q)" using mfile_ok_nth [OF ok q(1)] blk_length by blast
  then show "unread h' = drop n (drop (rcount (head h ! q)) (blk (head h ! q)) @ concat (map blk (drop (Suc q) (head h))))"
    using hd q(1,2) by (simp add: unread_def add.commute)
qed

definition reading :: "mfile \<Rightarrow> nat \<Rightarrow> mfile \<Rightarrow> bool" where
  "reading h n h' \<longleftrightarrow> mfile_ok h' \<and> read_ok h' \<and> content h' = content h \<and> unread h' = drop n (unread h) \<and>
    ccache h' = ccache h \<and> read_p h' \<noteq> None"

lemma reading_join:
  assumes "reading h n h1" "bs = take n (unread h)" "reading h1 m h2"
  shows "bs @ take m (unread h1) = take (n + m) (unread h)" "reading h (n + m) h2"
  using assms by (simp_all add: reading_def take_add) (simp add: add.commute)

lemma mread_loop_ok:
  assumes "mfile_ok h" "read_ok h" "read_p h = Some p" "length out \<le> len"
  shows "\<exists>h'. mread_loop len out p h = Some (out @ take (len - length out) (unread h), h') \<and> reading h (len - length out) h'"
  using assms
proof (induction "len - length out" arbitrary: out p h rule: less_induct)
  case less
  have hp: "h\<lparr>read_p := Some p\<rparr> = h" using less.prems(3) by simp
  show ?case
  proof (cases "length out < len")
    case False
    then show ?thesis using less.prems by (subst mread_loop.simps) (simp add: reading_def)
  next
    case True
    show ?thesis
    proof (cases "next_block p h")
      case None
      then show ?thesis using next_block_ok(1) [OF less.prems(1-3)] True less.prems
        by (subst mread_loop.simps) (simp add: reading_def)
    next
      case (Some q)
      let ?b = "head h ! q" let ?need = "len - length out" let ?could = "wcount ?b - rcount ?b"
      let ?n = "min ?need ?could"
      let ?h = "(upd_block q (?b\<lparr>rcount := rcount ?b + ?n\<rparr>) (h\<lparr>read_p := Some q\<rparr>))\<lparr>is_empty := rcount ?b + ?n = wcount ?b\<rparr>"
      have q: "q < length (head h)" "rcount ?b < wcount ?b" "\<forall>b \<in> set (drop (Suc q) (head h)). rcount b = 0"
        "unread h = drop (rcount ?b) (blk ?b) @ concat (map blk (drop (Suc q) (head h)))"
        using next_block_ok(2) [OF less.prems(1-3) Some] by blast+
      have n: "rcount ?b + ?n \<le> wcount ?b" using q(2) by simp
      have "?h = (upd_block q (?b\<lparr>rcount := rcount ?b + ?n\<rparr>) h)\<lparr>read_p := Some q, is_empty := rcount ?b + ?n = wcount ?b\<rparr>"
        by (simp add: upd_block_def)
      note adv = advance [OF less.prems(1) q(1) n q(3) this] and cc = set_read(4) [OF less.prems(1) q(1) n this]
      let ?bs = "take ?n (drop (rcount ?b) (blk ?b))"
      have bs: "rd_block (bdata ?b) (rcount ?b) ?n = Some ?bs" using take_bytes [OF less.prems(1) q(1) n] .
      have len: "length (blk ?b) = wcount ?b" using mfile_ok_nth [OF less.prems(1) q(1)] blk_length by blast
      then have lbs: "length ?bs = ?n" "?bs = take ?n (unread h)" using q(4) by simp_all
      have c: "nat (int (wcount ?b) - int (rcount ?b)) = ?could" "\<not> int (wcount ?b) - int (rcount ?b) \<le> 0"
        "int len - int (length out) \<le> int (wcount ?b) - int (rcount ?b) \<longleftrightarrow> ?need \<le> ?could" using q(2) True by auto
      have red: "reading h ?n ?h" unfolding reading_def using adv cc q(4) by simp
      show ?thesis
      proof (cases "?need \<le> ?could")
        case le: True
        have "mread_loop len out p h = Some (out @ ?bs, ?h)"
          using True Some q(1) c bs le by (subst mread_loop.simps) (simp add: Let_def)
        then show ?thesis using red lbs(2) le by (simp add: min_def)
      next
        case False
        then have le: "?n = ?could" "0 < ?could" using q(2) by auto
        have "mread_loop len out p h = mread_loop len (out @ ?bs) q ?h"
          using True Some q(1) c bs False by (subst mread_loop.simps) (simp add: Let_def)
        moreover have "len - length (out @ ?bs) < len - length out"
          unfolding length_append lbs(1) using le True by linarith
        from less.hyps [OF this adv(1,2,4)] obtain h' where IH:
          "mread_loop len (out @ ?bs) q ?h = Some ((out @ ?bs) @ take (len - length (out @ ?bs)) (unread ?h), h')"
          "reading ?h (len - length (out @ ?bs)) h'" using lbs(1) False by fastforce
        ultimately show ?thesis
          using reading_join [OF red lbs(2) IH(2)] lbs(1) le False by simp
      qed
    qed
  qed
qed

lemma start_ok:
  assumes "mfile_ok h" "read_ok h"
  shows "(case read_p h of None \<Rightarrow> TAILQ_FIRST h | Some p \<Rightarrow> Some p) = None \<Longrightarrow> content h = [] \<and> unread h = [] \<and> head h = []"
    and "(case read_p h of None \<Rightarrow> TAILQ_FIRST h | Some p \<Rightarrow> Some p) = Some p \<Longrightarrow>
      mfile_ok (h\<lparr>read_p := Some p\<rparr>) \<and> read_ok (h\<lparr>read_p := Some p\<rparr>) \<and> unread (h\<lparr>read_p := Some p\<rparr>) = unread h \<and>
      content (h\<lparr>read_p := Some p\<rparr>) = content h \<and> head h \<noteq> []"
proof -
  show "(case read_p h of None \<Rightarrow> TAILQ_FIRST h | Some p \<Rightarrow> Some p) = None \<Longrightarrow> content h = [] \<and> unread h = [] \<and> head h = []"
    by (auto simp: TAILQ_FIRST_def content_def unread_def split: option.splits if_splits)
  assume p: "(case read_p h of None \<Rightarrow> TAILQ_FIRST h | Some p \<Rightarrow> Some p) = Some p"
  show "mfile_ok (h\<lparr>read_p := Some p\<rparr>) \<and> read_ok (h\<lparr>read_p := Some p\<rparr>) \<and> unread (h\<lparr>read_p := Some p\<rparr>) = unread h \<and>
      content (h\<lparr>read_p := Some p\<rparr>) = content h \<and> head h \<noteq> []"
  proof (cases "read_p h")
    case None
    then obtain b bs where "head h = b # bs" "p = 0" using p by (cases "head h") (auto simp: TAILQ_FIRST_def)
    then show ?thesis using None assms mfile_ok_nth [OF assms(1), of 0]
      by (auto simp: mfile_ok_def read_ok_def unread_def content_def)
  next
    case (Some q)
    then have "h\<lparr>read_p := Some p\<rparr> = h" using p by simp
    then show ?thesis using assms Some by (auto simp: read_ok_def)
  qed
qed

lemma mread_ok:
  assumes "mfile_ok h" "read_ok h" "head h \<noteq> []"
  shows "\<exists>h'. mread (int n) (Some h) = Some (int (length (take n (unread h))), take n (unread h), Some h') \<and> reading h n h'"
proof (cases "case read_p h of None \<Rightarrow> TAILQ_FIRST h | Some p \<Rightarrow> Some p")
  case None
  then show ?thesis using start_ok(1) [OF assms(1,2)] assms(3) by simp
next
  case (Some p)
  note st = start_ok(2) [OF assms(1,2) Some]
  then obtain h' where "mread_loop n [] p (h\<lparr>read_p := Some p\<rparr>) = Some (take n (unread h), h')" "reading (h\<lparr>read_p := Some p\<rparr>) n h'"
    using mread_loop_ok [of "h\<lparr>read_p := Some p\<rparr>" p "[]" n] by auto
  then show ?thesis using Some st by (intro exI [of _ h']) (simp add: mread_def reading_def)
qed

lemma mgetc_ok:
  assumes "mfile_ok h" "read_ok h"
  shows "unread h = c # rest \<Longrightarrow> \<exists>h'. mgetc h = Some (c, h') \<and> reading h 1 h'"
    and "unread h = [] \<Longrightarrow> \<exists>h'. mgetc h = Some (0, h') \<and> mfile_ok h' \<and> read_ok h' \<and> unread h' = [] \<and> content h' = content h \<and> ccache h' = ccache h"
proof -
  let ?first = "case read_p h of None \<Rightarrow> TAILQ_FIRST h | Some p \<Rightarrow> Some p"
  have none: "content h = [] \<and> unread h = []" if "?first = None" using start_ok(1) [OF assms that] by blast
  have nxt: "\<exists>h'. mgetc h = Some (hd (unread h), h') \<and> reading h 1 h' \<and> unread h \<noteq> []"
    if p: "?first = Some p" and q: "next_block p (h\<lparr>read_p := Some p\<rparr>) = Some q" for p q
  proof -
    let ?h = "h\<lparr>read_p := Some p\<rparr>" let ?b = "head h ! q"
    note st = start_ok(2) [OF assms p]
    have q': "q < length (head h)" "rcount ?b < wcount ?b" "\<forall>b \<in> set (drop (Suc q) (head h)). rcount b = 0"
      "unread h = drop (rcount ?b) (blk ?b) @ concat (map blk (drop (Suc q) (head h)))"
      using next_block_ok(2) [of ?h p q] st q by auto
    let ?h2 = "(upd_block q (?b\<lparr>rcount := rcount ?b + 1\<rparr>) h)\<lparr>read_p := Some q, is_empty := rcount ?b + 1 = wcount ?b\<rparr>"
    have le: "rcount ?b + 1 \<le> wcount ?b" using q'(2) by simp
    note adv = advance [OF assms(1) q'(1) le q'(3) refl] and cc = set_read(4) [OF assms(1) q'(1) le refl]
    have ok: "block_ok (nat (DATA_BLOCK_SIZE h)) ?b" using mfile_ok_nth [OF assms(1) q'(1)] by blast
    then have "rd (bdata ?b) (rcount ?b) = Some (hd (unread h))" "unread h \<noteq> []"
      using q'(2,4) by (auto simp: block_ok_def blk_def hd_append hd_drop_conv_nth)
    moreover from this have "mgetc h = Some (hd (unread h), ?h2)"
      using p q q'(1) by (simp add: mgetc_def upd_block_def Let_def)
    moreover have "reading h 1 ?h2" unfolding reading_def using adv cc q'(4) by simp
    ultimately show ?thesis by blast
  qed
  show "unread h = c # rest \<Longrightarrow> \<exists>h'. mgetc h = Some (c, h') \<and> reading h 1 h'"
  proof -
    assume un: "unread h = c # rest"
    obtain p where p: "?first = Some p" using none un by (cases ?first) auto
    obtain q where q: "next_block p (h\<lparr>read_p := Some p\<rparr>) = Some q"
      using next_block_ok(1) [of "h\<lparr>read_p := Some p\<rparr>" p] start_ok(2) [OF assms p] un
      by (cases "next_block p (h\<lparr>read_p := Some p\<rparr>)") auto
    show ?thesis using nxt [OF p q] un by simp
  qed
  show "\<exists>h'. mgetc h = Some (0, h') \<and> mfile_ok h' \<and> read_ok h' \<and> unread h' = [] \<and> content h' = content h \<and> ccache h' = ccache h"
    if un: "unread h = []"
  proof (cases ?first)
    case None
    then show ?thesis using assms un by (simp add: mgetc_def)
  next
    case (Some p)
    have "next_block p (h\<lparr>read_p := Some p\<rparr>) = None"
      using nxt [OF Some] un by (cases "next_block p (h\<lparr>read_p := Some p\<rparr>)") auto
    then show ?thesis using Some start_ok(2) [OF assms Some] un by (simp add: mgetc_def)
  qed
qed

section \<open>Seeking\<close>

lemma mseek_ok: "mfile_ok h \<Longrightarrow> mfile_ok (mseek h) \<and> read_ok (mseek h) \<and> unread (mseek h) = content h \<and> content (mseek h) = content h"
proof -
  assume ok: "mfile_ok h"
  have "map blk (head (mseek h)) = map blk (head h)" by (simp add: mseek_def)
  then have "content (mseek h) = content h" by (simp add: content_def)
  moreover have "mfile_ok (mseek h)" using ok by (auto simp: mfile_ok_def mseek_def block_ok_def last_map)
  ultimately show ?thesis by (simp add: read_ok_def unread_def mseek_def)
qed

lemma seek_loop_ok:
  "seek_loop pos i bs = Some (j, r) \<Longrightarrow> i \<le> j \<and> j - i < length bs \<and> r \<le> wcount (bs ! (j - i)) \<and>
    pos = sum_list (map wcount (take (j - i) bs)) + r \<and> (i < j \<longrightarrow> 0 < r)"
proof (induction pos i bs rule: seek_loop.induct)
  case (2 pos i b bs)
  show ?case
  proof (cases "pos \<le> wcount b")
    case False
    then have IH: "Suc i \<le> j \<and> j - Suc i < length bs \<and> r \<le> wcount (bs ! (j - Suc i)) \<and>
        pos - wcount b = sum_list (map wcount (take (j - Suc i) bs)) + r \<and> (Suc i < j \<longrightarrow> 0 < r)"
      using 2 by simp
    then obtain d where "j - i = Suc d" "j - Suc i = d" by (metis Suc_diff_Suc Suc_le_eq)
    then show ?thesis using IH False by (cases "Suc i < j") auto
  qed (use 2 in auto)
qed simp

lemma seek_loop_None: "seek_loop pos i bs = None \<longleftrightarrow> bs = [] \<or> sum_list (map wcount bs) < pos"
  by (induction pos i bs rule: seek_loop.induct) auto

lemma blks_length: "(\<And>b. b \<in> set bs \<Longrightarrow> block_ok n b) \<Longrightarrow> length (concat (map blk bs)) = sum_list (map wcount bs)"
  by (induction bs) (auto intro: blk_length)

lemma content_prefix: "mfile_ok h \<Longrightarrow> length (concat (map blk (take k (head h)))) = sum_list (map wcount (take k (head h)))"
  by (rule blks_length) (auto simp: mfile_ok_def dest!: in_set_takeD)

lemma content_length: "mfile_ok h \<Longrightarrow> length (content h) = sum_list (map wcount (head h))"
  using content_prefix [of h "length (head h)"] by (simp add: content_def)

lemma prefix_mono: "k \<le> j \<Longrightarrow> sum_list (map f (take k xs)) \<le> sum_list (map (f :: 'a \<Rightarrow> nat) (take j xs))"
  using take_add [of k "j - k" xs] by simp

text \<open>Positions where one block ends and the next one starts.\<close>

definition boundary :: "mfile \<Rightarrow> nat \<Rightarrow> bool" where
  "boundary h n \<longleftrightarrow> (\<exists>k. 0 < k \<and> k < length (head h) \<and> n = sum_list (map wcount (take k (head h))))"

lemma mseek_head: "length (head (mseek h)) = length (head h)" "map wcount (head (mseek h)) = map wcount (head h)"
  "sum_list (map wcount (take k (head (mseek h)))) = sum_list (map wcount (take k (head h)))"
  by (simp_all add: mseek_def take_map comp_def)

lemma mseek_pos_found:
  assumes ok: "mfile_ok h" and s: "seek_loop (nat pos) 0 (head (mseek h)) = Some (i, r)"
  shows "i < length (head h)" "r \<le> wcount (head h ! i)" "nat pos = sum_list (map wcount (take i (head h))) + r"
    "0 < i \<Longrightarrow> 0 < r" "mfile_ok (mseek_pos pos h)" "content (mseek_pos pos h) = content h"
    "read_p (mseek_pos pos h) = Some i" "\<not> is_empty (mseek_pos pos h)" "head (mseek_pos pos h) \<noteq> []"
    "rcount (head (mseek_pos pos h) ! i) = r" "wcount (head (mseek_pos pos h) ! i) = wcount (head h ! i)"
    "\<forall>b \<in> set (drop (Suc i) (head (mseek_pos pos h))). rcount b = 0" "length (head (mseek_pos pos h)) = length (head h)"
    "unread (mseek_pos pos h) = drop (nat pos) (content h)"
proof -
  let ?h = "mseek h" let ?b = "head ?h ! i"
  note ms = mseek_ok [OF ok] and L = seek_loop_ok [OF s]
  show i: "i < length (head h)" using L by (simp add: mseek_head)
  have wc: "wcount ?b = wcount (head h ! i)" using i by (simp add: mseek_def)
  then show r: "r \<le> wcount (head h ! i)" using L by simp
  show pos: "nat pos = sum_list (map wcount (take i (head h))) + r" using L by (simp add: mseek_head)
  show "0 < i \<Longrightarrow> 0 < r" using L by simp
  have e: "mseek_pos pos h = (upd_block i (?b\<lparr>rcount := r\<rparr>) ?h)\<lparr>read_p := Some i, is_empty := is_empty ?h\<rparr>"
    using s by (simp add: mseek_pos_def upd_block_def Let_def)
  have i': "i < length (head ?h)" "r \<le> wcount ?b" using i r wc by (simp_all add: mseek_head)
  have okms: "mfile_ok ?h" using ms by blast
  show okp: "mfile_ok (mseek_pos pos h)" and cp: "content (mseek_pos pos h) = content h" using set_read [OF okms i' e] ms by auto
  have hd: "head (mseek_pos pos h) = (head ?h)[i := ?b\<lparr>rcount := r\<rparr>]" unfolding e by (simp add: upd_block_def)
  show rp: "read_p (mseek_pos pos h) = Some i" "\<not> is_empty (mseek_pos pos h)" unfolding e by (simp_all add: mseek_def)
  show "head (mseek_pos pos h) \<noteq> []" "rcount (head (mseek_pos pos h) ! i) = r"
    "wcount (head (mseek_pos pos h) ! i) = wcount (head h ! i)" "length (head (mseek_pos pos h)) = length (head h)"
    using i i' hd wc by (auto simp: mseek_def)
  show "\<forall>b \<in> set (drop (Suc i) (head (mseek_pos pos h))). rcount b = 0" unfolding hd using i'
    by (auto simp: mseek_def drop_map)
  let ?p = "mseek_pos pos h"
  have "content ?p = concat (map blk (take i (head ?p))) @ blk (head ?p ! i) @ concat (map blk (drop (Suc i) (head ?p)))"
    unfolding content_def using i' hd
    by (subst id_take_nth_drop [of i "head ?p"]) (simp_all add: mseek_head)
  moreover have "length (concat (map blk (take i (head ?p)))) = sum_list (map wcount (take i (head h)))"
    using content_prefix [OF okp, of i] mseek_head(3) [of i h] by (simp add: hd)
  moreover have "length (blk (head ?p ! i)) = wcount (head h ! i)"
    using mfile_ok_nth [OF okms i'(1)] blk_length [of "nat (DATA_BLOCK_SIZE ?h)" ?b] i'(1) hd wc by simp
  ultimately have "unread ?p = drop (nat pos) (content ?p)"
    using rp(1) pos r \<open>rcount (head ?p ! i) = r\<close> by (simp add: unread_def)
  then show "unread ?p = drop (nat pos) (content h)" using cp by simp
qed

lemma stuck_read:
  assumes "read_p h = Some p" "\<not> is_empty h" "p < length (head h)" "rcount (head h ! p) = wcount (head h ! p)"
  shows "\<exists>h'. mread n (Some h) = Some (0, [], Some h')"
  using assms by (auto simp: mread_def mread_loop.simps next_block_def)

lemma mwrite_head_ok:
  assumes "mfile_ok h" "data \<noteq> []" "int (length data) \<le> DATA_BLOCK_SIZE h" "al 0 \<and> al 1"
  shows "\<exists>h'. mwrite_head al data (int (length data)) (Some h) = Some (1, Some h') \<and> mfile_ok h' \<and> content h' = data @ content h \<and>
    total_size h' = total_size h + int (length data) \<and> mfile_new_header_size h' = mfile_new_header_size h + int (length data)"
proof -
  let ?h = "h\<lparr>total_size := total_size h + int (length data)\<rparr>"
  let ?B = "nat (DATA_BLOCK_SIZE h)"
  obtain b where b: "new_block al 0 ?h = Some b" "block_ok ?B b" "blk b = []" "wcount b = 0"
    using assms(1,4) by (auto simp: new_block_def mfile_ok_def block_ok_def blk_def)
  obtain b' where b': "fill_block b data = Some b'" "block_ok ?B b'" "blk b' = blk b @ data" "wcount b' = wcount b + length data"
    by (rule fill_block_ok [OF b(2), of data]) (use assms(3) b(4) in auto)
  have rd: "rd_block data 0 (length data) = Some data" by (simp add: rd_block_def)
  have "mfile_ok (TAILQ_INSERT_HEAD b' (?h\<lparr>new_header_size := new_header_size ?h + int (length data), block_num := block_num ?h + 1\<rparr>))"
    using assms(1,2) b b'(2,4) by (auto simp: TAILQ_INSERT_HEAD_def mfile_ok_def Suc_diff_Suc)
  then show ?thesis using assms(3) b(1) b'(1,3) rd b(3)
    by (auto simp: mwrite_head_def TAILQ_INSERT_HEAD_def content_def mfile_new_header_size_def)
qed

section \<open>Lines\<close>

lemma ccache_irrelevant [simp]:
  "mfile_ok (h\<lparr>ccache := c\<rparr>) = mfile_ok h" "read_ok (h\<lparr>ccache := c\<rparr>) = read_ok h"
  "unread (h\<lparr>ccache := c\<rparr>) = unread h" "content (h\<lparr>ccache := c\<rparr>) = content h"
  by (cases "read_p h"; simp add: mfile_ok_def read_ok_def unread_def content_def)+

lemma line_step:
  assumes "mfile_ok h" "read_ok h" "ccache h = LF" "unread h = c # u" "c \<notin> {CR, LF, 0}" "d < length buf" "1 < n"
  obtains h' where "line_loop n d buf h = line_loop (n - 1) (d + 1) (buf[d := c]) h'" "reading h 1 h'"
proof -
  obtain h' where "mgetc h = Some (c, h')" "reading h 1 h'" using mgetc_ok(1) [OF assms(1,2,4)] by blast
  moreover from this(1) have "line_loop n d buf h = line_loop (n - 1) (d + 1) (buf[d := c]) h'"
    using assms by (subst line_loop.simps) (simp add: line_char_def)
  ultimately show thesis using that by blast
qed

lemma line_steps:
  assumes "mfile_ok h" "read_ok h" "ccache h = LF" "unread h = line @ u" "set line \<inter> {CR, LF, 0} = {}"
    "d + length line \<le> length buf" "int (length line) < n"
  shows "\<exists>h'. line_loop n d buf h = line_loop (n - int (length line)) (d + length line)
    (take d buf @ line @ drop (d + length line) buf) h' \<and> mfile_ok h' \<and> read_ok h' \<and> ccache h' = LF \<and> unread h' = u \<and> content h' = content h"
  using assms
proof (induction line arbitrary: n d buf h)
  case Nil
  then show ?case by (intro exI [of _ h]) simp
next
  case (Cons c line)
  obtain h1 where h1: "line_loop n d buf h = line_loop (n - 1) (d + 1) (buf[d := c]) h1" "reading h 1 h1"
    by (rule line_step [OF Cons.prems(1-3), of c "line @ u" d buf n]) (use Cons.prems in auto)
  have r: "mfile_ok h1" "read_ok h1" "ccache h1 = LF" "unread h1 = line @ u" "content h1 = content h"
    using h1(2) Cons.prems(3,4) by (simp_all add: reading_def)
  have "d < length buf" using Cons.prems(6) by simp
  then have "take (d + 1) (buf[d := c]) @ line @ drop (d + 1 + length line) (buf[d := c])
      = take d buf @ (c # line) @ drop (d + length (c # line)) buf"
    by (simp add: take_Suc_conv_app_nth)
  then show ?case using Cons.IH [OF r(1-4), of "d + 1" "buf[d := c]" "n - 1"] Cons.prems(5-7) h1(1) r(5) by (simp add: algebra_simps)
qed

lemma line_eol:
  assumes "mfile_ok h" "read_ok h" "ccache h = LF" "unread h = eol @ rest" "eol = [LF] \<or> eol = [CR, LF]" "d + length eol \<le> length buf"
  shows "\<exists>h'. line_loop n d buf h = Some (int (d + length eol), take d buf @ eol @ drop (d + length eol) buf, h') \<and>
    mfile_ok h' \<and> read_ok h' \<and> ccache h' = LF \<and> unread h' = rest \<and> content h' = content h"
proof -
  obtain c u where c: "unread h = c # u" "c = hd eol" using assms(4,5) by auto
  obtain h1 where h1: "mgetc h = Some (c, h1)" "reading h 1 h1" using mgetc_ok(1) [OF assms(1,2) c(1)] by blast
  have d: "d < length buf" "take d buf @ x # drop (Suc d) buf = buf[d := x]" for x
    using assms(5,6) by (auto simp: upd_conv_take_nth_drop)
  show ?thesis using assms(5)
  proof
    assume e: "eol = [LF]"
    then have "line_loop n d buf h = Some (int (d + 1), buf[d := LF], h1)"
      using assms(3) h1(1) c(2) d(1) by (subst line_loop.simps) (simp add: line_char_def)
    then show ?thesis using h1(2) assms(3,4) c(1) d e by (auto simp: reading_def)
  next
    assume e: "eol = [CR, LF]"
    then have "unread h1 = LF # rest" "mfile_ok h1" "read_ok h1" using h1(2) assms(4) by (simp_all add: reading_def)
    then obtain h2 where h2: "mgetc h1 = Some (LF, h2)" "reading h1 1 h2" using mgetc_ok(1) by blast
    have cc: "h2\<lparr>ccache := LF\<rparr> = h2" using h1(2) h2(2) assms(3) by (simp add: reading_def)
    have d1: "Suc d < length buf" using assms(6) e by simp
    have "line_loop n d buf h = Some (int (d + 2), buf[d := CR, d + 1 := LF], h2\<lparr>ccache := LF\<rparr>)"
      using assms(3) h1(1) h2(1) c(2) d(1) d1 e by (subst line_loop.simps) (simp add: line_char_def Let_def)
    moreover have "buf[d := CR, d + 1 := LF] = take d buf @ [CR, LF] @ drop (d + 2) buf"
      using d1 by (simp add: upd_conv_take_nth_drop take_Suc_conv_app_nth)
    ultimately show ?thesis using h1(2) h2(2) assms(3,4) e cc by (auto simp: reading_def)
  qed
qed

lemma mread_line_long:
  assumes "mfile_ok h" "read_ok h" "ccache h = LF" "unread h = line @ c # u" "set (line @ [c]) \<inter> {CR, LF, 0} = {}"
    "n = int (length line) + 3" "nat n \<le> length buf"
  shows "\<exists>buf' h'. mread_line buf n (Some h) = Some (0, buf', Some h') \<and> unread h' = u"
proof -
  let ?buf = "buf[nat (n - 1) := 0]" let ?d = "length line"
  have l: "length line + 3 \<le> length buf" using assms(6,7) by linarith
  obtain h1 where h1: "line_loop (n - 2) 0 ?buf h = line_loop 1 ?d (line @ drop ?d ?buf) h1" "mfile_ok h1" "read_ok h1"
    "ccache h1 = LF" "unread h1 = c # u"
    using line_steps [OF assms(1-4), of 0 ?buf "n - 2"] assms(5,6) l by auto
  obtain h2 where h2: "mgetc h1 = Some (c, h2)" "reading h1 1 h2" using mgetc_ok(1) [OF h1(2,3,5)] by blast
  have "line_loop 1 ?d (line @ drop ?d ?buf) h1 = Some (0, (line @ drop ?d ?buf)[?d := c], h2)"
    using assms(5) l h1(4) h2(1) by (subst line_loop.simps) (simp add: line_char_def)
  then show ?thesis using assms(6) l h1 h2(2) by (auto simp: mread_line_def reading_def)
qed

lemma take2_upd: "1 < length xs \<Longrightarrow> take 2 (xs[0 := a, 1 := b]) = [a, b]"
  by (cases xs; cases "tl xs") auto

section \<open>Properties\<close>

fun mwrites :: "byte list list \<Rightarrow> mfile \<Rightarrow> mfile option" where
  "mwrites [] h = Some h"
| "mwrites (d # ds) h = (case mwrite (\<lambda>_. True) d (int (length d)) (Some h) of
      Some (r, Some h') \<Rightarrow> if r = 1 then mwrites ds h' else None
    | _ \<Rightarrow> None)"

fun mreads :: "nat list \<Rightarrow> mfile \<Rightarrow> (int \<times> byte list) list option" where
  "mreads [] h = Some []"
| "mreads (n # ns) h = (case mread (int n) (Some h) of
      Some (r, bs, Some h') \<Rightarrow> map_option (Cons (r, bs)) (mreads ns h')
    | _ \<Rightarrow> None)"

fun chunks :: "nat list \<Rightarrow> byte list \<Rightarrow> (int \<times> byte list) list" where
  "chunks [] w = []"
| "chunks (n # ns) w = (int (min n (length w)), take n w) # chunks ns (drop n w)"

lemma mwrites_ok:
  assumes "mfile_ok h"
  shows "\<exists>h'. mwrites ds h = Some h' \<and> mfile_ok h' \<and> content h' = content h @ concat ds \<and> msize h' = msize h + int (length (concat ds)) \<and>
    DATA_BLOCK_SIZE h' = DATA_BLOCK_SIZE h"
  using assms
proof (induction ds arbitrary: h)
  case (Cons d ds)
  obtain h1 where h1: "mwrite (\<lambda>_. True) d (int (length d)) (Some h) = Some (1, Some h1)" "grew (h\<lparr>total_size := total_size h + int (length d)\<rparr>) h1 d"
    using mwrite_ok [OF Cons.prems, of "length d" "int (length d)" d "\<lambda>_. True"] by force
  then show ?case using Cons.IH [of h1] by (auto simp: grew_def content_def msize_def)
qed simp

lemma mreads_ok: "mfile_ok h \<Longrightarrow> read_ok h \<Longrightarrow> head h \<noteq> [] \<Longrightarrow> mreads ns h = Some (chunks ns (unread h))"
proof (induction ns arbitrary: h)
  case (Cons n ns)
  obtain h1 where h1: "mread (int n) (Some h) = Some (int (length (take n (unread h))), take n (unread h), Some h1)" "reading h n h1"
    using mread_ok [OF Cons.prems] by blast
  then have "head h1 \<noteq> []" by (auto simp: reading_def read_ok_def)
  then show ?case using Cons.IH [of h1] h1 by (simp add: reading_def min.commute)
qed simp

lemma mopen_ok: "mopen fl True af af sz = Some (Some h) \<Longrightarrow> 0 \<le> sz \<Longrightarrow>
    mfile_ok h \<and> content h = [] \<and> msize h = 0 \<and> DATA_BLOCK_SIZE h = (if sz = 0 then 8888 else sz) \<and> ccache h = LF \<and> read_ok h"
  by (auto simp: mopen_def mfile_ok_def content_def msize_def DEFAULT_DATA_BLOCK_SIZE_def read_ok_def split: if_splits)



lemma boundary_le:
  assumes "mfile_ok h" "boundary h pos"
  shows "pos \<le> length (content h)"
proof -
  obtain k where "pos = sum_list (map wcount (take k (head h)))" using assms(2) by (auto simp: boundary_def)
  moreover have "sum_list (map wcount (head h)) = sum_list (map wcount (take k (head h))) + sum_list (map wcount (drop k (head h)))"
    by (metis append_take_drop_id map_append sum_list_append)
  ultimately show ?thesis using content_length [OF assms(1)] by simp
qed

text \<open>A position strictly inside a block is no boundary.\<close>

lemma boundary_inside:
  assumes "i < length (head h)" "pos = sum_list (map wcount (take i (head h))) + r"
    "r < wcount (head h ! i)" "0 < r \<or> i = 0"
  shows "\<not> boundary h pos"
proof
  assume "boundary h pos"
  then obtain k where k: "0 < k" "k < length (head h)" "pos = sum_list (map wcount (take k (head h)))" by (auto simp: boundary_def)
  have "pos < sum_list (map wcount (take (Suc i) (head h)))" using assms by (simp add: take_Suc_conv_app_nth)
  then have "\<not> Suc i \<le> k" using k(3) prefix_mono [of "Suc i" k wcount "head h"] by auto
  then have "sum_list (map wcount (take k (head h))) \<le> sum_list (map wcount (take i (head h)))" by (intro prefix_mono) simp
  then show False using k assms \<open>\<not> Suc i \<le> k\<close> by simp
qed

text \<open>\<open>mseek_pos\<close> positions the reader on every offset inside a block. On an offset where a block
  ends and another one follows the next \<open>mread\<close> returns nothing although bytes remain, and an offset
  beyond the end of the file makes it start again at the beginning.\<close>

theorem mseek_pos_reads:
  assumes "mfile_ok h" "head h \<noteq> []"
  shows "(pos < length (content h) \<longrightarrow> \<not> boundary h pos \<longrightarrow>
      (\<exists>h'. mread (int n) (Some (mseek_pos (int pos) h)) = Some (int (min n (length (content h) - pos)), take n (drop pos (content h)), Some h'))) \<and>
    (boundary h pos \<longrightarrow> (\<exists>h'. mread (int n) (Some (mseek_pos (int pos) h)) = Some (0, [], Some h'))) \<and>
    (length (content h) < pos \<longrightarrow>
      (\<exists>h'. mread (int n) (Some (mseek_pos (int pos) h)) = Some (int (min n (length (content h))), take n (content h), Some h')))"
proof (cases "seek_loop (nat (int pos)) 0 (head (mseek h))")
  case None
  then have "length (content h) < pos"
    using assms content_length [OF assms(1)] by (auto simp: seek_loop_None mseek_head) (auto simp: mseek_def)
  moreover from this have "\<not> boundary h pos" using boundary_le [OF assms(1)] by fastforce
  moreover have "mseek_pos (int pos) h = mseek h" using None by (simp add: mseek_pos_def)
  moreover have "head (mseek h) \<noteq> []" using assms(2) by (simp add: mseek_def)
  ultimately show ?thesis using mseek_ok [OF assms(1)] mread_ok [of "mseek h" n] by (auto simp: min.commute)
next
  case (Some ir)
  obtain i r where ir: "ir = (i, r)" by fastforce
  let ?p = "mseek_pos (int pos) h"
  note F = mseek_pos_found [OF assms(1) Some [unfolded ir]]
  have le: "pos \<le> length (content h)"
    using seek_loop_None [of pos 0 "head (mseek h)"] Some content_length [OF assms(1)] by (simp add: mseek_head not_less)
  have pos: "pos = sum_list (map wcount (take i (head h))) + r" using F(3) by simp
  show ?thesis
  proof (cases "r = wcount (head h ! i)")
    case True
    then have sum: "pos = sum_list (map wcount (take (Suc i) (head h)))" using pos F(1) by (simp add: take_Suc_conv_app_nth)
    have "boundary h pos" if "Suc i < length (head h)" using that sum by (auto simp: boundary_def)
    moreover have "pos = length (content h)" if "\<not> Suc i < length (head h)"
      using that sum content_length [OF assms(1)] by simp
    moreover have "\<exists>h'. mread (int n) (Some ?p) = Some (0, [], Some h')"
      using stuck_read [OF F(7,8)] F(1,10,11,13) True by simp
    ultimately show ?thesis using le by auto
  next
    case False
    then have "read_ok ?p" using F(7,8,10-13) F(1) by (simp add: read_ok_def)
    then have "\<exists>h'. mread (int n) (Some ?p) = Some (int (min n (length (content h) - pos)), take n (drop pos (content h)), Some h')"
      using mread_ok [OF F(5), of n] F(9,14) by (auto simp: min.commute)
    moreover have "\<not> boundary h pos" using boundary_inside [OF F(1) pos] False F(2) F(4) by (cases "i = 0") simp_all
    ultimately show ?thesis using le by auto
  qed
qed

definition two_blocks :: "byte list \<Rightarrow> byte \<Rightarrow> mfile" where
  "two_blocks w c =
    \<lparr>total_size = int (length w) + 1, new_header_size = 0,
     head = [\<lparr>data_len = length w, bdata = w, wcount = length w, rcount = 0\<rparr>,
             \<lparr>data_len = 1, bdata = 10 # tl w, wcount = 1, rcount = 0\<rparr>],
     block_num = 2, write_p = Some 1, read_p = None, is_full = False, is_empty = False,
     DATA_BLOCK_SIZE = int (length w), ccache = c, user_alloc = False, fill = (\<lambda>_. 0)\<rparr>"

lemma two_blocks_ok: "1 < length w \<Longrightarrow> mfile_ok (two_blocks w c) \<and> read_ok (two_blocks w c) \<and>
    content (two_blocks w c) = w @ [LF] \<and> unread (two_blocks w c) = w @ [LF] \<and> ccache (two_blocks w c) = c \<and> head (two_blocks w c) \<noteq> []"
  by (auto simp: two_blocks_def mfile_ok_def block_ok_def read_ok_def content_def unread_def blk_def)

theorem mseek_pos_reads_witness:
  "(\<exists>h'. mread 1 (Some (mseek_pos 1 (two_blocks [97, 98, 99] LF))) = Some (1, [98], Some h')) \<and>
   (\<exists>h'. mread 1 (Some (mseek_pos 3 (two_blocks [97, 98, 99] LF))) = Some (0, [], Some h'))"
proof -
  let ?h = "two_blocks [97, 98, 99] LF"
  have ok: "mfile_ok ?h" "head ?h \<noteq> []" "content ?h = [97, 98, 99, 10]" using two_blocks_ok [of "[97, 98, 99]" LF] by auto
  have b: "boundary ?h n \<longleftrightarrow> n = 3" for n by (auto simp: boundary_def two_blocks_def less_Suc_eq)
  show ?thesis using mseek_pos_reads [OF ok(1,2), of 1 1] mseek_pos_reads [OF ok(1,2), of 3 1] b ok(3) by auto
qed

text \<open>C18: \<open>mread_line\<close> returns the next line with its LF or CR LF when it fits, and leaves the file after it.\<close>

theorem mread_line_correct:
  assumes "mfile_ok h" "read_ok h" "ccache h = LF" "unread h = line @ eol @ rest" "eol = [LF] \<or> eol = [CR, LF]"
    "set line \<inter> {CR, LF, 0} = {}" "int (length line) + 2 < n" "nat n \<le> length buf"
  shows "\<exists>buf' h'. mread_line buf n (Some h) = Some (int (length (line @ eol)), buf', Some h') \<and>
    take (length (line @ eol)) buf' = line @ eol \<and> length buf' = length buf \<and>
    mfile_ok h' \<and> read_ok h' \<and> ccache h' = LF \<and> unread h' = rest \<and> content h' = content h"
proof -
  let ?buf = "buf[nat (n - 1) := 0]" let ?d = "length line"
  have l: "length line + 3 \<le> length buf" using assms(7,8) by linarith
  obtain h1 where h1: "line_loop (n - 2) 0 ?buf h = line_loop (n - 2 - int ?d) ?d (line @ drop ?d ?buf) h1" "mfile_ok h1" "read_ok h1"
    "ccache h1 = LF" "unread h1 = eol @ rest" "content h1 = content h"
    using line_steps [OF assms(1-4,6), of 0 ?buf "n - 2"] assms(7) l by auto
  have e: "length eol \<le> 2" using assms(5) by auto
  obtain h2 where h2: "line_loop (n - 2 - int ?d) ?d (line @ drop ?d ?buf) h1 = Some (int (?d + length eol),
      take ?d (line @ drop ?d ?buf) @ eol @ drop (?d + length eol) (line @ drop ?d ?buf), h2)"
    "mfile_ok h2" "read_ok h2" "ccache h2 = LF" "unread h2 = rest" "content h2 = content h1"
    using line_eol [OF h1(2-5) assms(5), of ?d "line @ drop ?d ?buf" "n - 2 - int ?d"] e l by auto
  have n: "\<not> n \<le> 0" "n - 2 \<noteq> 0" "nat (n - 1) < length buf" using assms(7,8) by auto
  show ?thesis
    by (rule exI [of _ "line @ eol @ drop (?d + length eol) ?buf"], rule exI [of _ h2])
      (use n h1 h2 e l in \<open>simp add: mread_line_def add.commute\<close>)
qed

theorem mread_line_correct_witness:
  "\<exists>buf' h'. mread_line (replicate 8 1) 8 (Some (two_blocks [97, 98, 13] LF)) = Some (4, buf', Some h') \<and>
    take (length ([97, 98] @ [13, 10 :: byte])) buf' = [97, 98, 13, 10] \<and> unread h' = []"
  using mread_line_correct [of "two_blocks [97, 98, 13] LF" "[97, 98]" "[13, 10]" "[]" 8 "replicate 8 1"]
    two_blocks_ok [of "[97, 98, 13]" LF] by auto

text \<open>After a carriage return that no newline follows, \<open>mread_line\<close> has the next character in its
  cache and puts a carriage return behind it: from then on every character of the file is
  returned as a line of its own with a carriage return that is not in the file.\<close>

theorem mread_line_lone_cr:
  assumes "mfile_ok h" "read_ok h" "ccache h = c" "c \<notin> {CR, LF, 0}" "unread h = d # u" "d \<notin> {LF, 0}" "3 < n" "nat n \<le> length buf"
  shows "\<exists>buf' h'. mread_line buf n (Some h) = Some (2, buf', Some h') \<and> take 2 buf' = [c, CR] \<and>
    mfile_ok h' \<and> read_ok h' \<and> ccache h' = d \<and> unread h' = u"
proof -
  let ?buf = "buf[nat (n - 1) := 0]"
  let ?h = "h\<lparr>ccache := CR\<rparr>"
  have ok: "mfile_ok ?h" "read_ok ?h" "unread ?h = d # u"
    using assms(1,2,5) by simp_all
  obtain h2 where h2: "mgetc ?h = Some (d, h2)" "reading ?h 1 h2" using mgetc_ok(1) [OF ok] by blast
  have l: "buf \<noteq> []" "1 < length buf" "nat (n - 1) < length buf" using assms(7,8) by auto
  have "line_loop (n - 2) 0 ?buf h = line_loop (n - 3) 1 (?buf[0 := c]) ?h"
    using assms(3,4,7) l by (subst line_loop.simps) (simp add: line_char_def)
  moreover have "line_loop (n - 3) 1 (?buf[0 := c]) ?h = Some (2, ?buf[0 := c, 1 := CR], h2\<lparr>ccache := d\<rparr>)"
    using h2(1) assms(6) l by (subst line_loop.simps) (simp add: line_char_def Let_def)
  moreover have "take 2 (?buf[0 := c, 1 := CR]) = [c, CR]"
    using l take2_upd [of ?buf c CR] by simp
  moreover have "mfile_ok (h2\<lparr>ccache := d\<rparr>)" "read_ok (h2\<lparr>ccache := d\<rparr>)" "unread (h2\<lparr>ccache := d\<rparr>) = u"
    using h2(2) ok(3) by (simp_all add: reading_def)
  ultimately show ?thesis using assms(7) l by (simp add: mread_line_def)
qed

theorem mread_line_lone_cr_witness:
  "\<exists>buf' h'. mread_line (replicate 8 1) 8 (Some (two_blocks [97, 98, 99] 120)) = Some (2, buf', Some h') \<and>
    take 2 buf' = [120, 13] \<and> ccache h' = 97 \<and> unread h' = [98, 99, 10]"
  using mread_line_lone_cr [of "two_blocks [97, 98, 99] 120" 120 97 "[98, 99, 10]" 8 "replicate 8 1"]
    two_blocks_ok [of "[97, 98, 99]" 120] by auto

end
