(* ===== verification/Queue_Cells.thy ===== *)
theory Queue_Cells
  imports Prelude
begin

text \<open>
  The memory behind the linked structures of \<^verbatim>\<open>c/libgs/libmfile/queue.h\<close>: heads and elements with one or
  two pointer fields, and when they represent lists. The four kinds of the header differ in whether a
  head knows the last element (\<open>lt\<close>) and whether elements have a back pointer (\<open>bk\<close>), so that one
  representation with two flags and one lemma for each kind of change serve all of them.
\<close>

section \<open>Cells\<close>

text \<open>A pointer to a pointer field is the place it is in: the first field of a head (\<open>slh_first\<close>, \<open>stqh_first\<close>,
  \<open>lh_first\<close>, \<open>tqh_first\<close>) or of an element (\<open>sle_next\<close>, \<open>stqe_next\<close>, \<open>le_next\<close>, \<open>tqe_next\<close>). The second field, where there is one,
  is a pointer of this kind: \<open>stqh_last\<close>, \<open>tqh_last\<close>, \<open>le_prev\<close>, \<open>tqe_prev\<close>. Heads and elements are numbered; \<open>None\<close> is the
  null pointer.\<close>

datatype anchor = Head nat | Elem nat

record cells =
  next_at :: "anchor \<Rightarrow> nat option"
  link_at :: "anchor \<Rightarrow> anchor"

text \<open>\<open>put_next c v s\<close> is the assignment \<open>*c = v\<close>, \<open>put_link c a s\<close> one to the second field.\<close>

definition put_next :: "anchor \<Rightarrow> nat option \<Rightarrow> cells \<Rightarrow> cells" where
  "put_next c v s = s\<lparr>next_at := (next_at s)(c := v)\<rparr>"

definition put_link :: "anchor \<Rightarrow> anchor \<Rightarrow> cells \<Rightarrow> cells" where
  "put_link c a s = s\<lparr>link_at := (link_at s)(c := a)\<rparr>"

lemma put_simps [simp]:
  "next_at (put_next c v s) = (next_at s)(c := v)" "link_at (put_next c v s) = link_at s"
  "next_at (put_link c a s) = next_at s" "link_at (put_link c a s) = (link_at s)(c := a)"
  by (simp_all add: put_next_def put_link_def)

section \<open>Chains\<close>

fun chain_from :: "cells \<Rightarrow> anchor \<Rightarrow> nat list \<Rightarrow> bool" where
  "chain_from s a [] = True"
| "chain_from s a (x # xs) \<longleftrightarrow> next_at s a = Some x \<and> chain_from s (Elem x) xs"

fun backs_from :: "cells \<Rightarrow> anchor \<Rightarrow> nat list \<Rightarrow> bool" where
  "backs_from s a [] = True"
| "backs_from s a (x # xs) \<longleftrightarrow> link_at s (Elem x) = a \<and> backs_from s (Elem x) xs"

fun end_of :: "anchor \<Rightarrow> nat list \<Rightarrow> anchor" where
  "end_of a [] = a"
| "end_of a (x # xs) = end_of (Elem x) xs"

text \<open>The places a chain is read from.\<close>

fun inner :: "anchor \<Rightarrow> nat list \<Rightarrow> anchor set" where
  "inner a [] = {}"
| "inner a (x # xs) = insert a (inner (Elem x) xs)"

lemma end_of_append [simp]: "end_of a (xs @ ys) = end_of (end_of a xs) ys"
  by (induction xs arbitrary: a) simp_all

lemma chain_append [simp]: "chain_from s a (xs @ ys) \<longleftrightarrow> chain_from s a xs \<and> chain_from s (end_of a xs) ys"
  by (induction xs arbitrary: a) simp_all

lemma backs_append [simp]: "backs_from s a (xs @ ys) \<longleftrightarrow> backs_from s a xs \<and> backs_from s (end_of a xs) ys"
  by (induction xs arbitrary: a) simp_all

lemma end_of_in: "end_of a xs = a \<or> (\<exists>x \<in> set xs. end_of a xs = Elem x)"
  by (induction xs arbitrary: a) auto

lemma end_of_last: "end_of a xs = (if xs = [] then a else Elem (last xs))"
  by (induction xs arbitrary: a) auto

lemma inner_sub: "inner a xs \<subseteq> insert a (Elem ` set xs)"
  by (induction xs arbitrary: a) auto

lemma end_not_inner: "distinct xs \<Longrightarrow> a \<notin> Elem ` set xs \<Longrightarrow> end_of a xs \<notin> inner a xs"
proof (induction xs arbitrary: a)
  case (Cons x xs)
  have "end_of (Elem x) xs \<noteq> a" using end_of_in [of "Elem x" xs] Cons.prems by auto
  then show ?case using Cons by auto
qed simp

lemma chain_from_cong: "(\<And>b. b \<in> inner a xs \<Longrightarrow> next_at s' b = next_at s b) \<Longrightarrow> chain_from s' a xs \<longleftrightarrow> chain_from s a xs"
  by (induction xs arbitrary: a) auto

lemma backs_cong: "(\<And>x. x \<in> set xs \<Longrightarrow> link_at s' (Elem x) = link_at s (Elem x)) \<Longrightarrow> backs_from s' a xs \<longleftrightarrow> backs_from s a xs"
  by (induction xs arbitrary: a) auto

section \<open>Representation\<close>

definition rep :: "bool \<Rightarrow> bool \<Rightarrow> cells \<Rightarrow> nat \<Rightarrow> nat list \<Rightarrow> bool" where
  "rep lt bk s h xs \<longleftrightarrow> distinct xs \<and> chain_from s (Head h) xs \<and> next_at s (end_of (Head h) xs) = None \<and>
    (lt \<longrightarrow> link_at s (Head h) = end_of (Head h) xs) \<and> (bk \<longrightarrow> backs_from s (Head h) xs)"

lemma rep_cong:
  assumes "rep lt bk s h xs" "\<And>a. a = Head h \<or> a \<in> Elem ` set xs \<Longrightarrow> next_at s' a = next_at s a \<and> link_at s' a = link_at s a"
  shows "rep lt bk s' h xs"
proof -
  have "chain_from s' (Head h) xs = chain_from s (Head h) xs" using inner_sub [of "Head h" xs] assms(2) by (intro chain_from_cong) auto
  moreover have "backs_from s' (Head h) xs = backs_from s (Head h) xs" using assms(2) by (intro backs_cong) auto
  moreover have "next_at s' (end_of (Head h) xs) = next_at s (end_of (Head h) xs)" using end_of_in [of "Head h" xs] assms(2) by auto
  ultimately show ?thesis using assms by (simp add: rep_def)
qed

lemma rep_next:
  assumes "rep lt bk s h (xs @ ys)"
  shows "next_at s (end_of (Head h) xs) = (case ys of [] \<Rightarrow> None | y # _ \<Rightarrow> Some y)"
  using assms by (cases ys) (auto simp: rep_def)

text \<open>Linking \<open>e\<close> in behind the place \<open>c\<close>.\<close>

lemma rep_insert:
  assumes r: "rep lt bk s h (xs @ ys)" and e: "e \<notin> set (xs @ ys)" and c: "c = end_of (Head h) xs"
    and n: "next_at s' = (next_at s)(Elem e := next_at s c, c := Some e)"
    and t: "lt \<Longrightarrow> link_at s' (Head h) = (if ys = [] then Elem e else link_at s (Head h))"
    and b: "bk \<Longrightarrow> link_at s' (Elem e) = c" "bk \<Longrightarrow> ys \<noteq> [] \<Longrightarrow> link_at s' (Elem (hd ys)) = Elem e"
    and u: "\<And>x. bk \<Longrightarrow> x \<in> set xs \<union> set (tl ys) \<Longrightarrow> link_at s' (Elem x) = link_at s (Elem x)"
  shows "rep lt bk s' h (xs @ e # ys)"
proof -
  have d: "distinct xs" "distinct ys" "set xs \<inter> set ys = {}" using r by (auto simp: rep_def)
  have ce: "c \<noteq> Elem e" using end_of_in [of "Head h" xs] e c by auto
  have cy: "c \<notin> Elem ` set ys" using end_of_in [of "Head h" xs] d c by auto
  have c1: "c \<notin> inner (Head h) xs" unfolding c by (rule end_not_inner) (use d in auto)
  have e1: "Elem e \<notin> inner (Head h) xs" using inner_sub [of "Head h" xs] e by auto
  have "chain_from s' (Head h) xs" using r n c1 e1 by (subst chain_from_cong [of _ _ _ s]) (auto simp: rep_def)
  moreover have "chain_from s' (Elem e) ys \<and> next_at s' (end_of (Elem e) ys) = None"
  proof (cases ys)
    case Nil
    then show ?thesis using rep_next [OF r] n c ce by simp
  next
    case (Cons y zs)
    have "inner (Elem y) zs \<subseteq> Elem ` set ys" using inner_sub [of "Elem y" zs] Cons by auto
    then have "chain_from s' (Elem y) zs = chain_from s (Elem y) zs" using n e cy by (intro chain_from_cong) auto
    moreover have "end_of (Elem y) zs \<in> Elem ` set ys" using end_of_in [of "Elem y" zs] Cons by auto
    then have "next_at s' (end_of (Elem y) zs) = next_at s (end_of (Elem y) zs)" using n e cy by auto
    ultimately show ?thesis using r n c ce Cons by (auto simp: rep_def)
  qed
  moreover have "lt \<longrightarrow> link_at s' (Head h) = end_of (Elem e) ys"
    using t r by (cases ys) (auto simp: rep_def)
  moreover have "backs_from s' (Head h) (xs @ e # ys)" if bk
  proof -
    have "backs_from s' (Head h) xs = backs_from s (Head h) xs" using u [OF that] by (intro backs_cong) auto
    moreover have "backs_from s' (Elem e) ys"
    proof (cases ys)
      case (Cons y zs)
      have "backs_from s' (Elem y) zs = backs_from s (Elem y) zs" using u [OF that] Cons by (intro backs_cong) auto
      then show ?thesis using r b(2) [OF that] that Cons by (auto simp: rep_def)
    qed simp
    ultimately show ?thesis using r b(1) [OF that] that c by (auto simp: rep_def)
  qed
  ultimately show ?thesis using e d n c ce by (auto simp: rep_def)
qed

text \<open>Taking \<open>e\<close> out.\<close>

lemma rep_remove:
  assumes r: "rep lt bk s h (xs @ e # ys)" and c: "c = end_of (Head h) xs"
    and n: "next_at s' = (next_at s)(c := next_at s (Elem e))"
    and t: "lt \<Longrightarrow> link_at s' (Head h) = (if ys = [] then c else link_at s (Head h))"
    and b: "bk \<Longrightarrow> ys \<noteq> [] \<Longrightarrow> link_at s' (Elem (hd ys)) = c"
    and u: "\<And>x. bk \<Longrightarrow> x \<in> set xs \<union> set (tl ys) \<Longrightarrow> link_at s' (Elem x) = link_at s (Elem x)"
  shows "rep lt bk s' h (xs @ ys)"
proof -
  have d: "distinct xs" "distinct ys" "set xs \<inter> set ys = {}" "e \<notin> set xs" "e \<notin> set ys" using r by (auto simp: rep_def)
  have ce: "c \<noteq> Elem e" using end_of_in [of "Head h" xs] d c by auto
  have cy: "c \<notin> Elem ` set ys" using end_of_in [of "Head h" xs] d c by auto
  have c1: "c \<notin> inner (Head h) xs" unfolding c by (rule end_not_inner) (use d in auto)
  have "chain_from s' (Head h) xs" using r n c1 by (subst chain_from_cong [of _ _ _ s]) (auto simp: rep_def)
  moreover have "chain_from s' c ys \<and> next_at s' (end_of c ys) = None"
  proof (cases ys)
    case Nil
    then show ?thesis using r n c by (simp add: rep_def)
  next
    case (Cons y zs)
    have "inner (Elem y) zs \<subseteq> Elem ` set ys" using inner_sub [of "Elem y" zs] Cons by auto
    then have "chain_from s' (Elem y) zs = chain_from s (Elem y) zs" using n cy by (intro chain_from_cong) auto
    moreover have "end_of (Elem y) zs \<in> Elem ` set ys" using end_of_in [of "Elem y" zs] Cons by auto
    then have "next_at s' (end_of (Elem y) zs) = next_at s (end_of (Elem y) zs)" using n cy by auto
    ultimately show ?thesis using r n c Cons by (auto simp: rep_def)
  qed
  moreover have "lt \<longrightarrow> link_at s' (Head h) = end_of c ys"
    using t r by (cases ys) (auto simp: rep_def)
  moreover have "backs_from s' (Head h) (xs @ ys)" if bk
  proof -
    have "backs_from s' (Head h) xs = backs_from s (Head h) xs" using u [OF that] by (intro backs_cong) auto
    moreover have "backs_from s' c ys"
    proof (cases ys)
      case (Cons y zs)
      have "backs_from s' (Elem y) zs = backs_from s (Elem y) zs" using u [OF that] Cons by (intro backs_cong) auto
      then show ?thesis using r b [OF that] that Cons by (auto simp: rep_def)
    qed simp
    ultimately show ?thesis using r that c by (auto simp: rep_def)
  qed
  ultimately show ?thesis using d c by (auto simp: rep_def)
qed

section \<open>Several lists\<close>

text \<open>\<open>q\<close> gives the lists of the heads that have been initialised; an element is in at most one.\<close>

type_synonym lists = "nat \<Rightarrow> nat list option"

definition fam :: "bool \<Rightarrow> bool \<Rightarrow> cells \<Rightarrow> lists \<Rightarrow> bool" where
  "fam lt bk s q \<longleftrightarrow> (\<forall>h xs. q h = Some xs \<longrightarrow> rep lt bk s h xs) \<and>
    (\<forall>h k xs ys. q h = Some xs \<longrightarrow> q k = Some ys \<longrightarrow> h \<noteq> k \<longrightarrow> set xs \<inter> set ys = {})"

definition fresh :: "nat \<Rightarrow> lists \<Rightarrow> bool" where
  "fresh e q \<longleftrightarrow> (\<forall>h xs. q h = Some xs \<longrightarrow> e \<notin> set xs)"

lemma famD:
  assumes "fam lt bk s q"
  shows "q h = Some xs \<Longrightarrow> rep lt bk s h xs" "q h = Some xs \<Longrightarrow> q k = Some ys \<Longrightarrow> h \<noteq> k \<Longrightarrow> set xs \<inter> set ys = {}"
  using assms unfolding fam_def by blast+

lemma fam_update:
  assumes f: "fam lt bk s q" and h: "q h = Some xs \<or> q h = None \<and> xs = []" and r: "rep lt bk s' h xs'"
    and e: "\<And>e. e \<in> set xs' - set xs \<Longrightarrow> fresh e q"
    and a: "\<And>a. a \<noteq> Head h \<Longrightarrow> a \<notin> Elem ` (set xs \<union> set xs') \<Longrightarrow> next_at s' a = next_at s a \<and> link_at s' a = link_at s a"
  shows "fam lt bk s' (q(h \<mapsto> xs'))"
proof -
  have dis: "(set xs \<union> set xs') \<inter> set ys = {}" if "q k = Some ys" "k \<noteq> h" for k ys
  proof -
    have "set xs \<inter> set ys = {}" using h famD(2) [OF f _ that(1), of h xs] that(2) by auto
    moreover have "x \<notin> set ys" if "x \<in> set xs' - set xs" for x using e [OF that] \<open>q k = Some ys\<close> by (simp add: fresh_def)
    ultimately show ?thesis by blast
  qed
  have "rep lt bk s' k ys" if "q k = Some ys" "k \<noteq> h" for k ys
  proof (rule rep_cong)
    show "rep lt bk s k ys" using famD(1) [OF f that(1)] .
    fix b assume "b = Head k \<or> b \<in> Elem ` set ys"
    then show "next_at s' b = next_at s b \<and> link_at s' b = link_at s b" using dis [OF that] that(2) by (intro a) auto
  qed
  moreover have "set ys \<inter> set zs = {}" if "q j = Some ys" "q k = Some zs" "j \<noteq> k" for j k ys zs
    using famD(2) [OF f that] .
  moreover have "x \<notin> set ys" if "q k = Some ys" "k \<noteq> h" "x \<in> set xs'" for k ys x
    using dis [OF that(1,2)] that(3) by blast
  ultimately show ?thesis using r unfolding fam_def
    by (auto split: if_splits)
qed

lemma freshD: "fresh e q \<Longrightarrow> q h = Some xs \<Longrightarrow> e \<notin> set xs"
  by (simp add: fresh_def)

lemma fam_insert:
  assumes f: "fam lt bk s q" and q: "q h = Some (xs @ ys)" and e: "fresh e q" and c: "c = end_of (Head h) xs"
    and n: "next_at s' = (next_at s)(Elem e := next_at s c, c := Some e)"
    and t: "lt \<Longrightarrow> link_at s' (Head h) = (if ys = [] then Elem e else link_at s (Head h))"
    and b: "bk \<Longrightarrow> link_at s' (Elem e) = c" "bk \<Longrightarrow> ys \<noteq> [] \<Longrightarrow> link_at s' (Elem (hd ys)) = Elem e"
    and u: "\<And>a. a \<noteq> Head h \<Longrightarrow> a \<noteq> Elem e \<Longrightarrow> ys = [] \<or> a \<noteq> Elem (hd ys) \<Longrightarrow> link_at s' a = link_at s a"
  shows "fam lt bk s' (q(h \<mapsto> xs @ e # ys))"
proof (rule fam_update [OF f])
  have r: "rep lt bk s h (xs @ ys)" using famD(1) [OF f q] .
  have n': "e \<notin> set (xs @ ys)" using freshD [OF e q] .
  have d: "hd ys \<notin> set xs \<union> set (tl ys)" if "ys \<noteq> []" using r that by (cases ys) (auto simp: rep_def)
  show "rep lt bk s' h (xs @ e # ys)"
  proof (rule rep_insert [OF r n' c n t b])
    fix x assume x: "x \<in> set xs \<union> set (tl ys)"
    then have "x \<noteq> e" using n' by (cases ys) auto
    moreover have "ys = [] \<or> x \<noteq> hd ys" using d x by auto
    ultimately show "link_at s' (Elem x) = link_at s (Elem x)" by (intro u) auto
  qed
  show "q h = Some (xs @ ys) \<or> q h = None \<and> xs @ ys = []" using q by simp
  fix a assume a: "a \<noteq> Head h" "a \<notin> Elem ` (set (xs @ ys) \<union> set (xs @ e # ys))"
  then have "a \<noteq> c" using end_of_in [of "Head h" xs] c by auto
  then show "next_at s' a = next_at s a \<and> link_at s' a = link_at s a" using a n u [of a] by (cases ys) auto
qed (use e in auto)

lemma fam_remove:
  assumes f: "fam lt bk s q" and q: "q h = Some (xs @ e # ys)" and c: "c = end_of (Head h) xs"
    and n: "next_at s' = (next_at s)(c := next_at s (Elem e))"
    and t: "lt \<Longrightarrow> link_at s' (Head h) = (if ys = [] then c else link_at s (Head h))"
    and b: "bk \<Longrightarrow> ys \<noteq> [] \<Longrightarrow> link_at s' (Elem (hd ys)) = c"
    and u: "\<And>a. a \<noteq> Head h \<Longrightarrow> ys = [] \<or> a \<noteq> Elem (hd ys) \<Longrightarrow> link_at s' a = link_at s a"
  shows "fam lt bk s' (q(h \<mapsto> xs @ ys))"
proof (rule fam_update [OF f])
  have r: "rep lt bk s h (xs @ e # ys)" using famD(1) [OF f q] .
  have d: "hd ys \<notin> set xs \<union> set (tl ys)" if "ys \<noteq> []" using r that by (cases ys) (auto simp: rep_def)
  show "rep lt bk s' h (xs @ ys)"
  proof (rule rep_remove [OF r c n t b])
    fix x assume x: "x \<in> set xs \<union> set (tl ys)"
    then have "ys = [] \<or> x \<noteq> hd ys" using d by auto
    then show "link_at s' (Elem x) = link_at s (Elem x)" by (intro u) auto
  qed
  show "q h = Some (xs @ e # ys) \<or> q h = None \<and> xs @ e # ys = []" using q by simp
  fix a assume a: "a \<noteq> Head h" "a \<notin> Elem ` (set (xs @ e # ys) \<union> set (xs @ ys))"
  then have "a \<noteq> c" using end_of_in [of "Head h" xs] c by auto
  then show "next_at s' a = next_at s a \<and> link_at s' a = link_at s a" using a n u [of a] by (cases ys) auto
qed auto

lemma fam_init:
  assumes f: "fam lt bk s q" and n: "next_at s' = (next_at s)(Head h := None)"
    and t: "lt \<Longrightarrow> link_at s' (Head h) = Head h" and u: "\<And>a. a \<noteq> Head h \<Longrightarrow> link_at s' a = link_at s a"
  shows "fam lt bk s' (q(h \<mapsto> []))"
proof (rule fam_update [OF f])
  show "q h = Some (case q h of None \<Rightarrow> [] | Some xs \<Rightarrow> xs) \<or> q h = None \<and> (case q h of None \<Rightarrow> [] | Some xs \<Rightarrow> xs) = []"
    by (cases "q h") simp_all
  show "rep lt bk s' h []" using n t by (simp add: rep_def)
qed (use n u in auto)

text \<open>Appending the list of one head to that of another and initialising the first.\<close>

lemma fam_concat:
  assumes f: "fam lt bk s q" and q: "q h = Some xs" "q k = Some (y # ys)" "h \<noteq> k"
    and n: "next_at s' = (next_at s)(end_of (Head h) xs := Some y, Head k := None)"
    and t: "lt \<Longrightarrow> link_at s' (Head h) = end_of (Elem y) ys" "link_at s' (Head k) = Head k"
    and b: "bk \<Longrightarrow> link_at s' (Elem y) = end_of (Head h) xs"
    and u: "\<And>a. a \<noteq> Head h \<Longrightarrow> a \<noteq> Head k \<Longrightarrow> a \<noteq> Elem y \<Longrightarrow> link_at s' a = link_at s a"
  shows "fam lt bk s' (q(h \<mapsto> xs @ y # ys, k \<mapsto> []))"
proof -
  let ?c = "end_of (Head h) xs" let ?s = "put_link (Head k) (Head k) (put_next (Head k) None s)"
  let ?q = "q(k \<mapsto> [])"
  have r: "rep lt bk s h xs" "rep lt bk s k (y # ys)" using famD(1) [OF f] q by blast+
  have d: "set xs \<inter> set (y # ys) = {}" using famD(2) [OF f q] .
  have f2: "fam lt bk ?s ?q" by (rule fam_init [OF f]) simp_all
  have ck: "?c \<noteq> Head k" "?c \<notin> Elem ` set (y # ys)" using end_of_in [of "Head h" xs] q(3) d by auto
  have i: "inner (Head h) xs \<subseteq> insert (Head h) (Elem ` set xs)" "?c \<notin> inner (Head h) xs"
    using inner_sub end_not_inner [of xs "Head h"] r by (auto simp: rep_def)
  have j: "inner (Elem y) ys \<subseteq> Elem ` set (y # ys)" "end_of (Elem y) ys \<in> Elem ` set (y # ys)"
    using inner_sub [of "Elem y" ys] end_of_in [of "Elem y" ys] by auto
  have c1: "chain_from s' (Head h) xs = chain_from s (Head h) xs" using i n q(3) by (intro chain_from_cong) auto
  have c2: "chain_from s' (Elem y) ys = chain_from s (Elem y) ys" using j n ck by (intro chain_from_cong) auto
  have e2: "next_at s' (end_of (Elem y) ys) = next_at s (end_of (Elem y) ys)" using j n ck by auto
  have ux: "link_at s' (Elem x) = link_at s (Elem x)" if "x \<noteq> y" for x using that by (intro u) auto
  have b1: "backs_from s' (Head h) xs = backs_from s (Head h) xs" if bk
    by (intro backs_cong ux) (use d in auto)
  have yy: "y \<notin> set ys" using r(2) by (simp add: rep_def)
  have b2: "backs_from s' (Elem y) ys = backs_from s (Elem y) ys" if bk
    by (intro backs_cong ux) (use yy in auto)
  have cy: "next_at s' ?c = Some y" using n ck by simp
  have "rep lt bk s' h (xs @ y # ys)"
    using r d c1 c2 e2 b1 b2 t(1) b yy cy by (auto simp: rep_def)
  moreover have "q(h \<mapsto> xs @ y # ys, k \<mapsto> []) = ?q(h \<mapsto> xs @ y # ys)" using q(3) by (simp add: fun_upd_twist)
  moreover have "fam lt bk s' (?q(h \<mapsto> xs @ y # ys))"
  proof (rule fam_update [OF f2])
    show "?q h = Some xs \<or> ?q h = None \<and> xs = []" using q by simp
    show "rep lt bk s' h (xs @ y # ys)" by fact
    fix e assume "e \<in> set (xs @ y # ys) - set xs"
    then show "fresh e ?q" using famD(2) [OF f _ q(2)] by (auto simp: fresh_def)
  next
    fix a assume a: "a \<noteq> Head h" "a \<notin> Elem ` (set xs \<union> set (xs @ y # ys))"
    then have "a \<noteq> ?c" using end_of_in [of "Head h" xs] by auto
    then show "next_at s' a = next_at ?s a \<and> link_at s' a = link_at ?s a" using a n u [of a] t(2)
      by (cases "a = Head k") auto
  qed
  ultimately show ?thesis by simp
qed

end
