(* ===== verification/Queue_Spec.thy ===== *)
theory Queue_Spec
  imports Queue_Cells
begin

text \<open>
  What the linked structures of \<^verbatim>\<open>queue.h\<close> promise: operations on lists, and the interfaces the four kinds
  provide as locales. A kind executes the operations it has (\<open>list_machine\<close>); it can be traversed
  (\<open>list_kind\<close>), and some kinds know the last element (\<open>tail_kind\<close>) or go backwards (\<open>reversible_kind\<close>). What
  follows for histories, loops and clearing a list is proved once, for every kind.
\<close>

section \<open>Operations on lists\<close>

datatype qop =
  Init nat | Insert_head nat nat | Insert_tail nat nat | Insert_after nat nat nat | Insert_before nat nat nat
| Remove nat nat | Remove_head nat | Concat nat nat

fun ins_after :: "nat \<Rightarrow> nat \<Rightarrow> nat list \<Rightarrow> nat list" where
  "ins_after l e [] = []"
| "ins_after l e (x # xs) = (if x = l then x # e # xs else x # ins_after l e xs)"

fun ins_before :: "nat \<Rightarrow> nat \<Rightarrow> nat list \<Rightarrow> nat list" where
  "ins_before l e [] = []"
| "ins_before l e (x # xs) = (if x = l then e # x # xs else x # ins_before l e xs)"

fun spec :: "qop \<Rightarrow> lists \<Rightarrow> lists" where
  "spec (Init h) q = q(h \<mapsto> [])"
| "spec (Insert_head h e) q = q(h \<mapsto> e # the (q h))"
| "spec (Insert_tail h e) q = q(h \<mapsto> the (q h) @ [e])"
| "spec (Insert_after h l e) q = q(h \<mapsto> ins_after l e (the (q h)))"
| "spec (Insert_before h l e) q = q(h \<mapsto> ins_before l e (the (q h)))"
| "spec (Remove h e) q = q(h \<mapsto> remove1 e (the (q h)))"
| "spec (Remove_head h) q = q(h \<mapsto> tl (the (q h)))"
| "spec (Concat h k) q = q(h \<mapsto> the (q h) @ the (q k), k \<mapsto> [])"

text \<open>What a caller has to respect: heads are initialised, new elements are in no list, and the elements
  that are named are in the list.\<close>

definition member_of :: "nat \<Rightarrow> nat \<Rightarrow> lists \<Rightarrow> bool" where
  "member_of h e q \<longleftrightarrow> (case q h of None \<Rightarrow> False | Some xs \<Rightarrow> e \<in> set xs)"

fun legal :: "qop \<Rightarrow> lists \<Rightarrow> bool" where
  "legal (Init h) q \<longleftrightarrow> True"
| "legal (Insert_head h e) q \<longleftrightarrow> q h \<noteq> None \<and> fresh e q"
| "legal (Insert_tail h e) q \<longleftrightarrow> q h \<noteq> None \<and> fresh e q"
| "legal (Insert_after h l e) q \<longleftrightarrow> member_of h l q \<and> fresh e q"
| "legal (Insert_before h l e) q \<longleftrightarrow> member_of h l q \<and> fresh e q"
| "legal (Remove h e) q \<longleftrightarrow> member_of h e q"
| "legal (Remove_head h) q \<longleftrightarrow> q h \<noteq> None \<and> q h \<noteq> Some []"
| "legal (Concat h k) q \<longleftrightarrow> q h \<noteq> None \<and> q k \<noteq> None \<and> h \<noteq> k"

fun specs :: "qop list \<Rightarrow> lists \<Rightarrow> lists" where
  "specs [] q = q"
| "specs (p # ps) q = specs ps (spec p q)"

fun all_legal :: "qop list \<Rightarrow> lists \<Rightarrow> bool" where
  "all_legal [] q = True"
| "all_legal (p # ps) q \<longleftrightarrow> legal p q \<and> all_legal ps (spec p q)"

lemma ins_after_split: "l \<notin> set xs \<Longrightarrow> ins_after l e (xs @ l # ys) = xs @ l # e # ys"
  by (induction xs) auto

lemma ins_before_split: "l \<notin> set xs \<Longrightarrow> ins_before l e (xs @ l # ys) = xs @ e # l # ys"
  by (induction xs) auto

lemma member_ofE:
  assumes "member_of h e q" "fam lt bk s q"
  obtains xs ys where "q h = Some (xs @ e # ys)" "e \<notin> set xs" "e \<notin> set ys" "rep lt bk s h (xs @ e # ys)"
proof -
  obtain zs where zs: "q h = Some zs" "e \<in> set zs" using assms(1) by (auto simp: member_of_def split: option.splits)
  obtain xs ys where "zs = xs @ e # ys" using zs(2) by (auto simp: in_set_conv_decomp)
  moreover have "rep lt bk s h zs" using famD(1) [OF assms(2) zs(1)] .
  ultimately show thesis using that [of xs ys] zs(1) by (auto simp: rep_def)
qed

section \<open>Loops\<close>

text \<open>The loops \<open>FOREACH\<close> and \<open>FOREACH_SAFE\<close> with the elements they visit or the effect of a body; \<open>None\<close> is a
  loop that does not end.\<close>

partial_function (option) foreach :: "(nat \<Rightarrow> nat option) \<Rightarrow> nat option \<Rightarrow> nat list option" where
  "foreach nxt var = (case var of None \<Rightarrow> Some [] | Some e \<Rightarrow> do { es \<leftarrow> foreach nxt (nxt e); Some (e # es) })"

partial_function (option) foreach_safe ::
  "(cells \<Rightarrow> nat \<Rightarrow> nat option) \<Rightarrow> (nat \<Rightarrow> cells \<Rightarrow> cells option) \<Rightarrow> nat option \<Rightarrow> cells \<Rightarrow> cells option" where
  "foreach_safe nxt body var s = (case var of
     None \<Rightarrow> Some s
   | Some e \<Rightarrow> (let tvar = nxt s e in do { s' \<leftarrow> body e s; foreach_safe nxt body tvar s' }))"

section \<open>Interfaces\<close>

locale list_machine =
  fixes R :: "cells \<Rightarrow> lists \<Rightarrow> bool"
    and supports :: "qop \<Rightarrow> bool"
    and exec :: "qop \<Rightarrow> cells \<Rightarrow> cells option"
  assumes exec_step: "R s q \<Longrightarrow> supports p \<Longrightarrow> legal p q \<Longrightarrow> \<exists>s'. exec p s = Some s' \<and> R s' (spec p q)"
begin

fun execs :: "qop list \<Rightarrow> cells \<Rightarrow> cells option" where
  "execs [] s = Some s"
| "execs (p # ps) s = Option.bind (exec p s) (execs ps)"

lemma history: "R s q \<Longrightarrow> \<forall>p \<in> set ps. supports p \<Longrightarrow> all_legal ps q \<Longrightarrow> \<exists>s'. execs ps s = Some s' \<and> R s' (specs ps q)"
proof (induction ps arbitrary: s q)
  case (Cons p ps)
  then obtain s1 where "exec p s = Some s1" "R s1 (spec p q)" using exec_step [of s q p] by auto
  then show ?case using Cons.IH [of s1 "spec p q"] Cons.prems by auto
qed simp

end

locale list_kind = list_machine R supports exec
  for R :: "cells \<Rightarrow> lists \<Rightarrow> bool" and supports :: "qop \<Rightarrow> bool" and exec :: "qop \<Rightarrow> cells \<Rightarrow> cells option" +
  fixes FIRST :: "cells \<Rightarrow> nat \<Rightarrow> nat option"
    and NEXT :: "cells \<Rightarrow> nat \<Rightarrow> nat option"
  assumes first_law: "R s q \<Longrightarrow> q h = Some xs \<Longrightarrow> FIRST s h = (case xs of [] \<Rightarrow> None | x # _ \<Rightarrow> Some x)"
    and next_law: "R s q \<Longrightarrow> q h = Some (xs @ x # ys) \<Longrightarrow> NEXT s x = (case ys of [] \<Rightarrow> None | y # _ \<Rightarrow> Some y)"
begin

lemma foreach_suffix: "R s q \<Longrightarrow> q h = Some (xs @ ys) \<Longrightarrow> foreach (NEXT s) (case ys of [] \<Rightarrow> None | y # _ \<Rightarrow> Some y) = Some ys"
proof (induction ys arbitrary: xs)
  case (Cons y ys)
  show ?case using Cons.IH [of "xs @ [y]"] Cons.prems next_law [OF Cons.prems] by (simp add: foreach.simps)
qed (simp add: foreach.simps)

text \<open>A loop over a list visits its elements in order and ends.\<close>

lemma foreach_all: "R s q \<Longrightarrow> q h = Some xs \<Longrightarrow> foreach (NEXT s) (FIRST s h) = Some xs"
  using foreach_suffix [of s q h "[]" xs] first_law [of s q h xs] by simp

text \<open>The safe loop may remove what it visits: it empties the list.\<close>

lemma clear_suffix:
  assumes "\<And>e. supports (Remove h e)"
  shows "R s q \<Longrightarrow> q h = Some ys \<Longrightarrow>
    \<exists>s'. foreach_safe NEXT (\<lambda>e. exec (Remove h e)) (case ys of [] \<Rightarrow> None | y # _ \<Rightarrow> Some y) s = Some s' \<and> R s' (q(h \<mapsto> []))"
proof (induction ys arbitrary: s q)
  case Nil
  then have "q(h \<mapsto> []) = q" by auto
  then show ?case using Nil by (simp add: foreach_safe.simps)
next
  case (Cons y ys)
  have "legal (Remove h y) q" using Cons.prems(2) by (simp add: member_of_def)
  then obtain s1 where s1: "exec (Remove h y) s = Some s1" "R s1 (spec (Remove h y) q)"
    using exec_step [OF Cons.prems(1) assms] by blast
  have "NEXT s y = (case ys of [] \<Rightarrow> None | y # _ \<Rightarrow> Some y)" using next_law [of s q h "[]" y ys] Cons.prems by simp
  moreover have r1: "R s1 (q(h \<mapsto> ys))" using s1(2) Cons.prems(2) by simp
  moreover have "(q(h \<mapsto> ys)) h = Some ys" by simp
  note Cons.IH [OF r1 this, unfolded fun_upd_upd]
  ultimately show ?case using s1(1) by (simp add: foreach_safe.simps [of _ _ "Some y"])
qed

lemma clear_all:
  assumes "\<And>e. supports (Remove h e)" "R s q" "q h = Some xs"
  shows "\<exists>s'. foreach_safe NEXT (\<lambda>e. exec (Remove h e)) (FIRST s h) s = Some s' \<and> R s' (q(h \<mapsto> []))"
  using clear_suffix [OF assms] first_law [OF assms(2,3)] by simp

text \<open>After any history that the callers' rules allow, a loop finds what the history put into the list.\<close>

lemma history_foreach:
  assumes "R s q" "\<forall>p \<in> set ps. supports p" "all_legal ps q"
  shows "\<exists>s'. execs ps s = Some s' \<and> R s' (specs ps q) \<and> (\<forall>h xs. specs ps q h = Some xs \<longrightarrow> foreach (NEXT s') (FIRST s' h) = Some xs)"
  using history [OF assms] foreach_all by blast

end

locale tail_kind = list_kind R supports exec FIRST NEXT
  for R :: "cells \<Rightarrow> lists \<Rightarrow> bool" and supports :: "qop \<Rightarrow> bool" and exec :: "qop \<Rightarrow> cells \<Rightarrow> cells option"
    and FIRST :: "cells \<Rightarrow> nat \<Rightarrow> nat option" and NEXT :: "cells \<Rightarrow> nat \<Rightarrow> nat option" +
  fixes LAST :: "cells \<Rightarrow> nat \<Rightarrow> nat option option"
  assumes last_law: "R s q \<Longrightarrow> q h = Some xs \<Longrightarrow> LAST s h = Some (if xs = [] then None else Some (last xs))"
    and tail_supported: "supports (Insert_tail h e)"
begin

lemma last_of_tail:
  assumes "R s q" "q h = Some xs" "fresh e q"
  shows "\<exists>s'. exec (Insert_tail h e) s = Some s' \<and> LAST s' h = Some (Some e)"
proof -
  obtain s' where s': "exec (Insert_tail h e) s = Some s'" "R s' (spec (Insert_tail h e) q)"
    using exec_step [OF assms(1) tail_supported, of h e] assms(2,3) by auto
  then show ?thesis using last_law [OF s'(2), of h "xs @ [e]"] assms(2) by simp
qed

end

locale reversible_kind = list_kind R supports exec FIRST NEXT
  for R :: "cells \<Rightarrow> lists \<Rightarrow> bool" and supports :: "qop \<Rightarrow> bool" and exec :: "qop \<Rightarrow> cells \<Rightarrow> cells option"
    and FIRST :: "cells \<Rightarrow> nat \<Rightarrow> nat option" and NEXT :: "cells \<Rightarrow> nat \<Rightarrow> nat option" +
  fixes FINAL :: "cells \<Rightarrow> nat \<Rightarrow> nat option" and PREV :: "cells \<Rightarrow> nat \<Rightarrow> nat option"
  assumes final_law: "R s q \<Longrightarrow> q h = Some xs \<Longrightarrow> FINAL s h = (if xs = [] then None else Some (last xs))"
    and prev_law: "R s q \<Longrightarrow> q h = Some (xs @ x # ys) \<Longrightarrow> PREV s x = (if xs = [] then None else Some (last xs))"
begin

lemma reverse_prefix: "R s q \<Longrightarrow> q h = Some (xs @ ys) \<Longrightarrow> foreach (PREV s) (if xs = [] then None else Some (last xs)) = Some (rev xs)"
proof (induction xs arbitrary: ys rule: rev_induct)
  case (snoc x xs)
  then show ?case using snoc.IH [of "x # ys"] prev_law [of s q h xs x ys] by (simp add: foreach.simps)
qed (simp add: foreach.simps)

lemma foreach_reverse_all: "R s q \<Longrightarrow> q h = Some xs \<Longrightarrow> foreach (PREV s) (FINAL s h) = Some (rev xs)"
  using reverse_prefix [of s q h xs "[]"] final_law [of s q h xs] by simp

end

end
