(* ===== verification/Queue.thy ===== *)
theory Queue
  imports Queue_Spec
begin

text \<open>
  Model of \<^verbatim>\<open>c/libgs/libmfile/queue.h\<close>: the macros of its four kinds of lists as operations on \<open>cells\<close>,
  assignment by assignment. The debugging hooks are empty in the build and left out. \<open>None\<close> is undefined
  behaviour (a null pointer is followed). Each kind interprets the interfaces of \<open>Queue_Spec\<close>.
\<close>

section \<open>Singly linked lists\<close>

definition SLIST_FIRST :: "cells \<Rightarrow> nat \<Rightarrow> nat option" where
  "SLIST_FIRST s head = next_at s (Head head)"

definition SLIST_NEXT :: "cells \<Rightarrow> nat \<Rightarrow> nat option" where
  "SLIST_NEXT s elm = next_at s (Elem elm)"

definition SLIST_EMPTY :: "cells \<Rightarrow> nat \<Rightarrow> bool" where
  "SLIST_EMPTY s head \<longleftrightarrow> SLIST_FIRST s head = None"

definition SLIST_INIT :: "nat \<Rightarrow> cells \<Rightarrow> cells" where
  "SLIST_INIT head s = put_next (Head head) None s"

definition SLIST_INSERT_AFTER :: "nat \<Rightarrow> nat \<Rightarrow> cells \<Rightarrow> cells" where
  "SLIST_INSERT_AFTER slistelm elm s = put_next (Elem slistelm) (Some elm) (put_next (Elem elm) (SLIST_NEXT s slistelm) s)"

definition SLIST_INSERT_HEAD :: "nat \<Rightarrow> nat \<Rightarrow> cells \<Rightarrow> cells" where
  "SLIST_INSERT_HEAD head elm s = put_next (Head head) (Some elm) (put_next (Elem elm) (SLIST_FIRST s head) s)"

definition SLIST_REMOVE_HEAD :: "nat \<Rightarrow> cells \<Rightarrow> cells option" where
  "SLIST_REMOVE_HEAD head s = (case SLIST_FIRST s head of None \<Rightarrow> None | Some f \<Rightarrow> Some (put_next (Head head) (SLIST_NEXT s f) s))"

text \<open>The loop that looks for the element before \<open>elm\<close>, of \<open>SLIST_REMOVE\<close> and \<open>STAILQ_REMOVE\<close>.\<close>

partial_function (option) curelm_loop :: "cells \<Rightarrow> nat \<Rightarrow> nat option \<Rightarrow> nat option" where
  "curelm_loop s elm curelm = (case curelm of
     None \<Rightarrow> None
   | Some c \<Rightarrow> if SLIST_NEXT s c = Some elm then Some c else curelm_loop s elm (SLIST_NEXT s c))"

definition SLIST_REMOVE :: "nat \<Rightarrow> nat \<Rightarrow> cells \<Rightarrow> cells option" where
  "SLIST_REMOVE head elm s =
    (if SLIST_FIRST s head = Some elm then SLIST_REMOVE_HEAD head s
     else do { c \<leftarrow> curelm_loop s elm (SLIST_FIRST s head); n \<leftarrow> SLIST_NEXT s c; Some (put_next (Elem c) (SLIST_NEXT s n) s) })"

text \<open>\<open>SLIST_FOREACH_PREVPTR\<close> with the pairs of \<open>varp\<close> and \<open>var\<close>.\<close>

partial_function (option) foreach_prevptr :: "cells \<Rightarrow> anchor \<Rightarrow> (anchor \<times> nat) list option" where
  "foreach_prevptr s varp = (case next_at s varp of
     None \<Rightarrow> Some []
   | Some var \<Rightarrow> do { r \<leftarrow> foreach_prevptr s (Elem var); Some ((varp, var) # r) })"

section \<open>Singly linked tail queues\<close>

definition STAILQ_FIRST :: "cells \<Rightarrow> nat \<Rightarrow> nat option" where
  "STAILQ_FIRST s head = next_at s (Head head)"

definition STAILQ_NEXT :: "cells \<Rightarrow> nat \<Rightarrow> nat option" where
  "STAILQ_NEXT s elm = next_at s (Elem elm)"

definition STAILQ_EMPTY :: "cells \<Rightarrow> nat \<Rightarrow> bool" where
  "STAILQ_EMPTY s head \<longleftrightarrow> STAILQ_FIRST s head = None"

definition STAILQ_INIT :: "nat \<Rightarrow> cells \<Rightarrow> cells" where
  "STAILQ_INIT head s = put_link (Head head) (Head head) (put_next (Head head) None s)"

definition STAILQ_CONCAT :: "nat \<Rightarrow> nat \<Rightarrow> cells \<Rightarrow> cells" where
  "STAILQ_CONCAT head1 head2 s =
    (if \<not> STAILQ_EMPTY s head2 then
       let s1 = put_next (link_at s (Head head1)) (STAILQ_FIRST s head2) s;
           s2 = put_link (Head head1) (link_at s1 (Head head2)) s1
       in STAILQ_INIT head2 s2
     else s)"

definition STAILQ_INSERT_AFTER :: "nat \<Rightarrow> nat \<Rightarrow> nat \<Rightarrow> cells \<Rightarrow> cells" where
  "STAILQ_INSERT_AFTER head tqelm elm s =
    (let s1 = put_next (Elem elm) (STAILQ_NEXT s tqelm) s;
         s2 = (if STAILQ_NEXT s tqelm = None then put_link (Head head) (Elem elm) s1 else s1)
     in put_next (Elem tqelm) (Some elm) s2)"

definition STAILQ_INSERT_HEAD :: "nat \<Rightarrow> nat \<Rightarrow> cells \<Rightarrow> cells" where
  "STAILQ_INSERT_HEAD head elm s =
    (let s1 = put_next (Elem elm) (STAILQ_FIRST s head) s;
         s2 = (if STAILQ_FIRST s head = None then put_link (Head head) (Elem elm) s1 else s1)
     in put_next (Head head) (Some elm) s2)"

definition STAILQ_INSERT_TAIL :: "nat \<Rightarrow> nat \<Rightarrow> cells \<Rightarrow> cells" where
  "STAILQ_INSERT_TAIL head elm s =
    (let s1 = put_next (Elem elm) None s;
         s2 = put_next (link_at s1 (Head head)) (Some elm) s1
     in put_link (Head head) (Elem elm) s2)"

text \<open>\<open>STAILQ_LAST\<close> takes \<open>stqh_last\<close> for a place in an element, which it is not while it points to the head.\<close>

definition STAILQ_LAST :: "cells \<Rightarrow> nat \<Rightarrow> nat option option" where
  "STAILQ_LAST s head =
    (if STAILQ_EMPTY s head then Some None else (case link_at s (Head head) of Elem e \<Rightarrow> Some (Some e) | Head k \<Rightarrow> None))"

definition STAILQ_REMOVE_HEAD :: "nat \<Rightarrow> cells \<Rightarrow> cells option" where
  "STAILQ_REMOVE_HEAD head s =
    (case STAILQ_FIRST s head of
       None \<Rightarrow> None
     | Some f \<Rightarrow>
         let s1 = put_next (Head head) (STAILQ_NEXT s f) s
         in Some (if STAILQ_FIRST s1 head = None then put_link (Head head) (Head head) s1 else s1))"

definition STAILQ_REMOVE :: "nat \<Rightarrow> nat \<Rightarrow> cells \<Rightarrow> cells option" where
  "STAILQ_REMOVE head elm s =
    (if STAILQ_FIRST s head = Some elm then STAILQ_REMOVE_HEAD head s
     else do {
       c \<leftarrow> curelm_loop s elm (STAILQ_FIRST s head);
       n \<leftarrow> STAILQ_NEXT s c;
       let s1 = put_next (Elem c) (STAILQ_NEXT s n) s;
       Some (if STAILQ_NEXT s1 c = None then put_link (Head head) (Elem c) s1 else s1) })"

section \<open>Lists\<close>

definition LIST_FIRST :: "cells \<Rightarrow> nat \<Rightarrow> nat option" where
  "LIST_FIRST s head = next_at s (Head head)"

definition LIST_NEXT :: "cells \<Rightarrow> nat \<Rightarrow> nat option" where
  "LIST_NEXT s elm = next_at s (Elem elm)"

definition LIST_EMPTY :: "cells \<Rightarrow> nat \<Rightarrow> bool" where
  "LIST_EMPTY s head \<longleftrightarrow> LIST_FIRST s head = None"

definition LIST_INIT :: "nat \<Rightarrow> cells \<Rightarrow> cells" where
  "LIST_INIT head s = put_next (Head head) None s"

definition LIST_INSERT_AFTER :: "nat \<Rightarrow> nat \<Rightarrow> cells \<Rightarrow> cells" where
  "LIST_INSERT_AFTER listelm elm s =
    (let s1 = put_next (Elem elm) (LIST_NEXT s listelm) s;
         s2 = (case LIST_NEXT s1 listelm of Some n \<Rightarrow> put_link (Elem n) (Elem elm) s1 | None \<Rightarrow> s1);
         s3 = put_next (Elem listelm) (Some elm) s2
     in put_link (Elem elm) (Elem listelm) s3)"

definition LIST_INSERT_BEFORE :: "nat \<Rightarrow> nat \<Rightarrow> cells \<Rightarrow> cells" where
  "LIST_INSERT_BEFORE listelm elm s =
    (let s1 = put_link (Elem elm) (link_at s (Elem listelm)) s;
         s2 = put_next (Elem elm) (Some listelm) s1;
         s3 = put_next (link_at s2 (Elem listelm)) (Some elm) s2
     in put_link (Elem listelm) (Elem elm) s3)"

definition LIST_INSERT_HEAD :: "nat \<Rightarrow> nat \<Rightarrow> cells \<Rightarrow> cells" where
  "LIST_INSERT_HEAD head elm s =
    (let s1 = put_next (Elem elm) (LIST_FIRST s head) s;
         s2 = (case LIST_FIRST s1 head of Some f \<Rightarrow> put_link (Elem f) (Elem elm) s1 | None \<Rightarrow> s1);
         s3 = put_next (Head head) (Some elm) s2
     in put_link (Elem elm) (Head head) s3)"

definition LIST_REMOVE :: "nat \<Rightarrow> cells \<Rightarrow> cells" where
  "LIST_REMOVE elm s =
    (let s1 = (case LIST_NEXT s elm of Some n \<Rightarrow> put_link (Elem n) (link_at s (Elem elm)) s | None \<Rightarrow> s)
     in put_next (link_at s1 (Elem elm)) (LIST_NEXT s1 elm) s1)"

section \<open>Tail queues\<close>

definition TAILQ_FIRST :: "cells \<Rightarrow> nat \<Rightarrow> nat option" where
  "TAILQ_FIRST s head = next_at s (Head head)"

definition TAILQ_NEXT :: "cells \<Rightarrow> nat \<Rightarrow> nat option" where
  "TAILQ_NEXT s elm = next_at s (Elem elm)"

definition TAILQ_EMPTY :: "cells \<Rightarrow> nat \<Rightarrow> bool" where
  "TAILQ_EMPTY s head \<longleftrightarrow> TAILQ_FIRST s head = None"

text \<open>The two fields of an element are laid out like those of a head, so that a pointer to either can be
  read as a pointer to a head: \<open>link_at\<close> of a place is the second field of the structure it is in.\<close>

definition TAILQ_LAST :: "cells \<Rightarrow> nat \<Rightarrow> nat option" where
  "TAILQ_LAST s head = next_at s (link_at s (link_at s (Head head)))"

definition TAILQ_PREV :: "cells \<Rightarrow> nat \<Rightarrow> nat option" where
  "TAILQ_PREV s elm = next_at s (link_at s (link_at s (Elem elm)))"

definition TAILQ_INIT :: "nat \<Rightarrow> cells \<Rightarrow> cells" where
  "TAILQ_INIT head s = put_link (Head head) (Head head) (put_next (Head head) None s)"

definition TAILQ_CONCAT :: "nat \<Rightarrow> nat \<Rightarrow> cells \<Rightarrow> cells" where
  "TAILQ_CONCAT head1 head2 s =
    (case TAILQ_FIRST s head2 of
       None \<Rightarrow> s
     | Some f \<Rightarrow>
         let s1 = put_next (link_at s (Head head1)) (Some f) s;
             s2 = put_link (Elem f) (link_at s1 (Head head1)) s1;
             s3 = put_link (Head head1) (link_at s2 (Head head2)) s2
         in TAILQ_INIT head2 s3)"

definition TAILQ_INSERT_AFTER :: "nat \<Rightarrow> nat \<Rightarrow> nat \<Rightarrow> cells \<Rightarrow> cells" where
  "TAILQ_INSERT_AFTER head listelm elm s =
    (let s1 = put_next (Elem elm) (TAILQ_NEXT s listelm) s;
         s2 = (case TAILQ_NEXT s1 elm of Some n \<Rightarrow> put_link (Elem n) (Elem elm) s1 | None \<Rightarrow> put_link (Head head) (Elem elm) s1);
         s3 = put_next (Elem listelm) (Some elm) s2
     in put_link (Elem elm) (Elem listelm) s3)"

definition TAILQ_INSERT_BEFORE :: "nat \<Rightarrow> nat \<Rightarrow> cells \<Rightarrow> cells" where
  "TAILQ_INSERT_BEFORE listelm elm s =
    (let s1 = put_link (Elem elm) (link_at s (Elem listelm)) s;
         s2 = put_next (Elem elm) (Some listelm) s1;
         s3 = put_next (link_at s2 (Elem listelm)) (Some elm) s2
     in put_link (Elem listelm) (Elem elm) s3)"

definition TAILQ_INSERT_HEAD :: "nat \<Rightarrow> nat \<Rightarrow> cells \<Rightarrow> cells" where
  "TAILQ_INSERT_HEAD head elm s =
    (let s1 = put_next (Elem elm) (TAILQ_FIRST s head) s;
         s2 = (case TAILQ_FIRST s1 head of Some f \<Rightarrow> put_link (Elem f) (Elem elm) s1 | None \<Rightarrow> put_link (Head head) (Elem elm) s1);
         s3 = put_next (Head head) (Some elm) s2
     in put_link (Elem elm) (Head head) s3)"

definition TAILQ_INSERT_TAIL :: "nat \<Rightarrow> nat \<Rightarrow> cells \<Rightarrow> cells" where
  "TAILQ_INSERT_TAIL head elm s =
    (let s1 = put_next (Elem elm) None s;
         s2 = put_link (Elem elm) (link_at s1 (Head head)) s1;
         s3 = put_next (link_at s2 (Head head)) (Some elm) s2
     in put_link (Head head) (Elem elm) s3)"

definition TAILQ_REMOVE :: "nat \<Rightarrow> nat \<Rightarrow> cells \<Rightarrow> cells" where
  "TAILQ_REMOVE head elm s =
    (let s1 = (case TAILQ_NEXT s elm of Some n \<Rightarrow> put_link (Elem n) (link_at s (Elem elm)) s
                 | None \<Rightarrow> put_link (Head head) (link_at s (Elem elm)) s)
     in put_next (link_at s1 (Elem elm)) (TAILQ_NEXT s1 elm) s1)"

section \<open>The kinds provide the interfaces\<close>

fun slist_supports :: "qop \<Rightarrow> bool" where
  "slist_supports (Insert_tail h e) = False"
| "slist_supports (Insert_before h l e) = False"
| "slist_supports (Concat h k) = False"
| "slist_supports p = True"

fun slist_exec :: "qop \<Rightarrow> cells \<Rightarrow> cells option" where
  "slist_exec (Init h) s = Some (SLIST_INIT h s)"
| "slist_exec (Insert_head h e) s = Some (SLIST_INSERT_HEAD h e s)"
| "slist_exec (Insert_after h l e) s = Some (SLIST_INSERT_AFTER l e s)"
| "slist_exec (Remove h e) s = SLIST_REMOVE h e s"
| "slist_exec (Remove_head h) s = SLIST_REMOVE_HEAD h s"
| "slist_exec p s = None"

fun stailq_supports :: "qop \<Rightarrow> bool" where
  "stailq_supports (Insert_before h l e) = False"
| "stailq_supports p = True"

fun stailq_exec :: "qop \<Rightarrow> cells \<Rightarrow> cells option" where
  "stailq_exec (Init h) s = Some (STAILQ_INIT h s)"
| "stailq_exec (Insert_head h e) s = Some (STAILQ_INSERT_HEAD h e s)"
| "stailq_exec (Insert_tail h e) s = Some (STAILQ_INSERT_TAIL h e s)"
| "stailq_exec (Insert_after h l e) s = Some (STAILQ_INSERT_AFTER h l e s)"
| "stailq_exec (Remove h e) s = STAILQ_REMOVE h e s"
| "stailq_exec (Remove_head h) s = STAILQ_REMOVE_HEAD h s"
| "stailq_exec (Concat h k) s = Some (STAILQ_CONCAT h k s)"
| "stailq_exec p s = None"

fun list_supports :: "qop \<Rightarrow> bool" where
  "list_supports (Insert_tail h e) = False"
| "list_supports (Remove_head h) = False"
| "list_supports (Concat h k) = False"
| "list_supports p = True"

fun list_exec :: "qop \<Rightarrow> cells \<Rightarrow> cells option" where
  "list_exec (Init h) s = Some (LIST_INIT h s)"
| "list_exec (Insert_head h e) s = Some (LIST_INSERT_HEAD h e s)"
| "list_exec (Insert_after h l e) s = Some (LIST_INSERT_AFTER l e s)"
| "list_exec (Insert_before h l e) s = Some (LIST_INSERT_BEFORE l e s)"
| "list_exec (Remove h e) s = Some (LIST_REMOVE e s)"
| "list_exec p s = None"

fun tailq_supports :: "qop \<Rightarrow> bool" where
  "tailq_supports (Remove_head h) = False"
| "tailq_supports p = True"

fun tailq_exec :: "qop \<Rightarrow> cells \<Rightarrow> cells option" where
  "tailq_exec (Init h) s = Some (TAILQ_INIT h s)"
| "tailq_exec (Insert_head h e) s = Some (TAILQ_INSERT_HEAD h e s)"
| "tailq_exec (Insert_tail h e) s = Some (TAILQ_INSERT_TAIL h e s)"
| "tailq_exec (Insert_after h l e) s = Some (TAILQ_INSERT_AFTER h l e s)"
| "tailq_exec (Insert_before h l e) s = Some (TAILQ_INSERT_BEFORE l e s)"
| "tailq_exec (Remove h e) s = Some (TAILQ_REMOVE h e s)"
| "tailq_exec (Concat h k) s = Some (TAILQ_CONCAT h k s)"
| "tailq_exec p s = None"

text \<open>What is read from a represented list.\<close>

lemma fam_first: "fam lt bk s q \<Longrightarrow> q h = Some xs \<Longrightarrow> next_at s (Head h) = (case xs of [] \<Rightarrow> None | x # _ \<Rightarrow> Some x)"
  using rep_next [of lt bk s h "[]" xs] famD(1) by auto

lemma fam_next: "fam lt bk s q \<Longrightarrow> q h = Some (xs @ x # ys) \<Longrightarrow> next_at s (Elem x) = (case ys of [] \<Rightarrow> None | y # _ \<Rightarrow> Some y)"
  using rep_next [of lt bk s h "xs @ [x]" ys] famD(1) by auto

lemma fam_last: "fam True bk s q \<Longrightarrow> q h = Some xs \<Longrightarrow> link_at s (Head h) = end_of (Head h) xs"
  using famD(1) by (auto simp: rep_def)

lemma fam_back: "fam lt True s q \<Longrightarrow> q h = Some (xs @ x # ys) \<Longrightarrow> link_at s (Elem x) = end_of (Head h) xs"
  using famD(1) by (fastforce simp: rep_def)

text \<open>The loop of \<open>REMOVE\<close> finds the element before \<open>e\<close>.\<close>

lemma curelm_suffix:
  assumes "fam lt bk s q" "q h = Some (us @ x # xs @ e # ys)"
  shows "curelm_loop s e (Some x) = Some (last (x # xs))"
  using assms(2)
proof (induction xs arbitrary: us x)
  case Nil
  then show ?case using fam_next [OF assms(1), of h us x "e # ys"] by (simp add: curelm_loop.simps SLIST_NEXT_def)
next
  case (Cons z zs)
  have "next_at s (Elem x) = Some z" using fam_next [OF assms(1), of h us x "(z # zs) @ e # ys"] Cons.prems by simp
  moreover have "z \<noteq> e" using famD(1) [OF assms(1) Cons.prems] by (auto simp: rep_def)
  ultimately show ?case using Cons.IH [of "us @ [x]" z] Cons.prems by (simp add: curelm_loop.simps [of _ _ "Some x"] SLIST_NEXT_def)
qed

lemma split_before:
  assumes "fam lt bk s q" "q h = Some (xs @ e # ys)" "next_at s (Head h) \<noteq> Some e"
  obtains c where "curelm_loop s e (next_at s (Head h)) = Some c" "Elem c = end_of (Head h) xs" "next_at s (Elem c) = Some e"
proof (cases xs)
  case Nil
  then show thesis using assms fam_first [OF assms(1,2)] by simp
next
  case (Cons x zs)
  have "next_at s (Head h) = Some x" using fam_first [OF assms(1,2)] Cons by simp
  moreover have "curelm_loop s e (Some x) = Some (last xs)" using curelm_suffix [OF assms(1), of h "[]" x zs e ys] assms(2) Cons by simp
  moreover have "Elem (last xs) = end_of (Head h) xs" using Cons by (simp add: end_of_last)
  moreover have "next_at s (Elem (last xs)) = Some e" using rep_next [of lt bk s h xs "e # ys"] famD(1) [OF assms(1,2)] calculation(3) by simp
  ultimately show thesis using that by simp
qed

lemma slist_step:
  assumes f: "fam False False s q" and "slist_supports p" "legal p q"
  shows "\<exists>s'. slist_exec p s = Some s' \<and> fam False False s' (spec p q)"
proof (cases p)
  case (Init h)
  then show ?thesis using fam_init [OF f, of "SLIST_INIT h s" h] by (simp add: SLIST_INIT_def)
next
  case (Insert_head h e)
  then obtain xs where "q h = Some ([] @ xs)" "fresh e q" using assms(3) by auto
  then show ?thesis using fam_insert [OF f, of h "[]" xs e "Head h" "SLIST_INSERT_HEAD h e s"] Insert_head
    by (simp add: SLIST_INSERT_HEAD_def SLIST_FIRST_def)
next
  case (Insert_after h l e)
  then obtain xs ys where "q h = Some ((xs @ [l]) @ ys)" "fresh e q" "l \<notin> set xs"
    using assms(3) by (auto elim: member_ofE [OF _ f])
  then show ?thesis using fam_insert [OF f, of h "xs @ [l]" ys e "Elem l" "SLIST_INSERT_AFTER l e s"] Insert_after
    by (simp add: SLIST_INSERT_AFTER_def SLIST_NEXT_def ins_after_split)
next
  case (Remove h e)
  then obtain xs ys where q: "q h = Some (xs @ e # ys)" "e \<notin> set xs" using assms(3) by (auto elim: member_ofE [OF _ f])
  have sp: "spec p q = q(h \<mapsto> xs @ ys)" using Remove q by (simp add: remove1_append)
  show ?thesis
  proof (cases "next_at s (Head h) = Some e")
    case True
    then have "xs = []" using fam_first [OF f q(1)] q(2) by (cases xs) auto
    then show ?thesis using fam_remove [OF f q(1), of "Head h" "put_next (Head h) (next_at s (Elem e)) s"] True Remove sp
      by (simp add: SLIST_REMOVE_def SLIST_REMOVE_HEAD_def SLIST_FIRST_def SLIST_NEXT_def)
  next
    case False
    obtain c where "curelm_loop s e (next_at s (Head h)) = Some c" "Elem c = end_of (Head h) xs" "next_at s (Elem c) = Some e"
      by (rule split_before [OF f q(1) False])
    then show ?thesis using fam_remove [OF f q(1), of "Elem c" "put_next (Elem c) (next_at s (Elem e)) s"] False Remove sp
      by (simp add: SLIST_REMOVE_def SLIST_FIRST_def SLIST_NEXT_def)
  qed
next
  case (Remove_head h)
  then obtain x xs where q: "q h = Some ([] @ x # xs)" using assms(3) by (cases "q h") (auto simp: neq_Nil_conv)
  then show ?thesis using fam_remove [OF f q, of "Head h" "put_next (Head h) (next_at s (Elem x)) s"] fam_first [OF f q] Remove_head
    by (simp add: SLIST_REMOVE_HEAD_def SLIST_FIRST_def SLIST_NEXT_def)
qed (use assms in auto)

interpretation sl: list_kind "fam False False" slist_supports slist_exec SLIST_FIRST SLIST_NEXT
  by unfold_locales (auto simp: slist_step SLIST_FIRST_def SLIST_NEXT_def fam_first fam_next)

lemma stailq_step:
  assumes f: "fam True False s q" and "stailq_supports p" "legal p q"
  shows "\<exists>s'. stailq_exec p s = Some s' \<and> fam True False s' (spec p q)"
proof (cases p)
  case (Init h)
  then show ?thesis using fam_init [OF f, of "STAILQ_INIT h s" h] by (simp add: STAILQ_INIT_def)
next
  case (Insert_head h e)
  then obtain xs where q: "q h = Some ([] @ xs)" "fresh e q" using assms(3) by auto
  then show ?thesis using fam_insert [OF f, of h "[]" xs e "Head h" "STAILQ_INSERT_HEAD h e s"] fam_first [OF f, of h xs] Insert_head
    by (cases xs) (simp_all add: STAILQ_INSERT_HEAD_def STAILQ_FIRST_def Let_def)
next
  case (Insert_tail h e)
  then obtain xs where q: "q h = Some (xs @ [])" "fresh e q" using assms(3) by auto
  have c: "next_at s (end_of (Head h) xs) = None" "link_at s (Head h) = end_of (Head h) xs"
    using rep_next [of True False s h xs "[]"] famD(1) [OF f q(1)] fam_last [OF f q(1)] by simp_all
  then show ?thesis using fam_insert [OF f q refl, of "STAILQ_INSERT_TAIL h e s"] q Insert_tail
    by (simp add: STAILQ_INSERT_TAIL_def Let_def)
next
  case (Insert_after h l e)
  then obtain xs ys where q: "q h = Some ((xs @ [l]) @ ys)" "fresh e q" "l \<notin> set xs"
    using assms(3) by (auto elim: member_ofE [OF _ f])
  then show ?thesis using fam_insert [OF f q(1,2), of "Elem l" "STAILQ_INSERT_AFTER h l e s"] fam_next [OF f, of h xs l ys] Insert_after
    by (cases ys) (simp_all add: STAILQ_INSERT_AFTER_def STAILQ_NEXT_def ins_after_split Let_def)
next
  case (Remove h e)
  then obtain xs ys where q: "q h = Some (xs @ e # ys)" "e \<notin> set xs" using assms(3) by (auto elim: member_ofE [OF _ f])
  have sp: "spec p q = q(h \<mapsto> xs @ ys)" using Remove q by (simp add: remove1_append)
  note n = fam_next [OF f q(1)]
  show ?thesis
  proof (cases "next_at s (Head h) = Some e")
    case True
    then have "xs = []" using fam_first [OF f q(1)] q(2) by (cases xs) auto
    then show ?thesis using fam_remove [OF f q(1), of "Head h" "the (STAILQ_REMOVE_HEAD h s)"] True Remove sp n
      by (cases ys) (simp_all add: STAILQ_REMOVE_def STAILQ_REMOVE_HEAD_def STAILQ_FIRST_def STAILQ_NEXT_def Let_def)
  next
    case False
    obtain c where "curelm_loop s e (next_at s (Head h)) = Some c" "Elem c = end_of (Head h) xs" "next_at s (Elem c) = Some e"
      by (rule split_before [OF f q(1) False])
    then show ?thesis using fam_remove [OF f q(1), of "Elem c" "the (STAILQ_REMOVE h e s)"] False Remove sp n
      by (cases ys) (simp_all add: STAILQ_REMOVE_def STAILQ_FIRST_def STAILQ_NEXT_def Let_def)
  qed
next
  case (Remove_head h)
  then obtain x xs where q: "q h = Some ([] @ x # xs)" using assms(3) by (cases "q h") (auto simp: neq_Nil_conv)
  then show ?thesis using fam_remove [OF f q, of "Head h" "the (STAILQ_REMOVE_HEAD h s)"] fam_first [OF f q] fam_next [OF f q] Remove_head
    by (cases xs) (simp_all add: STAILQ_REMOVE_HEAD_def STAILQ_FIRST_def STAILQ_NEXT_def Let_def)
next
  case (Concat h k)
  then obtain xs ys where q: "q h = Some xs" "q k = Some ys" "h \<noteq> k" using assms(3) by auto
  show ?thesis
  proof (cases ys)
    case Nil
    then have "spec p q = q" using Concat q by (auto simp: fun_eq_iff)
    then show ?thesis using f fam_first [OF f q(2)] Nil Concat by (simp add: STAILQ_CONCAT_def STAILQ_EMPTY_def STAILQ_FIRST_def)
  next
    case (Cons z zs)
    have l: "link_at s (Head h) = end_of (Head h) xs" "link_at s (Head k) = end_of (Head k) ys" "next_at s (Head k) = Some z"
      using fam_last [OF f] fam_first [OF f q(2)] q Cons by simp_all
    then show ?thesis using fam_concat [OF f q(1) q(2) [unfolded Cons] q(3), of "STAILQ_CONCAT h k s"] q Cons Concat
      by (simp add: STAILQ_CONCAT_def STAILQ_EMPTY_def STAILQ_FIRST_def STAILQ_INIT_def Let_def)
  qed
qed (use assms in auto)

lemma stailq_last:
  assumes "fam True bk s q" "q h = Some xs"
  shows "STAILQ_LAST s h = Some (if xs = [] then None else Some (last xs))"
  using fam_first [OF assms] fam_last [OF assms]
  by (cases xs) (simp_all add: STAILQ_LAST_def STAILQ_EMPTY_def STAILQ_FIRST_def end_of_last)

interpretation st: tail_kind "fam True False" stailq_supports stailq_exec STAILQ_FIRST STAILQ_NEXT STAILQ_LAST
  by unfold_locales (auto simp: stailq_step stailq_last STAILQ_FIRST_def STAILQ_NEXT_def fam_first fam_next)

lemma list_step:
  assumes f: "fam False True s q" and "list_supports p" "legal p q"
  shows "\<exists>s'. list_exec p s = Some s' \<and> fam False True s' (spec p q)"
proof (cases p)
  case (Init h)
  then show ?thesis using fam_init [OF f, of "LIST_INIT h s" h] by (simp add: LIST_INIT_def)
next
  case (Insert_head h e)
  then obtain xs where q: "q h = Some ([] @ xs)" "fresh e q" using assms(3) by auto
  then show ?thesis using fam_insert [OF f, of h "[]" xs e "Head h" "LIST_INSERT_HEAD h e s"] fam_first [OF f, of h xs] freshD [OF q(2,1)] Insert_head
    by (cases xs) (auto simp: LIST_INSERT_HEAD_def LIST_FIRST_def Let_def)
next
  case (Insert_after h l e)
  then obtain xs ys where q: "q h = Some ((xs @ [l]) @ ys)" "fresh e q" "l \<notin> set xs"
    using assms(3) by (auto elim: member_ofE [OF _ f])
  then show ?thesis using fam_insert [OF f q(1,2), of "Elem l" "LIST_INSERT_AFTER l e s"] fam_next [OF f, of h xs l ys] freshD [OF q(2,1)] Insert_after
    by (cases ys) (auto simp: LIST_INSERT_AFTER_def LIST_NEXT_def ins_after_split Let_def)
next
  case (Insert_before h l e)
  then obtain xs ys where q: "q h = Some (xs @ l # ys)" "fresh e q" "l \<notin> set xs" "l \<notin> set ys"
    using assms(3) by (auto elim: member_ofE [OF _ f])
  have "link_at s (Elem l) = end_of (Head h) xs" "next_at s (end_of (Head h) xs) = Some l"
    using fam_back [OF f q(1)] rep_next [of False True s h xs "l # ys"] famD(1) [OF f q(1)] by simp_all
  then show ?thesis using fam_insert [OF f q(1,2) refl, of "LIST_INSERT_BEFORE l e s"] freshD [OF q(2,1)] q Insert_before
    by (simp add: LIST_INSERT_BEFORE_def ins_before_split Let_def)
next
  case (Remove h e)
  then obtain xs ys where q: "q h = Some (xs @ e # ys)" "e \<notin> set xs" "e \<notin> set ys" using assms(3) by (auto elim: member_ofE [OF _ f])
  have sp: "spec p q = q(h \<mapsto> xs @ ys)" using Remove q by (simp add: remove1_append)
  show ?thesis using fam_remove [OF f q(1) refl, of "LIST_REMOVE e s"] fam_next [OF f q(1)] fam_back [OF f q(1)] q Remove sp
    by (cases ys) (simp_all add: LIST_REMOVE_def LIST_NEXT_def Let_def)
qed (use assms in auto)

interpretation ll: list_kind "fam False True" list_supports list_exec LIST_FIRST LIST_NEXT
  by unfold_locales (auto simp: list_step LIST_FIRST_def LIST_NEXT_def fam_first fam_next)

lemma tailq_step:
  assumes f: "fam True True s q" and "tailq_supports p" "legal p q"
  shows "\<exists>s'. tailq_exec p s = Some s' \<and> fam True True s' (spec p q)"
proof (cases p)
  case (Init h)
  then show ?thesis using fam_init [OF f, of "TAILQ_INIT h s" h] by (simp add: TAILQ_INIT_def)
next
  case (Insert_head h e)
  then obtain xs where q: "q h = Some ([] @ xs)" "fresh e q" using assms(3) by auto
  then show ?thesis using fam_insert [OF f, of h "[]" xs e "Head h" "TAILQ_INSERT_HEAD h e s"] fam_first [OF f, of h xs] freshD [OF q(2,1)] Insert_head
    by (cases xs) (auto simp: TAILQ_INSERT_HEAD_def TAILQ_FIRST_def Let_def)
next
  case (Insert_tail h e)
  then obtain xs where q: "q h = Some (xs @ [])" "fresh e q" using assms(3) by auto
  have c: "next_at s (end_of (Head h) xs) = None" "link_at s (Head h) = end_of (Head h) xs"
    using rep_next [of True True s h xs "[]"] famD(1) [OF f q(1)] fam_last [OF f q(1)] by simp_all
  then show ?thesis using fam_insert [OF f q refl, of "TAILQ_INSERT_TAIL h e s"] q Insert_tail
    by (simp add: TAILQ_INSERT_TAIL_def Let_def)
next
  case (Insert_after h l e)
  then obtain xs ys where q: "q h = Some ((xs @ [l]) @ ys)" "fresh e q" "l \<notin> set xs"
    using assms(3) by (auto elim: member_ofE [OF _ f])
  then show ?thesis using fam_insert [OF f q(1,2), of "Elem l" "TAILQ_INSERT_AFTER h l e s"] fam_next [OF f, of h xs l ys] freshD [OF q(2,1)] Insert_after
    by (cases ys) (auto simp: TAILQ_INSERT_AFTER_def TAILQ_NEXT_def ins_after_split Let_def)
next
  case (Insert_before h l e)
  then obtain xs ys where q: "q h = Some (xs @ l # ys)" "fresh e q" "l \<notin> set xs" "l \<notin> set ys"
    using assms(3) by (auto elim: member_ofE [OF _ f])
  have "link_at s (Elem l) = end_of (Head h) xs" "next_at s (end_of (Head h) xs) = Some l"
    using fam_back [OF f q(1)] rep_next [of True True s h xs "l # ys"] famD(1) [OF f q(1)] by simp_all
  then show ?thesis using fam_insert [OF f q(1,2) refl, of "TAILQ_INSERT_BEFORE l e s"] freshD [OF q(2,1)] q Insert_before
    by (simp add: TAILQ_INSERT_BEFORE_def ins_before_split Let_def)
next
  case (Remove h e)
  then obtain xs ys where q: "q h = Some (xs @ e # ys)" "e \<notin> set xs" "e \<notin> set ys" using assms(3) by (auto elim: member_ofE [OF _ f])
  have sp: "spec p q = q(h \<mapsto> xs @ ys)" using Remove q by (simp add: remove1_append)
  show ?thesis using fam_remove [OF f q(1) refl, of "TAILQ_REMOVE h e s"] fam_next [OF f q(1)] fam_back [OF f q(1)] q Remove sp
    by (cases ys) (simp_all add: TAILQ_REMOVE_def TAILQ_NEXT_def Let_def)
next
  case (Concat h k)
  then obtain xs ys where q: "q h = Some xs" "q k = Some ys" "h \<noteq> k" using assms(3) by auto
  show ?thesis
  proof (cases ys)
    case Nil
    then have "spec p q = q" using Concat q by (auto simp: fun_eq_iff)
    then show ?thesis using f fam_first [OF f q(2)] Nil Concat by (simp add: TAILQ_CONCAT_def TAILQ_FIRST_def)
  next
    case (Cons z zs)
    have l: "link_at s (Head h) = end_of (Head h) xs" "link_at s (Head k) = end_of (Head k) ys" "next_at s (Head k) = Some z"
      using fam_last [OF f] fam_first [OF f q(2)] q Cons by simp_all
    then show ?thesis using fam_concat [OF f q(1) q(2) [unfolded Cons] q(3), of "TAILQ_CONCAT h k s"] q Cons Concat
      by (simp add: TAILQ_CONCAT_def TAILQ_FIRST_def TAILQ_INIT_def Let_def)
  qed
qed (use assms in auto)

lemma tailq_second:
  assumes "fam True True s q" "q h = Some (xs @ ys)"
  shows "next_at s (link_at s (end_of (Head h) xs)) = (if xs = [] then None else Some (last xs))"
proof (cases xs rule: rev_cases)
  case Nil
  then show ?thesis using fam_last [OF assms] rep_next [of True True s h "xs @ ys" "[]"] famD(1) [OF assms] by simp
next
  case (snoc zs z)
  have "link_at s (Elem z) = end_of (Head h) zs" using fam_back [OF assms(1), of h zs z ys] assms(2) snoc by simp
  then show ?thesis using rep_next [of True True s h zs "z # ys"] famD(1) [OF assms] snoc by simp
qed

lemma tailq_ends:
  assumes "fam True True s q"
  shows "q h = Some xs \<Longrightarrow> TAILQ_LAST s h = (if xs = [] then None else Some (last xs))"
    and "q h = Some (xs @ x # ys) \<Longrightarrow> TAILQ_PREV s x = (if xs = [] then None else Some (last xs))"
  using tailq_second [OF assms, of h xs "[]"] tailq_second [OF assms, of h xs "x # ys"] fam_last [OF assms, of h xs]
    fam_back [OF assms, of h xs x ys] by (simp_all add: TAILQ_LAST_def TAILQ_PREV_def)

interpretation tq: tail_kind "fam True True" tailq_supports tailq_exec TAILQ_FIRST TAILQ_NEXT "\<lambda>s h. Some (TAILQ_LAST s h)"
  by unfold_locales (auto simp: tailq_step tailq_ends TAILQ_FIRST_def TAILQ_NEXT_def fam_first fam_next)

interpretation tr: reversible_kind "fam True True" tailq_supports tailq_exec TAILQ_FIRST TAILQ_NEXT TAILQ_LAST TAILQ_PREV
  by unfold_locales (auto simp: tailq_step tailq_ends TAILQ_FIRST_def TAILQ_NEXT_def fam_first fam_next)

text \<open>\<open>SLIST_FOREACH_PREVPTR\<close> pairs every element with the place that points to it.\<close>

lemma prevptr_suffix:
  "chain_from s a xs \<Longrightarrow> next_at s (end_of a xs) = None \<Longrightarrow>
    foreach_prevptr s a = Some (zip (a # map Elem xs) xs)"
  by (induction xs arbitrary: a) (simp_all add: foreach_prevptr.simps)

lemma prevptr_all: "fam lt bk s q \<Longrightarrow> q h = Some xs \<Longrightarrow> foreach_prevptr s (Head h) = Some (zip (Head h # map Elem xs) xs)"
  using famD(1) [of lt bk s q h xs] prevptr_suffix by (auto simp: rep_def)

section \<open>Properties\<close>

text \<open>C19: tail queues are lists. After any sequence of operations that the callers' rules allow, on any
  number of queues, from memory with any contents, no null pointer has been followed and each queue
  holds the elements the operations put there: \<open>TAILQ_FOREACH\<close> visits them in order and ends,
  \<open>TAILQ_FOREACH_REVERSE\<close> backwards, \<open>TAILQ_LAST\<close> is the last one, and the safe loop can remove them all.\<close>

theorem tailq_history:
  assumes "all_legal ps Map.empty" "\<forall>p \<in> set ps. tailq_supports p"
  shows "\<exists>s'. tq.execs ps s = Some s' \<and> (\<forall>h xs. specs ps Map.empty h = Some xs \<longrightarrow>
      foreach (TAILQ_NEXT s') (TAILQ_FIRST s' h) = Some xs \<and>
      foreach (TAILQ_PREV s') (TAILQ_LAST s' h) = Some (rev xs) \<and>
      TAILQ_EMPTY s' h = (xs = []) \<and> TAILQ_LAST s' h = (if xs = [] then None else Some (last xs)) \<and>
      (\<exists>t. foreach_safe TAILQ_NEXT (\<lambda>e s. Some (TAILQ_REMOVE h e s)) (TAILQ_FIRST s' h) s' = Some t \<and> TAILQ_EMPTY t h))"
proof -
  have "fam True True s Map.empty" by (simp add: fam_def)
  then obtain s' where s': "tq.execs ps s = Some s'" "fam True True s' (specs ps Map.empty)" using tq.history assms by blast
  have "\<exists>t. foreach_safe TAILQ_NEXT (\<lambda>e s. Some (TAILQ_REMOVE h e s)) (TAILQ_FIRST s' h) s' = Some t \<and> TAILQ_EMPTY t h"
    if q: "specs ps Map.empty h = Some xs" for h xs
  proof -
    obtain t where t: "foreach_safe TAILQ_NEXT (\<lambda>e. tailq_exec (Remove h e)) (TAILQ_FIRST s' h) s' = Some t" "fam True True t ((specs ps Map.empty)(h \<mapsto> []))"
      using tq.clear_all [OF _ s'(2) q] by auto
    have "(\<lambda>e. tailq_exec (Remove h e)) = (\<lambda>e s. Some (TAILQ_REMOVE h e s))" by (simp add: fun_eq_iff)
    moreover have "TAILQ_EMPTY t h" using tq.first_law [OF t(2), of h "[]"] by (simp add: TAILQ_EMPTY_def)
    ultimately show ?thesis using t(1) by auto
  qed
  then show ?thesis using s' tq.foreach_all [OF s'(2)] tr.foreach_reverse_all [OF s'(2)] tr.final_law [OF s'(2)] tq.first_law [OF s'(2)]
    by (auto simp: TAILQ_EMPTY_def split: list.splits)
qed

text \<open>The same for the singly linked kinds and for lists, with the operations that they have; \<open>REMOVE\<close> of
  the singly linked kinds finds the element before, and its loop ends.\<close>

theorem linked_histories:
  assumes "all_legal ps Map.empty"
  shows "\<forall>p \<in> set ps. slist_supports p \<Longrightarrow> \<exists>s'. sl.execs ps s = Some s' \<and>
      (\<forall>h xs. specs ps Map.empty h = Some xs \<longrightarrow> foreach (SLIST_NEXT s') (SLIST_FIRST s' h) = Some xs)"
    and "\<forall>p \<in> set ps. stailq_supports p \<Longrightarrow> \<exists>s'. st.execs ps s = Some s' \<and>
      (\<forall>h xs. specs ps Map.empty h = Some xs \<longrightarrow> foreach (STAILQ_NEXT s') (STAILQ_FIRST s' h) = Some xs \<and> STAILQ_LAST s' h = Some (if xs = [] then None else Some (last xs)))"
    and "\<forall>p \<in> set ps. list_supports p \<Longrightarrow> \<exists>s'. ll.execs ps s = Some s' \<and>
      (\<forall>h xs. specs ps Map.empty h = Some xs \<longrightarrow> foreach (LIST_NEXT s') (LIST_FIRST s' h) = Some xs)"
proof -
  have e: "fam lt bk s Map.empty" for lt bk by (simp add: fam_def)
  show "\<forall>p \<in> set ps. slist_supports p \<Longrightarrow> \<exists>s'. sl.execs ps s = Some s' \<and>
      (\<forall>h xs. specs ps Map.empty h = Some xs \<longrightarrow> foreach (SLIST_NEXT s') (SLIST_FIRST s' h) = Some xs)"
    using sl.history_foreach [OF e _ assms] by blast
  show "\<forall>p \<in> set ps. stailq_supports p \<Longrightarrow> \<exists>s'. st.execs ps s = Some s' \<and>
      (\<forall>h xs. specs ps Map.empty h = Some xs \<longrightarrow> foreach (STAILQ_NEXT s') (STAILQ_FIRST s' h) = Some xs \<and> STAILQ_LAST s' h = Some (if xs = [] then None else Some (last xs)))"
    using st.history_foreach [OF e _ assms] stailq_last by blast
  show "\<forall>p \<in> set ps. list_supports p \<Longrightarrow> \<exists>s'. ll.execs ps s = Some s' \<and>
      (\<forall>h xs. specs ps Map.empty h = Some xs \<longrightarrow> foreach (LIST_NEXT s') (LIST_FIRST s' h) = Some xs)"
    using ll.history_foreach [OF e _ assms] by blast
qed

section \<open>Examples\<close>

definition queue_example :: "qop list" where
  "queue_example = [Init 0, Insert_tail 0 1, Insert_tail 0 2, Insert_head 0 3, Init 1, Insert_head 1 4, Insert_before 0 2 5,
     Insert_after 0 2 6, Remove 0 1, Concat 1 0]"

theorem tailq_history_witness:
  "\<forall>s. \<exists>s'. tq.execs queue_example s = Some s' \<and> foreach (TAILQ_NEXT s') (TAILQ_FIRST s' 1) = Some [4, 3, 5, 2, 6] \<and>
    foreach (TAILQ_PREV s') (TAILQ_LAST s' 1) = Some [6, 2, 5, 3, 4] \<and> TAILQ_EMPTY s' 0"
proof
  fix s
  have l: "all_legal queue_example Map.empty" by (simp add: queue_example_def fresh_def member_of_def)
  have t: "\<forall>p \<in> set queue_example. tailq_supports p" by (simp add: queue_example_def)
  have q: "specs queue_example Map.empty 1 = Some [4, 3, 5, 2, 6]" "specs queue_example Map.empty 0 = Some []"
    by (simp_all add: queue_example_def)
  from tailq_history [OF l t, of s] obtain s' where s': "tq.execs queue_example s = Some s'"
    and f: "\<And>h xs. specs queue_example Map.empty h = Some xs \<Longrightarrow> foreach (TAILQ_NEXT s') (TAILQ_FIRST s' h) = Some xs \<and>
      foreach (TAILQ_PREV s') (TAILQ_LAST s' h) = Some (rev xs) \<and> TAILQ_EMPTY s' h = (xs = [])" by blast
  show "\<exists>s'. tq.execs queue_example s = Some s' \<and> foreach (TAILQ_NEXT s') (TAILQ_FIRST s' 1) = Some [4, 3, 5, 2, 6] \<and>
    foreach (TAILQ_PREV s') (TAILQ_LAST s' 1) = Some [6, 2, 5, 3, 4] \<and> TAILQ_EMPTY s' 0"
    using s' f [OF q(1)] f [OF q(2)] by (intro exI [of _ s']) simp
qed

end
