(* ===== verification/Mfile_Queue.thy ===== *)
theory Mfile_Queue
  imports Mfile Queue
begin

text \<open>
  How \<^verbatim>\<open>c/libgs/libmfile/mfile.c\<close> and \<^verbatim>\<open>queue.h\<close> fit together: the list of blocks in the model of the file is
  what the pointers of the tail queue represent.
\<close>

section \<open>The queue of a memory file\<close>

text \<open>\<open>mfile.c\<close> keeps its blocks in a tail queue. \<open>Mfile\<close> writes the queue as a list and a block pointer as a
  position; here the list is what the pointers of \<open>Queue\<close> represent: \<open>addrs\<close> are the addresses of the blocks
  in the queue of head \<open>k\<close>, \<open>mem\<close> the contents of the blocks, \<open>wp\<close> and \<open>rp\<close> the pointers \<open>current_write_p\<close>
  and \<open>current_read_p\<close>.\<close>

definition ptr_rel :: "nat list \<Rightarrow> nat option \<Rightarrow> nat option \<Rightarrow> bool" where
  "ptr_rel addrs a p \<longleftrightarrow> (case p of None \<Rightarrow> a = None | Some i \<Rightarrow> i < length addrs \<and> a = Some (addrs ! i))"

definition mfile_rel :: "cells \<Rightarrow> nat \<Rightarrow> nat list \<Rightarrow> (nat \<Rightarrow> data_block) \<Rightarrow> nat option \<Rightarrow> nat option \<Rightarrow> mfile \<Rightarrow> bool" where
  "mfile_rel s k addrs mem wp rp h \<longleftrightarrow> fam True True s [k \<mapsto> addrs] \<and> map mem addrs = mfile.head h \<and>
    ptr_rel addrs wp (write_p h) \<and> ptr_rel addrs rp (read_p h)"

lemma ptr_rel_snoc: "ptr_rel addrs a p \<Longrightarrow> ptr_rel (addrs @ [e]) a p"
  by (auto simp: ptr_rel_def nth_append split: option.splits)

lemma ptr_rel_Cons: "ptr_rel addrs a p \<Longrightarrow> ptr_rel (e # addrs) a (map_option Suc p)"
  by (auto simp: ptr_rel_def split: option.splits)

lemma fam_one: "fam True True s [k \<mapsto> xs] \<Longrightarrow> distinct xs"
  using famD(1) [of True True s "[k \<mapsto> xs]" k xs] by (simp add: rep_def)


text \<open>An opened file has an empty queue.\<close>

lemma mopen_queue:
  assumes "mopen fl ok af fe sz = Some (Some h)"
  shows "mfile_rel (Queue.TAILQ_INIT k s) k [] mem None None h"
proof -
  have "fam True True s Map.empty" by (simp add: fam_def)
  then have "fam True True (Queue.TAILQ_INIT k s) [k \<mapsto> []]" using tailq_step [of s Map.empty "Init k"] by simp
  moreover have "mfile.head h = [] \<and> write_p h = None \<and> read_p h = None"
    using assms by (auto simp: mopen_def split: if_splits)
  ultimately show ?thesis by (simp add: mfile_rel_def ptr_rel_def)
qed


end
