(* ===== verification/Stralloc.thy ===== *)
theory Stralloc
  imports Prelude
begin

text \<open>
  Model of \<^verbatim>\<open>c/libgs/libstralloc/stralloc.c\<close>: growing byte strings over an allocator that carves
  blocks from a static pool, downwards, and falls back to \<open>malloc\<close>. A pointer is an offset into the
  pool or the number of a block of \<open>malloc\<close>; a freed block is absent, and every access to it or
  outside a block, and every \<open>free\<close> of something else, is undefined behaviour, the result \<open>None\<close>.
  The outcome of \<open>malloc\<close> is the parameter \<open>ok\<close> of the operations that may call it, the bytes it
  hands out are whatever \<open>fill\<close> says. The \<open>int\<close> fields \<open>len\<close> and \<open>a\<close> are kept as their 32 bits,
  as the code mixes them with \<open>unsigned\<close>. A block is read before it is written: \<open>memcpy\<close> of a buffer
  onto itself (\<open>stralloc_copy\<close> of a string to itself) leaves it as it is.
\<close>

unbundle bit_operations_syntax

section \<open>Memory\<close>

datatype ptr = Pool nat | Heap nat

record memory =
  pool :: "byte list"
  avail :: u32
  blocks :: "nat \<Rightarrow> byte list option"
  fresh :: nat
  fill :: "nat \<Rightarrow> byte"

definition SPACE :: nat where "SPACE = 4096"
definition ALIGNMENT :: u32 where "ALIGNMENT = 16"

definition valid :: "memory \<Rightarrow> ptr \<Rightarrow> bool" where
  "valid m p = (case p of Pool off \<Rightarrow> True | Heap b \<Rightarrow> blocks m b \<noteq> None)"

definition region :: "memory \<Rightarrow> ptr \<Rightarrow> byte list" where
  "region m p = (case p of Pool off \<Rightarrow> drop off (pool m) | Heap b \<Rightarrow> (case blocks m b of None \<Rightarrow> [] | Some l \<Rightarrow> l))"

definition fetch :: "memory \<Rightarrow> ptr \<Rightarrow> nat \<Rightarrow> byte list option" where
  "fetch m p n = (if valid m p then rd_block (region m p) 0 n else None)"

definition set_region :: "ptr \<Rightarrow> byte list \<Rightarrow> memory \<Rightarrow> memory" where
  "set_region p r m = (case p of
      Pool off \<Rightarrow> m\<lparr>pool := take off (pool m) @ r\<rparr>
    | Heap b \<Rightarrow> m\<lparr>blocks := (blocks m)(b \<mapsto> r)\<rparr>)"

definition stor :: "memory \<Rightarrow> ptr \<Rightarrow> nat \<Rightarrow> byte list \<Rightarrow> memory option" where
  "stor m p off bs =
    (if valid m p then map_option (\<lambda>r. set_region p r m) (memcpy (region m p) off bs) else None)"

text \<open>\<open>_alloc\<close>, \<open>_alloc_free\<close> and \<open>_alloc_re\<close>.\<close>

definition alloc_round :: "u32 \<Rightarrow> u32" where
  "alloc_round n = ALIGNMENT + n - (n AND (ALIGNMENT - 1))"

definition alloc :: "bool \<Rightarrow> u32 \<Rightarrow> memory \<Rightarrow> ptr option \<times> memory" where
  "alloc ok n0 m =
    (let n = alloc_round n0
     in if n \<le> avail m then (Some (Pool (unat (avail m - n))), m\<lparr>avail := avail m - n\<rparr>)
        else if ok then
          (Some (Heap (fresh m)),
           m\<lparr>blocks := (blocks m)(fresh m \<mapsto> map (fill m) [0..<unat n]), fresh := fresh m + 1\<rparr>)
        else (None, m))"

definition alloc_free :: "ptr \<Rightarrow> memory \<Rightarrow> memory option" where
  "alloc_free x m = (case x of
      Pool off \<Rightarrow> if off < SPACE then Some m else None
    | Heap b \<Rightarrow> if blocks m b = None then None else Some (m\<lparr>blocks := (blocks m)(b := None)\<rparr>))"

definition alloc_re :: "bool \<Rightarrow> ptr \<Rightarrow> u32 \<Rightarrow> u32 \<Rightarrow> memory \<Rightarrow> (ptr option \<times> memory) option" where
  "alloc_re ok x i n m =
    (case alloc ok n m of
       (None, m1) \<Rightarrow> Some (None, m1)
     | (Some y, m1) \<Rightarrow> do {
         old \<leftarrow> fetch m1 x (unat i);
         m2 \<leftarrow> stor m1 y 0 old;
         m3 \<leftarrow> alloc_free x m2;
         Some (Some y, m3) })"

section \<open>Strings\<close>

record stralloc =
  sa_s :: "ptr option"
  sa_len :: u32
  sa_a :: u32

text \<open>The string operand of an operation: bytes of the caller, or a pointer into the memory above.\<close>

datatype source = Ext "byte list" | Ptr "ptr option"

definition fetch_src :: "memory \<Rightarrow> source \<Rightarrow> nat \<Rightarrow> byte list option" where
  "fetch_src m src n = (case src of
      Ext bs \<Rightarrow> rd_block bs 0 n
    | Ptr None \<Rightarrow> if n = 0 then Some [] else None
    | Ptr (Some p) \<Rightarrow> fetch m p n)"

text \<open>An \<open>int\<close> used as an offset.\<close>

definition offset :: "u32 \<Rightarrow> nat option" where
  "offset w = (if 0 \<le> sint w then Some (unat w) else None)"

definition stralloc_starts :: "memory \<Rightarrow> stralloc \<Rightarrow> byte list \<Rightarrow> bool option" where
  "stralloc_starts m sa s =
    (if sint (of_nat (length s) :: u32) \<le> sint (sa_len sa) then do {
       bs \<leftarrow> fetch_src m (Ptr (sa_s sa)) (length s);
       Some (bs = s) }
     else Some False)"

definition regrow :: "bool \<Rightarrow> u32 \<Rightarrow> ptr \<Rightarrow> memory \<times> stralloc \<Rightarrow> (int \<times> memory \<times> stralloc) option" where
  "regrow ok n p mx = (case mx of (m, x) \<Rightarrow>
    let i = sa_a x; a' = 30 + n + drop_bit 3 n
    in if i < n then do {
         (y, m') \<leftarrow> alloc_re ok p i a' m;
         Some (case y of
             Some q \<Rightarrow> (1, m', x\<lparr>sa_s := Some q, sa_a := a'\<rparr>)
           | None \<Rightarrow> (0, m', x\<lparr>sa_a := i\<rparr>)) }
       else Some (1, m, x))"

definition init_alloc :: "bool \<Rightarrow> u32 \<Rightarrow> memory \<times> stralloc \<Rightarrow> int \<times> memory \<times> stralloc" where
  "init_alloc ok n mx = (case mx of (m, x) \<Rightarrow>
    case alloc ok n m of (y, m') \<Rightarrow>
      (if y = None then 0 else 1, m', x\<lparr>sa_s := y, sa_len := 0, sa_a := n\<rparr>))"

definition stralloc_ready :: "bool \<Rightarrow> u32 \<Rightarrow> memory \<times> stralloc \<Rightarrow> (int \<times> memory \<times> stralloc) option" where
  "stralloc_ready ok n mx =
    (case sa_s (snd mx) of Some p \<Rightarrow> regrow ok n p mx | None \<Rightarrow> Some (init_alloc ok n mx))"

definition stralloc_readyplus :: "bool \<Rightarrow> u32 \<Rightarrow> memory \<times> stralloc \<Rightarrow> (int \<times> memory \<times> stralloc) option" where
  "stralloc_readyplus ok n mx =
    (case sa_s (snd mx) of
       Some p \<Rightarrow> regrow ok (n + sa_len (snd mx)) p mx
     | None \<Rightarrow> Some (init_alloc ok n mx))"

definition put_bytes :: "nat \<Rightarrow> source \<Rightarrow> nat \<Rightarrow> memory \<times> stralloc \<Rightarrow> memory option" where
  "put_bytes off src n mx = do {
     p \<leftarrow> sa_s (snd mx);
     bs \<leftarrow> fetch_src (fst mx) src n;
     m1 \<leftarrow> stor (fst mx) p off bs;
     stor m1 p (off + n) [0] }"

definition stralloc_copyb ::
  "bool \<Rightarrow> source \<Rightarrow> u32 \<Rightarrow> memory \<times> stralloc \<Rightarrow> (int \<times> memory \<times> stralloc) option" where
  "stralloc_copyb ok src n mx = do {
     (r, m, x) \<leftarrow> stralloc_ready ok (n + 1) mx;
     if r = 0 then Some (0, m, x)
     else do { m' \<leftarrow> put_bytes 0 src (unat n) (m, x); Some (1, m', x\<lparr>sa_len := n\<rparr>) } }"

definition stralloc_copys :: "bool \<Rightarrow> byte list \<Rightarrow> memory \<times> stralloc \<Rightarrow> (int \<times> memory \<times> stralloc) option" where
  "stralloc_copys ok s mx = stralloc_copyb ok (Ext s) (of_nat (length s)) mx"

definition stralloc_copy :: "bool \<Rightarrow> stralloc \<Rightarrow> memory \<times> stralloc \<Rightarrow> (int \<times> memory \<times> stralloc) option" where
  "stralloc_copy ok from mx = stralloc_copyb ok (Ptr (sa_s from)) (sa_len from) mx"

definition stralloc_catb ::
  "bool \<Rightarrow> source \<Rightarrow> u32 \<Rightarrow> memory \<times> stralloc \<Rightarrow> (int \<times> memory \<times> stralloc) option" where
  "stralloc_catb ok src n mx =
    (if sa_s (snd mx) = None then stralloc_copyb ok src n mx
     else do {
       (r, m, x) \<leftarrow> stralloc_readyplus ok (n + 1) mx;
       if r = 0 then Some (0, m, x)
       else do {
         off \<leftarrow> offset (sa_len x);
         _ \<leftarrow> offset (sa_len x + n);
         m' \<leftarrow> put_bytes off src (unat n) (m, x);
         Some (1, m', x\<lparr>sa_len := sa_len x + n\<rparr>) } })"

definition stralloc_cats :: "bool \<Rightarrow> byte list \<Rightarrow> memory \<times> stralloc \<Rightarrow> (int \<times> memory \<times> stralloc) option" where
  "stralloc_cats ok s mx = stralloc_catb ok (Ext s) (of_nat (length s)) mx"

definition stralloc_cat :: "bool \<Rightarrow> stralloc \<Rightarrow> memory \<times> stralloc \<Rightarrow> (int \<times> memory \<times> stralloc) option" where
  "stralloc_cat ok from mx = stralloc_catb ok (Ptr (sa_s from)) (sa_len from) mx"

definition stralloc_free :: "memory \<times> stralloc \<Rightarrow> (memory \<times> stralloc) option" where
  "stralloc_free mx = (case mx of (m, x) \<Rightarrow>
    case sa_s x of
      None \<Rightarrow> Some (m, x)
    | Some p \<Rightarrow> do { m' \<leftarrow> alloc_free p m; Some (m', x\<lparr>sa_s := None, sa_len := 0, sa_a := 0\<rparr>) })"

section \<open>The allocator\<close>

text \<open>\<open>owns m p k\<close>: the first \<open>k\<close> bytes at \<open>p\<close> belong to an allocated block. Two blocks are \<open>apart\<close>
  when they share no byte.\<close>

definition mem_ok :: "memory \<Rightarrow> bool" where
  "mem_ok m \<longleftrightarrow> length (pool m) = SPACE \<and> unat (avail m) \<le> SPACE \<and> (\<forall>b \<ge> fresh m. blocks m b = None)"

definition owns :: "memory \<Rightarrow> ptr \<Rightarrow> nat \<Rightarrow> bool" where
  "owns m p k \<longleftrightarrow> valid m p \<and> 0 < k \<and> k \<le> length (region m p) \<and>
    (case p of Pool off \<Rightarrow> unat (avail m) \<le> off | Heap b \<Rightarrow> True)"

definition view :: "memory \<Rightarrow> ptr \<Rightarrow> nat \<Rightarrow> byte list" where
  "view m p k = take k (region m p)"

fun apart :: "ptr \<Rightarrow> nat \<Rightarrow> ptr \<Rightarrow> nat \<Rightarrow> bool" where
  "apart (Pool i) k (Pool j) l = (i + k \<le> j \<or> j + l \<le> i)"
| "apart (Heap a) k (Heap b) l = (a \<noteq> b)"
| "apart _ _ _ _ = True"

definition keeps :: "memory \<Rightarrow> memory \<Rightarrow> ptr \<Rightarrow> nat \<Rightarrow> bool" where
  "keeps m m' q l \<longleftrightarrow> owns m' q l \<and> view m' q l = view m q l"

lemma keeps_refl: "owns m q l \<Longrightarrow> keeps m m q l"
  by (simp add: keeps_def)

lemma keeps_trans: "keeps m m' q l \<Longrightarrow> keeps m' m'' q l \<Longrightarrow> keeps m m'' q l"
  by (simp add: keeps_def)

lemma owns_less: "owns m p k \<Longrightarrow> 0 < j \<Longrightarrow> j \<le> k \<Longrightarrow> owns m p j"
  by (simp add: owns_def split: ptr.splits)

lemma view_less: "j \<le> k \<Longrightarrow> view m p j = take j (view m p k)"
  by (simp add: view_def min_def)

lemma view_length: "owns m p k \<Longrightarrow> length (view m p k) = k"
  by (simp add: view_def owns_def)

lemma fetch_owned: "owns m p k \<Longrightarrow> j \<le> k \<Longrightarrow> fetch m p j = Some (take j (view m p k))"
  by (auto simp: fetch_def rd_block_def owns_def view_def min_def)

lemma take_patch:
  "off + length bs \<le> k \<Longrightarrow> k \<le> length xs \<Longrightarrow>
    take k (take off xs @ bs @ drop (off + length bs) xs) = take off (take k xs) @ bs @ drop (off + length bs) (take k xs)"
  by (simp add: drop_take)

lemma take_drop_patch:
  assumes "i + length bs \<le> j \<or> j + l \<le> i" "i + length bs \<le> length xs"
  shows "take l (drop j (take i xs @ bs @ drop (i + length bs) xs)) = take l (drop j xs)"
  using assms by (elim disjE) (simp_all add: drop_take)

lemma stor_frame:
  assumes "owns m p k" "off + length bs \<le> k" "owns m q l" "apart p k q l"
  shows "keeps m (set_region p (take off (region m p) @ bs @ drop (off + length bs) (region m p)) m) q l"
    (is "keeps m ?m q l")
proof (cases p)
  case (Heap a)
  then show ?thesis using assms(3,4)
    by (cases q) (auto simp: keeps_def set_region_def owns_def view_def region_def valid_def)
next
  case (Pool i)
  have "take i (pool m) @ take off (drop i (pool m)) = take (i + off) (pool m)" by (simp add: take_add)
  moreover have "drop (off + length bs) (drop i (pool m)) = drop (i + off + length bs) (pool m)" by (simp add: ac_simps)
  ultimately have eq: "pool ?m = take (i + off) (pool m) @ bs @ drop (i + off + length bs) (pool m)"
    using Pool by (simp add: set_region_def region_def ac_simps del: drop_drop)
  have le: "i + off + length bs \<le> length (pool m)" using assms(1,2) Pool by (auto simp: region_def owns_def)
  show ?thesis
  proof (cases q)
    case (Heap b)
    then show ?thesis using assms(3) Pool by (auto simp: keeps_def set_region_def owns_def view_def region_def valid_def)
  next
    case (Pool j)
    then have "i + off + length bs \<le> j \<or> j + l \<le> i + off" using assms(2,4) \<open>p = Pool i\<close> by auto
    then have "view ?m q l = view m q l"
      using take_drop_patch [of "i + off" bs j l "pool m"] le eq Pool by (simp add: view_def region_def)
    then show ?thesis using assms(3) Pool eq le \<open>p = Pool i\<close>
      by (auto simp: keeps_def owns_def region_def valid_def set_region_def)
  qed
qed

lemma stor_owned:
  assumes "mem_ok m" "owns m p k" "off + length bs \<le> k"
  obtains m' where "stor m p off bs = Some m'" "mem_ok m'" "owns m' p k"
    "view m' p k = take off (view m p k) @ bs @ drop (off + length bs) (view m p k)"
    "\<And>q l. owns m q l \<Longrightarrow> apart p k q l \<Longrightarrow> keeps m m' q l"
    "\<And>b. blocks m b = None \<longleftrightarrow> blocks m' b = None"
proof -
  let ?r = "take off (region m p) @ bs @ drop (off + length bs) (region m p)"
  let ?m = "set_region p ?r m"
  have len: "off + length bs \<le> length (region m p)" using assms(2,3) by (simp add: owns_def)
  have reg: "region ?m p = ?r" using assms(1,2) len
    by (auto simp: set_region_def region_def mem_ok_def owns_def min_def split: ptr.splits)
  have "stor m p off bs = Some ?m" using len assms(2) by (simp add: stor_def memcpy_def owns_def)
  moreover have "mem_ok ?m" using assms(1,2) len
    by (auto simp: set_region_def region_def mem_ok_def owns_def valid_def split: ptr.splits)
  moreover have "owns ?m p k" using assms(2) reg len
    by (auto simp: owns_def valid_def set_region_def split: ptr.splits)
  moreover have "view ?m p k = take off (view m p k) @ bs @ drop (off + length bs) (view m p k)"
    using take_patch [of off bs k "region m p"] assms(2,3) by (simp add: view_def reg owns_def)
  moreover have "keeps m ?m q l" if "owns m q l" "apart p k q l" for q l
    using stor_frame [of m p k off bs q l] that assms(2,3) by simp
  moreover have "blocks m b = None \<longleftrightarrow> blocks ?m b = None" for b
    using assms(2) by (auto simp: set_region_def owns_def valid_def split: ptr.splits)
  ultimately show thesis using that [of ?m] by blast
qed

lemma round_ge:
  assumes "unat n + 16 < 2 ^ 32"
  shows "unat n < unat (alloc_round n)"
proof -
  have "n AND 15 = take_bit 4 n" by (simp add: take_bit_eq_mask mask_eq_exp_minus_1)
  then have r: "unat (n AND 15) = unat n mod 16" by (simp only: unsigned_take_bit_eq) (simp add: take_bit_eq_mod)
  have s: "unat (16 + n) = 16 + unat n" using assms unat_add_lem [of 16 n] by simp
  then have "n AND 15 \<le> 16 + n" using r by (simp add: word_le_nat_alt)
  then have "unat (16 + n - (n AND 15)) = 16 + unat n - unat n mod 16" using unat_sub r s by metis
  moreover have "unat n mod 16 < 16" by simp
  ultimately show ?thesis by (simp add: alloc_round_def ALIGNMENT_def)
qed

lemma alloc_spec:
  assumes "mem_ok m" "unat n + 16 < 2 ^ 32" "0 < n" "alloc ok n m = (y, m')"
  shows "mem_ok m'" "\<And>q l. owns m q l \<Longrightarrow> keeps m m' q l"
    "y = None \<Longrightarrow> m' = m" "y = Some p \<Longrightarrow> owns m' p (unat n) \<and> (\<forall>q l. owns m q l \<longrightarrow> apart p (unat n) q l)"
    "y = Some (Heap b) \<Longrightarrow> b = fresh m" "ok \<Longrightarrow> y \<noteq> None"
proof -
  have n: "unat n < unat (alloc_round n)" "0 < unat n" using round_ge [OF assms(2)] assms(3) by (simp_all add: unat_gt_0)
  consider (pool) "alloc_round n \<le> avail m" "y = Some (Pool (unat (avail m - alloc_round n)))" "m' = m\<lparr>avail := avail m - alloc_round n\<rparr>"
    | (heap) "y = Some (Heap (fresh m))" "m' = m\<lparr>blocks := (blocks m)(fresh m \<mapsto> map (fill m) [0..<unat (alloc_round n)]), fresh := fresh m + 1\<rparr>"
    | (fail) "y = None" "m' = m" "\<not> ok"
    using assms(4) unfolding alloc_def Let_def
    by (cases "alloc_round n \<le> avail m"; cases ok; simp only: if_True if_False Pair_inject; blast)
  note c = this
  have sub: "unat (avail m - alloc_round n) = unat (avail m) - unat (alloc_round n)" if "alloc_round n \<le> avail m"
    using that by (rule unat_sub)
  have le: "unat (alloc_round n) \<le> unat (avail m)" if "alloc_round n \<le> avail m" using that by (simp add: word_le_nat_alt)
  show "mem_ok m'" using c sub assms(1) by cases (auto simp: mem_ok_def)
  show "keeps m m' q l" if "owns m q l" for q l
    using c
  proof cases
    case pool
    then show ?thesis using that sub by (cases q) (auto simp: keeps_def owns_def view_def region_def valid_def)
  next
    case heap
    have "q \<noteq> Heap (fresh m)" using that assms(1) by (auto simp: owns_def valid_def mem_ok_def)
    then show ?thesis using that heap by (cases q) (auto simp: keeps_def owns_def view_def region_def valid_def)
  qed (use that in \<open>simp add: keeps_def\<close>)
  show "y = None \<Longrightarrow> m' = m" "y = Some (Heap b) \<Longrightarrow> b = fresh m" "ok \<Longrightarrow> y \<noteq> None" using c by (cases; auto)+
  show "owns m' p (unat n) \<and> (\<forall>q l. owns m q l \<longrightarrow> apart p (unat n) q l)" if "y = Some p"
    using c
  proof cases
    case pool
    have "apart p (unat n) q l" if "owns m q l" for q l
      using that pool \<open>y = Some p\<close> sub le n(1) by (cases q) (auto simp: owns_def)
    then show ?thesis using pool that sub le n assms(1) by (auto simp: owns_def valid_def region_def mem_ok_def)
  next
    case heap
    have "apart p (unat n) q l" if "owns m q l" for q l
      using that heap \<open>y = Some p\<close> assms(1) by (cases q) (auto simp: owns_def valid_def mem_ok_def)
    then show ?thesis using heap that n by (auto simp: owns_def valid_def region_def)
  qed (use that in simp)
qed

lemma alloc_free_spec:
  assumes "mem_ok m" "owns m p k"
  obtains m' where "alloc_free p m = Some m'" "mem_ok m'" "\<And>r l. owns m r l \<Longrightarrow> apart p k r l \<Longrightarrow> keeps m m' r l"
proof (cases p)
  case (Pool off)
  then have "alloc_free p m = Some m" using assms by (auto simp: alloc_free_def owns_def region_def mem_ok_def)
  then show thesis using assms(1) by (rule that) (rule keeps_refl)
next
  case (Heap b)
  let ?m = "m\<lparr>blocks := (blocks m)(b := None)\<rparr>"
  have "alloc_free p m = Some ?m" using Heap assms(2) by (auto simp: alloc_free_def owns_def valid_def)
  moreover have "mem_ok ?m" using assms(1) by (auto simp: mem_ok_def)
  moreover have "keeps m ?m r l" if "owns m r l" "apart p k r l" for r l
    using that Heap by (cases r) (auto simp: keeps_def owns_def view_def region_def valid_def)
  ultimately show thesis by (rule that)
qed

lemma alloc_re_spec:
  assumes "mem_ok m" "owns m p (unat i)" "i \<le> n" "unat n + 16 < 2 ^ 32"
  obtains (fail) "alloc_re ok p i n m = Some (None, m)" "\<not> ok"
  | (grown) q m' where "alloc_re ok p i n m = Some (Some q, m')" "mem_ok m'" "owns m' q (unat n)"
      "take (unat i) (view m' q (unat n)) = view m p (unat i)"
      "\<And>r l. owns m r l \<Longrightarrow> apart p (unat i) r l \<Longrightarrow> keeps m m' r l \<and> apart q (unat n) r l"
proof -
  obtain y m1 where y: "alloc ok n m = (y, m1)" by fastforce
  have i: "0 < unat i" "unat i \<le> unat n" using assms(2,3) by (simp_all add: owns_def word_le_nat_alt)
  then have "0 < n" by (metis gr_zeroI le_zero_eq not_gr_zero unsigned_0 word_gt_0)
  note spec = alloc_spec [OF assms(1,4) this y]
  show thesis
  proof (cases y)
    case None
    then show ?thesis using spec(3,6) y by (intro fail) (auto simp: alloc_re_def)
  next
    case (Some q)
    have q: "owns m1 q (unat n)" "\<And>r l. owns m r l \<Longrightarrow> apart q (unat n) r l" using spec(4) [OF Some] by blast+
    have p1: "keeps m m1 p (unat i)" using spec(2) [OF assms(2)] .
    then have old: "fetch m1 p (unat i) = Some (view m p (unat i))"
      using fetch_owned [of m1 p "unat i" "unat i"] view_length [of m1 p "unat i"] by (simp add: keeps_def)
    have len: "length (view m p (unat i)) = unat i" using view_length [OF assms(2)] .
    then have "0 + length (view m p (unat i)) \<le> unat n" using i by simp
    then obtain m2 where m2: "stor m1 q 0 (view m p (unat i)) = Some m2" "mem_ok m2" "owns m2 q (unat n)"
      "view m2 q (unat n) = take 0 (view m1 q (unat n)) @ view m p (unat i) @ drop (0 + length (view m p (unat i))) (view m1 q (unat n))"
      "\<And>r l. owns m1 r l \<Longrightarrow> apart q (unat n) r l \<Longrightarrow> keeps m1 m2 r l"
      by (rule stor_owned [OF spec(1) q(1)]) blast
    have keep: "keeps m m2 r l" if "owns m r l" for r l
      using keeps_trans [OF spec(2) [OF that]] m2(5) q(2) [OF that] spec(2) [OF that] by (simp add: keeps_def)
    have p2: "owns m2 p (unat i)" using keep [OF assms(2)] by (simp add: keeps_def)
    obtain m3 where m3: "alloc_free p m2 = Some m3" "mem_ok m3"
      "\<And>r l. owns m2 r l \<Longrightarrow> apart p (unat i) r l \<Longrightarrow> keeps m2 m3 r l"
      using alloc_free_spec [OF m2(2) p2] by blast
    have "apart p (unat i) q (unat n)" using q(2) [OF assms(2)] by (cases p; cases q) auto
    then have q3: "keeps m2 m3 q (unat n)" using m3(3) m2(3) by blast
    show ?thesis
    proof (rule grown)
      show "alloc_re ok p i n m = Some (Some q, m3)" using y Some old m2(1) m3(1) by (simp add: alloc_re_def)
      show "owns m3 q (unat n)" "take (unat i) (view m3 q (unat n)) = view m p (unat i)"
        using q3 m2(4) len by (simp_all add: keeps_def)
      show "keeps m m3 r l \<and> apart q (unat n) r l" if "owns m r l" "apart p (unat i) r l" for r l
        using keeps_trans [OF keep [OF that(1)]] m3(3) that keep [OF that(1)] q(2) by (simp add: keeps_def)
    qed (rule m3(2))
  qed
qed

section \<open>Strings\<close>

text \<open>\<open>text m x\<close> is the string \<open>x\<close> holds; \<open>sa_room\<close> says its buffer is allocated and long enough,
  \<open>sa_ok\<close> that it is terminated as well. A block is \<open>foreign\<close> when it is allocated and not the
  buffer of \<open>x\<close>; \<open>frame\<close> that foreign blocks keep their bytes and stay foreign.\<close>

definition txt_of :: "memory \<Rightarrow> stralloc \<Rightarrow> byte list" where
  "txt_of m x = (case sa_s x of None \<Rightarrow> [] | Some p \<Rightarrow> take (unat (sa_len x)) (view m p (unat (sa_a x))))"

definition sa_room :: "memory \<Rightarrow> stralloc \<Rightarrow> bool" where
  "sa_room m x \<longleftrightarrow> (case sa_s x of
      None \<Rightarrow> sa_len x = 0
    | Some p \<Rightarrow> owns m p (unat (sa_a x)) \<and> sa_len x \<le> sa_a x \<and> unat (sa_len x) < 2 ^ 31)"

definition sa_ok :: "memory \<Rightarrow> stralloc \<Rightarrow> bool" where
  "sa_ok m x \<longleftrightarrow> mem_ok m \<and> sa_room m x \<and>
    (case sa_s x of None \<Rightarrow> True | Some p \<Rightarrow> sa_len x < sa_a x \<and> view m p (unat (sa_a x)) ! unat (sa_len x) = 0)"

definition foreign :: "memory \<Rightarrow> stralloc \<Rightarrow> ptr \<Rightarrow> nat \<Rightarrow> bool" where
  "foreign m x r l \<longleftrightarrow> owns m r l \<and> (case sa_s x of None \<Rightarrow> True | Some p \<Rightarrow> apart p (unat (sa_a x)) r l)"

definition frame :: "memory \<times> stralloc \<Rightarrow> memory \<times> stralloc \<Rightarrow> bool" where
  "frame mx mx' \<longleftrightarrow> (\<forall>r l. foreign (fst mx) (snd mx) r l \<longrightarrow>
    keeps (fst mx) (fst mx') r l \<and> foreign (fst mx') (snd mx') r l)"

lemma frame_refl: "frame mx mx"
  by (auto simp: frame_def foreign_def keeps_def)

lemma frame_trans: "frame mx my \<Longrightarrow> frame my mz \<Longrightarrow> frame mx mz"
  unfolding frame_def using keeps_trans by blast

definition grown :: "bool \<Rightarrow> nat \<Rightarrow> memory \<times> stralloc \<Rightarrow> int \<times> memory \<times> stralloc \<Rightarrow> bool" where
  "grown ok k mx res = (case (mx, res) of ((m, x), r, m', x') \<Rightarrow>
    frame (m, x) (m', x') \<and> txt_of m' x' = txt_of m x \<and> mem_ok m' \<and> sa_room m' x' \<and>
    (r = 0 \<and> \<not> ok \<and> (sa_ok m x \<longrightarrow> sa_ok m' x') \<or>
     r = 1 \<and> k \<le> unat (sa_a x') \<and> sa_s x' \<noteq> None \<and> sa_len x' = sa_len x))"

lemma growth_size:
  assumes "unat (n :: u32) < 2 ^ 31"
  shows "unat n \<le> unat (30 + n + drop_bit 3 n)" "unat (30 + n + drop_bit 3 n) + 16 < 2 ^ 32"
proof -
  have d: "unat (drop_bit 3 n) = unat n div 8" by (simp add: drop_bit_eq_div unat_div)
  have q: "unat n div 8 < 2 ^ 28" using assms by (simp add: less_mult_imp_div_less)
  have "unat (30 + n) = 30 + unat n" using assms unat_add_lem [of 30 n] by simp
  moreover have "unat (30 + n + drop_bit 3 n) = unat (30 + n) + unat (drop_bit 3 n)"
    using assms unat_add_lem [of "30 + n" "drop_bit 3 n"] calculation d q by simp
  ultimately have "unat (30 + n + drop_bit 3 n) = 30 + unat n + unat n div 8" using d by simp
  then show "unat n \<le> unat (30 + n + drop_bit 3 n)" "unat (30 + n + drop_bit 3 n) + 16 < 2 ^ 32" using assms by simp_all
qed

lemma regrow_spec:
  assumes "mem_ok m" "sa_room m x" "sa_s x = Some p" "unat n < 2 ^ 31"
  shows "\<exists>res. regrow ok n p (m, x) = Some res \<and> grown ok (unat n) (m, x) res"
proof (cases "sa_a x < n")
  case False
  then have "unat n \<le> unat (sa_a x)" by (simp add: word_le_nat_alt not_less)
  then show ?thesis using assms False
    by (intro exI [of _ "(1, m, x)"]) (simp add: regrow_def Let_def grown_def frame_refl)
next
  case True
  let ?a = "30 + n + drop_bit 3 n"
  have i: "owns m p (unat (sa_a x))" "sa_len x \<le> sa_a x" "unat (sa_len x) < 2 ^ 31" using assms(2,3) by (simp_all add: sa_room_def)
  have a: "sa_a x \<le> ?a" "unat ?a + 16 < 2 ^ 32" "unat n \<le> unat ?a"
    using growth_size [OF assms(4)] True by (auto simp: word_le_nat_alt word_less_nat_alt)
  show ?thesis
    using assms(1) i(1) a(1,2)
  proof (cases rule: alloc_re_spec [where ok = ok])
    case fail
    have "x\<lparr>sa_a := sa_a x\<rparr> = x" by simp
    then show ?thesis using fail True assms by (auto simp: regrow_def grown_def frame_refl)
  next
    case (grown q m')
    let ?x = "x\<lparr>sa_s := Some q, sa_a := ?a\<rparr>"
    have le: "unat (sa_len x) \<le> unat (sa_a x)" "sa_len x \<le> ?a" using i(2) a(1) by (auto simp: word_le_nat_alt)
    have "take (unat (sa_len x)) (view m' q (unat ?a)) = take (unat (sa_len x)) (take (unat (sa_a x)) (view m' q (unat ?a)))"
      using le(1) by (simp add: min_def)
    then have "txt_of m' ?x = txt_of m x" using assms(3) grown(4) by (simp add: txt_of_def)
    moreover have "frame (m, x) (m', ?x)" using grown(5) assms(3) by (auto simp: frame_def foreign_def keeps_def)
    moreover have "sa_room m' ?x" using grown(3) le(2) i(3) by (simp add: sa_room_def)
    ultimately show ?thesis using grown(1,2) True a(3) by (auto simp: regrow_def grown_def)
  qed
qed

lemma init_alloc_spec:
  assumes "mem_ok m" "sa_s x = None" "sa_room m x" "unat n + 16 < 2 ^ 32" "0 < n"
  shows "grown ok (unat n) (m, x) (init_alloc ok n (m, x))"
proof -
  obtain y m' where y: "alloc ok n m = (y, m')" by fastforce
  note spec = alloc_spec [OF assms(1,4,5) y]
  show ?thesis
  proof (cases y)
    case None
    then show ?thesis using y spec assms
      by (auto simp: init_alloc_def grown_def txt_of_def sa_room_def sa_ok_def frame_def foreign_def)
  next
    case (Some q)
    then show ?thesis using y spec(1,2) spec(4) [OF Some] assms(2,3)
      by (auto simp: init_alloc_def grown_def txt_of_def sa_room_def frame_def foreign_def keeps_def)
  qed
qed

text \<open>A source \<open>provides\<close> bytes when it is the caller's or lies in a foreign block.\<close>

definition provides :: "memory \<times> stralloc \<Rightarrow> source \<Rightarrow> byte list \<Rightarrow> bool" where
  "provides mx src bs = (case src of
      Ext b \<Rightarrow> length bs \<le> length b \<and> bs = take (length bs) b
    | Ptr None \<Rightarrow> bs = []
    | Ptr (Some q) \<Rightarrow> (\<exists>l. foreign (fst mx) (snd mx) q l \<and> length bs \<le> l \<and> bs = take (length bs) (view (fst mx) q l)))"

lemma provides_frame: "frame mx mx' \<Longrightarrow> provides mx src bs \<Longrightarrow> provides mx' src bs"
  unfolding provides_def by (auto simp: frame_def keeps_def split: source.splits option.splits) metis

lemma provides_fetch: "provides (m, x) src bs \<Longrightarrow> fetch_src m src (length bs) = Some bs"
  by (auto simp: provides_def fetch_src_def rd_block_def foreign_def fetch_owned split: source.splits option.splits)

lemma put_bytes_spec:
  assumes "mem_ok m" "sa_room m x" "sa_s x = Some p" "provides (m, x) src bs" "off + length bs < unat (sa_a x)"
  obtains m' where "put_bytes off src (length bs) (m, x) = Some m'" "mem_ok m'" "frame (m, x) (m', x)"
    "owns m' p (unat (sa_a x))"
    "take (off + length bs + 1) (view m' p (unat (sa_a x))) = take off (view m p (unat (sa_a x))) @ bs @ [0]"
proof -
  let ?v = "view m p (unat (sa_a x))"
  have own: "owns m p (unat (sa_a x))" using assms(2,3) by (simp add: sa_room_def)
  then have len: "length ?v = unat (sa_a x)" by (rule view_length)
  have fit: "off + length bs \<le> unat (sa_a x)" using assms(5) by simp
  obtain m1 where m1: "stor m p off bs = Some m1" "mem_ok m1" "owns m1 p (unat (sa_a x))"
    "view m1 p (unat (sa_a x)) = take off ?v @ bs @ drop (off + length bs) ?v"
    "\<And>q l. owns m q l \<Longrightarrow> apart p (unat (sa_a x)) q l \<Longrightarrow> keeps m m1 q l"
    by (rule stor_owned [OF assms(1) own fit]) blast
  have fit1: "off + length bs + length [0 :: byte] \<le> unat (sa_a x)" using assms(5) by simp
  obtain m2 where m2: "stor m1 p (off + length bs) [0] = Some m2" "mem_ok m2" "owns m2 p (unat (sa_a x))"
    "view m2 p (unat (sa_a x)) = take (off + length bs) (view m1 p (unat (sa_a x))) @ [0]
      @ drop (off + length bs + length [0 :: byte]) (view m1 p (unat (sa_a x)))"
    "\<And>q l. owns m1 q l \<Longrightarrow> apart p (unat (sa_a x)) q l \<Longrightarrow> keeps m1 m2 q l"
    by (rule stor_owned [OF m1(2,3) fit1]) blast
  have "put_bytes off src (length bs) (m, x) = Some m2"
    using assms(3) provides_fetch [OF assms(4)] m1(1) m2(1) by (simp add: put_bytes_def)
  moreover have "keeps m m2 r l" if "owns m r l" "apart p (unat (sa_a x)) r l" for r l
    using keeps_trans [OF m1(5) [OF that]] m2(5) [of r l] m1(5) [OF that] that(2) by (simp add: keeps_def)
  then have "frame (m, x) (m2, x)" using assms(3) by (auto simp: frame_def foreign_def keeps_def)
  moreover have "take (off + length bs + 1) (view m2 p (unat (sa_a x))) = take off ?v @ bs @ [0]"
    using m2(4) m1(4) len assms(5) by simp
  ultimately show thesis using that [of m2] m2(2,3) by blast
qed

text \<open>Filling the buffer and setting \<open>len\<close> gives a well-formed string again.\<close>

lemma filled:
  assumes "sa_s x = Some p" "mem_ok m'" "owns m' p (unat (sa_a x))" "unat n = length w" "length w < unat (sa_a x)"
    "length w < 2 ^ 31" "take (length w + 1) (view m' p (unat (sa_a x))) = w @ [0]"
  shows "sa_ok m' (x\<lparr>sa_len := n\<rparr>)" "txt_of m' (x\<lparr>sa_len := n\<rparr>) = w"
proof -
  let ?v = "view m' p (unat (sa_a x))"
  have len: "length ?v = unat (sa_a x)" using assms(3) by (rule view_length)
  have "take (length w) (take (length w + 1) ?v) = w" using assms(7) by simp
  then have w: "take (length w) ?v = w" by (simp add: min_def)
  have "take (length w + 1) ?v ! length w = 0" using assms(7) by simp
  then have "?v ! length w = 0" by simp
  then show "sa_ok m' (x\<lparr>sa_len := n\<rparr>)"
    using assms by (simp add: sa_ok_def sa_room_def word_le_nat_alt word_less_nat_alt)
  show "txt_of m' (x\<lparr>sa_len := n\<rparr>) = w" using assms(1,4) w by (simp add: txt_of_def)
qed

definition sa_step :: "bool \<Rightarrow> byte list \<Rightarrow> memory \<times> stralloc \<Rightarrow> int \<times> memory \<times> stralloc \<Rightarrow> bool" where
  "sa_step ok w mx res = (case (mx, res) of ((m, x), r, m', x') \<Rightarrow>
    sa_ok m' x' \<and> frame (m, x) (m', x') \<and>
    (r = 1 \<and> txt_of m' x' = w \<or> r = 0 \<and> \<not> ok \<and> txt_of m' x' = txt_of m x))"

lemma sa_frame_len: "frame (m, x) (m', x) \<Longrightarrow> frame (m, x) (m', x\<lparr>sa_len := n\<rparr>)"
  by (cases "sa_s x") (auto simp: frame_def foreign_def)

lemma ready_spec:
  assumes "sa_ok m x" "unat n < 2 ^ 31" "0 < n"
  shows "\<exists>res. stralloc_ready ok n (m, x) = Some res \<and> grown ok (unat n) (m, x) res"
proof (cases "sa_s x")
  case None
  then show ?thesis using init_alloc_spec [of m x n ok] assms by (simp add: stralloc_ready_def sa_ok_def)
next
  case (Some p)
  then show ?thesis using regrow_spec [of m x p n ok] assms by (simp add: stralloc_ready_def sa_ok_def)
qed

lemma unat_len: "k < 2 ^ 31 \<Longrightarrow> unat (of_nat k :: u32) = k"
  by (simp add: unat_of_nat)

lemma unat_len1: "k + 1 < 2 ^ 31 \<Longrightarrow> unat (of_nat k + 1 :: u32) = k + 1"
  using unat_len [of "k + 1"] by (simp add: add.commute)

lemma copyb_spec:
  assumes "sa_ok m x" "provides (m, x) src bs" "length bs + 1 < 2 ^ 31"
  shows "\<exists>res. stralloc_copyb ok src (of_nat (length bs)) (m, x) = Some res \<and> sa_step ok bs (m, x) res"
proof -
  have n: "unat (of_nat (length bs) + 1 :: u32) = length bs + 1" "unat (of_nat (length bs) :: u32) = length bs"
    using assms(3) unat_len1 unat_len by simp_all
  then have "0 < (of_nat (length bs) + 1 :: u32)" by (simp add: word_less_nat_alt)
  then obtain r m1 x1 where g: "stralloc_ready ok (of_nat (length bs) + 1) (m, x) = Some (r, m1, x1)"
    "grown ok (length bs + 1) (m, x) (r, m1, x1)"
    using ready_spec [OF assms(1), of "of_nat (length bs) + 1" ok] n assms(3) by auto
  show ?thesis
  proof (cases "r = 0")
    case True
    then show ?thesis using g assms(1) by (simp add: stralloc_copyb_def grown_def sa_step_def)
  next
    case False
    then obtain p where p: "sa_s x1 = Some p" "mem_ok m1" "sa_room m1 x1" "0 + length bs < unat (sa_a x1)" "frame (m, x) (m1, x1)"
      using g(2) by (auto simp: grown_def)
    have src: "provides (m1, x1) src bs" using provides_frame [OF p(5) assms(2)] .
    obtain m2 where m2: "put_bytes 0 src (length bs) (m1, x1) = Some m2" "mem_ok m2" "frame (m1, x1) (m2, x1)"
      "owns m2 p (unat (sa_a x1))" "take (0 + length bs + 1) (view m2 p (unat (sa_a x1))) = take 0 (view m1 p (unat (sa_a x1))) @ bs @ [0]"
      by (rule put_bytes_spec [OF p(2,3,1) src p(4)])
    have ok2: "sa_ok m2 (x1\<lparr>sa_len := of_nat (length bs)\<rparr>)" "txt_of m2 (x1\<lparr>sa_len := of_nat (length bs)\<rparr>) = bs"
      using filled [OF p(1) m2(2,4) n(2)] p(4) m2(5) assms(3) by simp_all
    then show ?thesis
      using False g m2(1) n(2) sa_frame_len [OF m2(3)] frame_trans [OF p(5)]
      by (simp add: stralloc_copyb_def sa_step_def)
  qed
qed

lemma offset_ok: "unat w < 2 ^ 31 \<Longrightarrow> offset w = Some (unat w)"
proof -
  assume "unat w < 2 ^ 31"
  then have "int (unat w) < int (2 ^ 31)" by (simp only: of_nat_less_iff)
  then have "uint w < 2 ^ 31" by simp
  moreover have "- (2 ^ 31) \<le> uint w" by (rule order_trans [of _ 0]) simp_all
  ultimately have "signed_take_bit 31 (uint w) = uint w" by (intro signed_take_bit_int_eq_self)
  then have "sint w = uint w" by (simp add: sint_uint)
  then show ?thesis by (simp add: offset_def)
qed

lemma txt_length: "sa_ok m x \<Longrightarrow> length (txt_of m x) = unat (sa_len x)"
  using view_length by (auto simp: sa_ok_def sa_room_def txt_of_def word_le_nat_alt split: option.splits)

lemma catb_spec:
  assumes "sa_ok m x" "provides (m, x) src bs" "length (txt_of m x) + length bs + 1 < 2 ^ 31"
  shows "\<exists>res. stralloc_catb ok src (of_nat (length bs)) (m, x) = Some res \<and> sa_step ok (txt_of m x @ bs) (m, x) res"
proof (cases "sa_s x")
  case None
  then have "txt_of m x = []" by (simp add: txt_of_def)
  then show ?thesis using copyb_spec [OF assms(1,2), of ok] assms(3) None by (simp add: stralloc_catb_def)
next
  case (Some p0)
  let ?k = "unat (sa_len x)" let ?n = "of_nat (length bs) :: u32"
  have k: "length (txt_of m x) = ?k" using txt_length [OF assms(1)] .
  have e: "?n + 1 + sa_len x = of_nat (length bs + 1 + ?k)" by simp
  have n: "unat (?n + 1 + sa_len x) = length bs + 1 + ?k" "unat ?n = length bs"
    using assms(3) k unat_len [of "length bs + 1 + ?k"] unat_len [of "length bs"] unfolding e by simp_all
  have "sa_len x + ?n = of_nat (?k + length bs)" by simp
  then have sum: "unat (sa_len x + ?n) = ?k + length bs" using assms(3) k unat_len [of "?k + length bs"] by simp
  obtain r m1 x1 where g: "stralloc_readyplus ok (?n + 1) (m, x) = Some (r, m1, x1)"
    "grown ok (length bs + 1 + ?k) (m, x) (r, m1, x1)"
    using regrow_spec [of m x p0 "?n + 1 + sa_len x" ok] n(1) assms(1,3) k Some
    by (auto simp: stralloc_readyplus_def sa_ok_def)
  show ?thesis
  proof (cases "r = 0")
    case True
    then show ?thesis using g assms(1) Some by (simp add: stralloc_catb_def grown_def sa_step_def)
  next
    case False
    then obtain p where p: "sa_s x1 = Some p" "mem_ok m1" "sa_room m1 x1" "?k + length bs < unat (sa_a x1)" "frame (m, x) (m1, x1)"
      "sa_len x1 = sa_len x" "txt_of m1 x1 = txt_of m x" using g(2) by (auto simp: grown_def)
    have src: "provides (m1, x1) src bs" using provides_frame [OF p(5) assms(2)] .
    obtain m2 where m2: "put_bytes ?k src (length bs) (m1, x1) = Some m2" "mem_ok m2" "frame (m1, x1) (m2, x1)"
      "owns m2 p (unat (sa_a x1))" "take (?k + length bs + 1) (view m2 p (unat (sa_a x1))) = take ?k (view m1 p (unat (sa_a x1))) @ bs @ [0]"
      by (rule put_bytes_spec [OF p(2,3,1) src p(4)])
    have "take ?k (view m1 p (unat (sa_a x1))) = txt_of m x" using p(1,6,7) by (simp add: txt_of_def)
    then have "sa_ok m2 (x1\<lparr>sa_len := sa_len x + ?n\<rparr>)" "txt_of m2 (x1\<lparr>sa_len := sa_len x + ?n\<rparr>) = txt_of m x @ bs"
      using filled [OF p(1) m2(2,4), of "sa_len x + ?n" "txt_of m x @ bs"] sum k p(4) m2(5) assms(3) by simp_all
    moreover have "offset (sa_len x) = Some ?k" "offset (sa_len x + ?n) = Some (?k + length bs)"
      using offset_ok [of "sa_len x"] offset_ok [of "sa_len x + ?n"] sum k assms(3) by simp_all
    ultimately show ?thesis
      using False g m2(1) n(2) p(6) Some sa_frame_len [OF m2(3)] frame_trans [OF p(5)]
      by (simp add: stralloc_catb_def sa_step_def)
  qed
qed

section \<open>Properties\<close>

datatype sa_op = Copys "byte list" | Cats "byte list" | Free

definition sa_exec :: "bool \<Rightarrow> sa_op \<Rightarrow> memory \<times> stralloc \<Rightarrow> (int \<times> memory \<times> stralloc) option" where
  "sa_exec ok op mx = (case op of
      Copys s \<Rightarrow> stralloc_copys ok s mx
    | Cats s \<Rightarrow> stralloc_cats ok s mx
    | Free \<Rightarrow> map_option (Pair 1) (stralloc_free mx))"

fun sa_run :: "(bool \<times> sa_op) list \<Rightarrow> memory \<times> stralloc \<Rightarrow> (int list \<times> memory \<times> stralloc) option" where
  "sa_run [] mx = Some ([], mx)"
| "sa_run ((ok, op) # ops) mx = do {
     (r, mx1) \<leftarrow> sa_exec ok op mx;
     (rs, mx2) \<leftarrow> sa_run ops mx1;
     Some (r # rs, mx2) }"

text \<open>The abstract string: a call that reports failure changes nothing.\<close>

fun sa_abs :: "sa_op \<Rightarrow> byte list \<Rightarrow> byte list" where
  "sa_abs (Copys s) w = s"
| "sa_abs (Cats s) w = w @ s"
| "sa_abs Free w = []"

fun sa_abs_run :: "(bool \<times> sa_op) list \<Rightarrow> int list \<Rightarrow> byte list \<Rightarrow> byte list" where
  "sa_abs_run ((ok, op) # ops) (r # rs) w = sa_abs_run ops rs (if r = 0 then w else sa_abs op w)"
| "sa_abs_run _ _ w = w"

fun op_len :: "sa_op \<Rightarrow> nat" where
  "op_len (Copys s) = length s"
| "op_len (Cats s) = length s"
| "op_len Free = 0"

lemma free_spec:
  assumes "sa_ok m x"
  shows "\<exists>res. map_option (Pair 1) (stralloc_free (m, x)) = Some res \<and> sa_step ok [] (m, x) res"
proof (cases "sa_s x")
  case None
  then show ?thesis using assms by (simp add: stralloc_free_def sa_step_def frame_refl txt_of_def)
next
  case (Some p)
  then have own: "owns m p (unat (sa_a x))" "mem_ok m" using assms by (simp_all add: sa_ok_def sa_room_def)
  obtain m' where m': "alloc_free p m = Some m'" "mem_ok m'" "\<And>r l. owns m r l \<Longrightarrow> apart p (unat (sa_a x)) r l \<Longrightarrow> keeps m m' r l"
    by (rule alloc_free_spec [OF own(2,1)]) blast
  then show ?thesis using Some
    by (auto simp: stralloc_free_def sa_step_def frame_def foreign_def txt_of_def sa_ok_def sa_room_def keeps_def)
qed

lemma sa_exec_spec:
  assumes "sa_ok m x" "length (txt_of m x) + op_len op + 1 < 2 ^ 31"
  obtains r m' x' where "sa_exec ok op (m, x) = Some (r, m', x')" "sa_step ok (sa_abs op (txt_of m x)) (m, x) (r, m', x')"
proof -
  have "\<exists>res. sa_exec ok op (m, x) = Some res \<and> sa_step ok (sa_abs op (txt_of m x)) (m, x) res"
    using copyb_spec [OF assms(1), of "Ext s" s ok for s] catb_spec [OF assms(1), of "Ext s" s ok for s] free_spec [OF assms(1), of ok] assms(2)
    by (cases op) (simp_all add: sa_exec_def stralloc_copys_def stralloc_cats_def provides_def)
  then show thesis using that by auto
qed

lemma sa_step_D:
  assumes "sa_step ok w (m, x) (r, m', x')"
  shows "sa_ok m' x'" "frame (m, x) (m', x')" "r \<in> {0, 1}" "txt_of m' x' = (if r = 0 then txt_of m x else w)" "ok \<Longrightarrow> r = 1"
  using assms by (auto simp: sa_step_def)

text \<open>C16: any sequence of \<open>stralloc_copys\<close>, \<open>stralloc_cats\<close> and \<open>stralloc_free\<close>, whatever \<open>malloc\<close> does,
  never leaves its buffers or frees a block twice as long as the strings stay below 2 GiB; the
  result is the terminated string that the successful calls describe, a failing call returns 0
  and changes nothing, and no other allocated block is touched.\<close>

theorem stralloc_history:
  assumes "sa_ok m x" "length (txt_of m x) + sum_list (map (op_len \<circ> snd) ops) + 1 < 2 ^ 31"
  shows "\<exists>rs m' x'. sa_run ops (m, x) = Some (rs, m', x') \<and> sa_ok m' x' \<and> frame (m, x) (m', x') \<and>
    txt_of m' x' = sa_abs_run ops rs (txt_of m x) \<and> (list_all fst ops \<longrightarrow> rs = map (\<lambda>_. 1) ops)"
  using assms
proof (induction ops arbitrary: m x)
  case Nil
  then show ?case by (simp add: frame_refl)
next
  case (Cons o1 ops)
  obtain ok op where o: "o1 = (ok, op)" by fastforce
  obtain r m1 x1 where s: "sa_exec ok op (m, x) = Some (r, m1, x1)" "sa_step ok (sa_abs op (txt_of m x)) (m, x) (r, m1, x1)"
    by (rule sa_exec_spec [OF Cons.prems(1), of op ok]) (use Cons.prems(2) o in auto)
  note D = sa_step_D [OF s(2)]
  have "length (sa_abs op (txt_of m x)) \<le> length (txt_of m x) + op_len op" by (cases op) auto
  then have "length (txt_of m1 x1) + sum_list (map (op_len \<circ> snd) ops) + 1 < 2 ^ 31"
    using Cons.prems(2) D(4) o by (auto simp: comp_def split: if_splits)
  then obtain rs m2 x2 where IH: "sa_run ops (m1, x1) = Some (rs, m2, x2)" "sa_ok m2 x2" "frame (m1, x1) (m2, x2)"
    "txt_of m2 x2 = sa_abs_run ops rs (txt_of m1 x1)" "list_all fst ops \<longrightarrow> rs = map (\<lambda>_. 1) ops"
    using Cons.IH [OF D(1)] by blast
  then show ?case using o s(1) D(4,5) frame_trans [OF D(2) IH(3)] by auto
qed

definition mem0 :: memory where
  "mem0 = \<lparr>pool = replicate SPACE 0, avail = of_nat SPACE, blocks = (\<lambda>_. None), fresh = 0, fill = (\<lambda>_. 170)\<rparr>"

definition sa0 :: stralloc where
  "sa0 = \<lparr>sa_s = None, sa_len = 0, sa_a = 0\<rparr>"

lemma mem0_ok: "mem_ok mem0" "sa_ok mem0 sa0" "txt_of mem0 sa0 = []"
  by (simp_all add: mem_ok_def mem0_def SPACE_def sa_ok_def sa0_def sa_room_def txt_of_def)

theorem stralloc_history_witness:
  "\<exists>m' x'. sa_run [(True, Copys [71, 114]), (True, Cats [58]), (True, Cats [74])] (mem0, sa0) = Some ([1, 1, 1], m', x') \<and>
    sa_ok m' x' \<and> txt_of m' x' = [71, 114, 58, 74]"
  using stralloc_history [OF mem0_ok(2), of "[(True, Copys [71, 114]), (True, Cats [58]), (True, Cats [74])]"]
  by (auto simp: mem0_ok)

text \<open>Two strings whose buffers share no byte.\<close>

definition sa_apart :: "stralloc \<Rightarrow> stralloc \<Rightarrow> bool" where
  "sa_apart x y \<longleftrightarrow> (case (sa_s x, sa_s y) of (Some p, Some q) \<Rightarrow> apart p (unat (sa_a x)) q (unat (sa_a y)) | _ \<Rightarrow> True)"

lemma sa_apart_foreign: "sa_ok m y \<Longrightarrow> sa_apart x y \<Longrightarrow> sa_s y = Some q \<Longrightarrow> foreign m x q (unat (sa_a y))"
  by (auto simp: sa_apart_def foreign_def sa_ok_def sa_room_def split: option.splits)

lemma sa_frame_other:
  assumes "sa_ok m y" "sa_apart x y" "frame (m, x) (m', x')" "mem_ok m'"
  shows "sa_ok m' y \<and> txt_of m' y = txt_of m y \<and> sa_apart x' y"
proof (cases "sa_s y")
  case None
  then show ?thesis using assms by (auto simp: sa_ok_def sa_room_def txt_of_def sa_apart_def split: option.splits)
next
  case (Some q)
  then have "keeps m m' q (unat (sa_a y))" "foreign m' x' q (unat (sa_a y))"
    using sa_apart_foreign [OF assms(1,2)] assms(3) by (auto simp: frame_def)
  then show ?thesis using assms(1,4) Some
    by (auto simp: sa_ok_def sa_room_def txt_of_def sa_apart_def keeps_def foreign_def split: option.splits)
qed

lemma sa_provides:
  assumes "sa_ok m y" "sa_apart x y"
  shows "provides (m, x) (Ptr (sa_s y)) (txt_of m y)" "of_nat (length (txt_of m y)) = sa_len y"
proof -
  have len: "length (txt_of m y) = unat (sa_len y)" using txt_length [OF assms(1)] .
  then show "of_nat (length (txt_of m y)) = sa_len y" by simp
  show "provides (m, x) (Ptr (sa_s y)) (txt_of m y)"
  proof (cases "sa_s y")
    case None
    then show ?thesis by (simp add: provides_def txt_of_def)
  next
    case (Some q)
    have "unat (sa_len y) \<le> unat (sa_a y)" using assms(1) Some by (simp add: sa_ok_def sa_room_def word_le_nat_alt)
    then show ?thesis using sa_apart_foreign [OF assms Some] Some len
      by (auto simp: provides_def txt_of_def intro!: exI [of _ "unat (sa_a y)"])
  qed
qed

text \<open>\<open>stralloc_cat\<close> and \<open>stralloc_copy\<close> from a string with a buffer of its own append or copy exactly
  its bytes, leave it as it was, and keep both strings well formed and their buffers apart, with
  every outcome of \<open>malloc\<close>.\<close>

theorem stralloc_pair_invariant:
  assumes "sa_ok m x" "sa_ok m y" "sa_apart x y" "length (txt_of m x) + length (txt_of m y) + 1 < 2 ^ 31"
    and "op = stralloc_cat \<and> w = txt_of m x @ txt_of m y \<or> op = stralloc_copy \<and> w = txt_of m y"
  shows "\<exists>r m' x'. op ok y (m, x) = Some (r, m', x') \<and> sa_ok m' x' \<and> sa_ok m' y \<and> sa_apart x' y \<and>
    txt_of m' y = txt_of m y \<and> txt_of m' x' = (if r = 0 then txt_of m x else w) \<and> (ok \<longrightarrow> r = 1)"
proof -
  note prov = sa_provides [OF assms(2,3)]
  obtain r m' x' where op: "op ok y (m, x) = Some (r, m', x')" "sa_step ok w (m, x) (r, m', x')"
    using assms(5) catb_spec [OF assms(1) prov(1), of ok] copyb_spec [OF assms(1) prov(1), of ok] assms(4) prov(2)
    by (auto simp: stralloc_cat_def stralloc_copy_def)
  note D = sa_step_D [OF op(2)]
  have "mem_ok m'" using D(1) by (simp add: sa_ok_def)
  then show ?thesis using op(1) D sa_frame_other [OF assms(2,3) D(2)] by auto
qed

theorem stralloc_pair_invariant_witness:
  "\<exists>r m' x'. stralloc_cat True sa0 (mem0, sa0) = Some (r, m', x') \<and> sa_ok m' x' \<and> txt_of m' x' = []"
  using stralloc_pair_invariant [OF mem0_ok(2) mem0_ok(2), of stralloc_cat "[]" True] mem0_ok(3)
  by (auto simp: sa_apart_def sa0_def)

text \<open>Appending a string to itself reads a freed buffer whenever its \<open>malloc\<close>ed buffer has to
  grow: the source pointer is taken before the buffer is moved.\<close>

theorem stralloc_cat_self:
  assumes "sa_ok m x" "sa_s x = Some (Heap b)" "unat (sa_a x) < 2 * unat (sa_len x) + 1" "2 * unat (sa_len x) + 1 < 2 ^ 31"
  shows "stralloc_cat True x (m, x) = None"
proof -
  let ?k = "unat (sa_len x)" let ?n = "sa_len x + 1 + sa_len x"
  have e: "?n = of_nat (2 * ?k + 1)" by simp
  have n: "unat ?n = 2 * ?k + 1" using assms(4) unat_len [of "2 * ?k + 1"] unfolding e by simp
  have gt: "sa_a x < ?n" using assms(3) n by (simp add: word_less_nat_alt)
  have own: "owns m (Heap b) (unat (sa_a x))" "mem_ok m" using assms(1,2) by (simp_all add: sa_ok_def sa_room_def)
  have a: "sa_a x \<le> 30 + ?n + drop_bit 3 ?n" "unat (30 + ?n + drop_bit 3 ?n) + 16 < 2 ^ 32"
    using growth_size [of ?n] n assms(3,4) by (auto simp: word_le_nat_alt)
  show ?thesis
    using own(2,1) a
  proof (cases rule: alloc_re_spec [where ok = True])
    case (grown q m')
    then have "blocks m' b = None"
      by (auto simp: alloc_re_def alloc_free_def bind_eq_Some_conv split: prod.splits option.splits if_splits)
    then have "fetch_src m' (Ptr (sa_s x)) ?k = None" using assms(2) by (simp add: fetch_src_def fetch_def valid_def)
    then show ?thesis using grown(1) gt assms(2)
      by (auto simp: stralloc_cat_def stralloc_catb_def stralloc_readyplus_def regrow_def Let_def put_bytes_def offset_def)
  qed simp
qed

theorem stralloc_cat_self_witness:
  "stralloc_cat True \<lparr>sa_s = Some (Heap 0), sa_len = 3, sa_a = 4\<rparr>
    (mem0\<lparr>blocks := [0 \<mapsto> [97, 98, 99, 0]], fresh := 1\<rparr>, \<lparr>sa_s = Some (Heap 0), sa_len = 3, sa_a = 4\<rparr>) = None"
  by (rule stralloc_cat_self [of _ _ 0])
    (simp_all add: sa_ok_def mem_ok_def mem0_def SPACE_def sa_room_def owns_def valid_def region_def view_def)

end
