(* ===== verification/Utf8str.thy ===== *)
theory Utf8str
  imports Prelude
begin

text \<open>
  Model of \<^verbatim>\<open>c/libgs/utf8str/utf8str.c\<close>: classification of lead bytes, counting, copying and left
  trimming of UTF-8 strings. A C string is the list of its bytes before the terminator, a null
  pointer is \<open>None\<close>, and the destination of \<open>utf8_strncpy\<close> is a buffer of fixed length, outside of
  which a write is undefined behaviour, the result \<open>None\<close>. Positions are natural numbers: they do
  not wrap for strings shorter than 4 GiB.
\<close>

unbundle bit_operations_syntax

section \<open>The functions\<close>

definition utf8_check :: "byte \<Rightarrow> nat" where
  "utf8_check c =
    (if c AND 0x80 = 0 then 1
     else if c AND 0xe0 = 0xc0 then 2
     else if c AND 0xf0 = 0xe0 then 3
     else if c AND 0xf8 = 0xf0 then 4
     else if c AND 0xfc = 0xf8 then 5
     else if c AND 0xfe = 0xfc then 6
     else 0)"

function strlen_loop :: "byte list \<Rightarrow> nat \<Rightarrow> nat \<Rightarrow> nat" where
  "strlen_loop src i ulen =
    (if i < length src then
       let tmp = utf8_check (src ! i)
       in if 0 < tmp \<and> i + tmp \<le> length src then strlen_loop src (i + tmp) (ulen + 1) else ulen
     else ulen)"
  by pat_completeness auto
termination by (relation "measure (\<lambda>(src, i, ulen). length src - i)") auto

definition utf8_strlen :: "byte list option \<Rightarrow> nat" where
  "utf8_strlen src = (case src of None \<Rightarrow> 0 | Some s \<Rightarrow> strlen_loop s 0 0)"

function strncpy_loop ::
  "byte list \<Rightarrow> nat \<Rightarrow> nat \<Rightarrow> nat \<Rightarrow> bool \<Rightarrow> nat \<Rightarrow> byte list \<Rightarrow> (nat \<times> byte list) option" where
  "strncpy_loop src mx i n flag p dest =
    (if i < length src \<and> n < mx then
       if src ! i = 13 \<or> src ! i = 10 \<or> src ! i = 9 then strncpy_loop src mx (i + 1) n flag p dest
       else if src ! i = 32 then
         (if \<not> flag then
            (case wr dest p (src ! i) of
               None \<Rightarrow> None
             | Some dest' \<Rightarrow> strncpy_loop src mx (i + 1) (n + 1) True (p + 1) dest')
          else strncpy_loop src mx (i + 1) n flag p dest)
       else
         let tmp = utf8_check (src ! i)
         in if 0 < tmp \<and> i + tmp \<le> length src then
              (case memcpy dest p (take tmp (drop i src)) of
                 None \<Rightarrow> None
               | Some dest' \<Rightarrow> strncpy_loop src mx (i + tmp) (n + 1) False (p + tmp) dest')
            else Some (p, dest)
     else Some (p, dest))"
  by pat_completeness auto
termination by (relation "measure (\<lambda>(src, mx, i, n, flag, p, dest). length src - i)") auto

text \<open>The buffer afterwards; \<open>Some None\<close> is the null \<open>dest\<close> handed back.\<close>

definition utf8_strncpy :: "byte list option \<Rightarrow> byte list option \<Rightarrow> nat \<Rightarrow> byte list option option" where
  "utf8_strncpy dest src mx =
    (case dest of
       None \<Rightarrow> Some None
     | Some d \<Rightarrow> (case src of
         None \<Rightarrow> Some (Some d)
       | Some s \<Rightarrow>
           if mx = 0 then Some (Some d)
           else do { (p, d') \<leftarrow> strncpy_loop s mx 0 0 True 0 d; d'' \<leftarrow> wr d' p 0; Some (Some d'') }))"

fun utf8_ltrim :: "byte list \<Rightarrow> byte list" where
  "utf8_ltrim [] = []"
| "utf8_ltrim (c # cs) =
    (if c = 32 then utf8_ltrim cs
     else if take 3 (c # cs) = [0xe3, 0x80, 0x80] then utf8_ltrim (drop 2 cs)
     else c # cs)"

declare strlen_loop.simps [simp del] strncpy_loop.simps [simp del]

section \<open>Characters\<close>

text \<open>The encoding of a code point below \<open>2 ^ 31\<close> (RFC 2279; up to four bytes it is RFC 3629), the
  reference for what the functions take as one character.\<close>

definition cont :: "nat \<Rightarrow> nat \<Rightarrow> byte" where
  "cont n k = of_nat (128 + n div 64 ^ k mod 64)"

definition lead :: "nat \<Rightarrow> nat \<Rightarrow> nat \<Rightarrow> byte" where
  "lead base n k = of_nat (base + n div 64 ^ k)"

definition utf8_encode :: "nat \<Rightarrow> byte list" where
  "utf8_encode n =
    (if n < 2 ^ 7 then [of_nat n]
     else if n < 2 ^ 11 then [lead 192 n 1, cont n 0]
     else if n < 2 ^ 16 then [lead 224 n 2, cont n 1, cont n 0]
     else if n < 2 ^ 21 then [lead 240 n 3, cont n 2, cont n 1, cont n 0]
     else if n < 2 ^ 26 then [lead 248 n 4, cont n 3, cont n 2, cont n 1, cont n 0]
     else [lead 252 n 5, cont n 4, cont n 3, cont n 2, cont n 1, cont n 0])"

definition uchar :: "byte list \<Rightarrow> bool" where
  "uchar u \<longleftrightarrow> u \<noteq> [] \<and> utf8_check (hd u) = length u"

text \<open>A rest that does not start with a complete character.\<close>

definition torn :: "byte list \<Rightarrow> bool" where
  "torn r \<longleftrightarrow> r = [] \<or> utf8_check (hd r) = 0 \<or> length r < utf8_check (hd r)"

definition check_class :: "nat \<Rightarrow> nat" where
  "check_class n =
    (if n < 128 then 1 else if n < 192 then 0 else if n < 224 then 2 else if n < 240 then 3
     else if n < 248 then 4 else if n < 252 then 5 else if n < 254 then 6 else 0)"

lemma utf8_check_class: "n < 256 \<Longrightarrow> utf8_check (of_nat n) = check_class n"
proof -
  assume "n < 256"
  moreover have "\<forall>n \<in> set [0..<256]. utf8_check (of_nat n) = check_class n" by code_simp
  ultimately show ?thesis by simp
qed

lemma lead_check: "b + n div 64 ^ k < 256 \<Longrightarrow> utf8_check (lead b n k) = check_class (b + n div 64 ^ k)"
  unfolding lead_def by (rule utf8_check_class)

lemma uchar_encode:
  assumes "n < 2 ^ 31"
  shows "uchar (utf8_encode n)"
proof -
  have "utf8_check (of_nat n) = 1" if "n < 2 ^ 7"
    using that by (simp add: utf8_check_class check_class_def)
  moreover have "utf8_check (lead 192 n 1) = 2" if "n < 2 ^ 11"
    using that by (simp add: lead_check check_class_def)
  moreover have "utf8_check (lead 224 n 2) = 3" if "n < 2 ^ 16"
    using that by (simp add: lead_check check_class_def)
  moreover have "utf8_check (lead 240 n 3) = 4" if "n < 2 ^ 21"
    using that by (simp add: lead_check check_class_def)
  moreover have "utf8_check (lead 248 n 4) = 5" if "n < 2 ^ 26"
    using that by (simp add: lead_check check_class_def)
  moreover have "utf8_check (lead 252 n 5) = 6"
    using assms by (simp add: lead_check check_class_def)
  ultimately show ?thesis by (simp add: uchar_def utf8_encode_def)
qed

lemma uchar_append: "uchar u \<Longrightarrow> 0 < length u \<and> utf8_check ((u @ r) ! 0) = length u"
  by (cases u) (auto simp: uchar_def)

lemma check_ascii: "c \<in> {13, 10, 9, 32} \<Longrightarrow> utf8_check c = 1"
  by (auto simp: utf8_check_def)

lemma uchar_blank: "uchar u \<Longrightarrow> hd u \<in> {13, 10, 9, 32} \<Longrightarrow> u = [hd u]"
  using check_ascii [of "hd u"] by (cases u) (auto simp: uchar_def)

lemma torn_nth: "torn r \<Longrightarrow> r \<noteq> [] \<Longrightarrow> \<not> (0 < utf8_check (r ! 0) \<and> utf8_check (r ! 0) \<le> length r)"
  by (cases r) (auto simp: torn_def)

lemma torn_blank: "torn r \<Longrightarrow> r \<noteq> [] \<Longrightarrow> r ! 0 \<notin> {13, 10, 9, 32}"
  using check_ascii [of "r ! 0"] by (cases r) (auto simp: torn_def)

section \<open>Counting\<close>

lemma strlen_loop_units:
  "list_all uchar us \<Longrightarrow> torn r \<Longrightarrow> strlen_loop (pre @ concat us @ r) (length pre) n = n + length us"
proof (induction us arbitrary: pre n)
  case Nil
  then show ?case using torn_nth [of r] by (subst strlen_loop.simps) (auto simp: nth_append)
next
  case (Cons u us)
  then have u: "u \<noteq> []" "utf8_check (u ! 0) = length u" by (auto simp: uchar_def hd_conv_nth)
  have "strlen_loop ((pre @ u) @ concat us @ r) (length (pre @ u)) (n + 1) = n + 1 + length us"
    using Cons by (intro Cons.IH) simp_all
  then show ?case using u by (subst strlen_loop.simps) (simp add: nth_append Let_def)
qed

section \<open>Copying\<close>

definition skipped :: "byte list \<Rightarrow> bool" where
  "skipped u \<longleftrightarrow> u \<in> {[13], [10], [9]}"

fun squeeze :: "bool \<Rightarrow> byte list list \<Rightarrow> byte list list" where
  "squeeze f [] = []"
| "squeeze f (u # us) =
    (if u = [32] then (if f then squeeze True us else u # squeeze True us) else u # squeeze False us)"

definition copied :: "nat \<Rightarrow> bool \<Rightarrow> byte list list \<Rightarrow> byte list list" where
  "copied k f us = take k (squeeze f (filter (\<lambda>u. \<not> skipped u) us))"

lemma copied_simps:
  "copied 0 f us = []" "copied k f [] = []"
  "skipped u \<Longrightarrow> copied k f (u # us) = copied k f us"
  "copied k True ([32] # us) = copied k True us"
  "copied (Suc k) False ([32] # us) = [32] # copied k True us"
  "\<not> skipped u \<Longrightarrow> u \<noteq> [32] \<Longrightarrow> copied (Suc k) f (u # us) = u # copied k False us"
  by (auto simp: copied_def skipped_def)

lemma wr_end [simp]: "length out \<le> n \<Longrightarrow> wr out n v = None"
  by (simp add: wr_def)

lemma wr_append: "wr (out @ b) (length out) v = (if b = [] then None else Some (out @ v # tl b))"
  by (cases b) (simp_all add: wr_def)

lemma strncpy_loop_units:
  assumes "list_all uchar us" "torn r" "n \<le> mx"
  shows "strncpy_loop (pre @ concat us @ r) mx (length pre) n f (length out) (out @ b)
    = (let w = concat (copied (mx - n) f us)
       in if length w \<le> length b then Some (length out + length w, out @ w @ drop (length w) b) else None)"
  using assms
proof (induction us arbitrary: pre n f out b)
  case Nil
  then show ?case using torn_nth [of r] torn_blank [of r]
    by (subst strncpy_loop.simps) (cases "r = []"; auto simp: nth_append copied_simps Let_def)
next
  case (Cons u us)
  let ?s = "pre @ concat (u # us) @ r"
  have u: "0 < length u" "utf8_check (?s ! length pre) = length u" "?s ! length pre = hd u" "uchar u"
    using Cons.prems uchar_append [of u "concat us @ r"] by (auto simp: nth_append hd_conv_nth uchar_def)
  have IH: "strncpy_loop ?s mx (length pre + length u) n' f' (length out') (out' @ b')
    = (let w = concat (copied (mx - n') f' us)
       in if length w \<le> length b' then Some (length out' + length w, out' @ w @ drop (length w) b') else None)"
    if "n' \<le> mx" for n' f' out' b'
    using Cons.IH [of n' "pre @ u" f' out' b'] Cons.prems that by simp
  show ?case
  proof (cases "n < mx")
    case False
    then show ?thesis using Cons.prems by (subst strncpy_loop.simps) (simp add: copied_simps)
  next
    case True
    then obtain k where k: "mx - n = Suc k" "mx - (n + 1) = k" by (cases "mx - n") auto
    have src: "length pre < length ?s" using u(1) by simp
    consider (skip) "hd u \<in> {13, 10, 9}" | (space) "hd u = 32" | (char) "hd u \<notin> {13, 10, 9, 32}" by blast
    then show ?thesis
    proof cases
      case skip
      then have "u = [hd u]" using uchar_blank [OF u(4)] by blast
      then have "skipped u" "length u = 1" using skip by (cases u; auto simp: skipped_def)+
      then show ?thesis using IH [of n f out b] True skip u src Cons.prems
        by (subst strncpy_loop.simps) (auto simp: copied_simps)
    next
      case space
      then have e: "u = [32]" using uchar_blank [OF u(4)] by simp
      show ?thesis
      proof (cases f)
        case True
        then show ?thesis using IH [of n True out b] \<open>n < mx\<close> space u src e Cons.prems
          by (subst strncpy_loop.simps) (simp add: copied_simps)
      next
        case False
        then show ?thesis using IH [of "n + 1" True "out @ [32]" "tl b"] \<open>n < mx\<close> space u(3) src e k
          by (subst strncpy_loop.simps) (cases b; simp add: copied_simps wr_append Let_def)
      qed
    next
      case char
      then have e: "\<not> skipped u" "u \<noteq> [32]" by (auto simp: skipped_def)
      then show ?thesis using IH [of "n + 1" False "out @ u" "drop (length u) b"] \<open>n < mx\<close> char u src k
        by (subst strncpy_loop.simps) (auto simp: copied_simps Let_def add.commute)
    qed
  qed
qed

text \<open>What a copy holds: no control characters, no space at the start and no two in a row.\<close>

definition blanks_apart :: "byte list list \<Rightarrow> bool" where
  "blanks_apart us \<longleftrightarrow> successively (\<lambda>u v. u = [32] \<longrightarrow> v \<noteq> [32]) us"

lemma squeeze_set: "set (squeeze f us) \<subseteq> set us"
  by (induction f us rule: squeeze.induct) auto

lemma squeeze_True_hd: "us' = squeeze True us \<Longrightarrow> us' = [] \<or> hd us' \<noteq> [32]"
  by (induction us arbitrary: us') auto

lemma squeeze_apart: "blanks_apart (squeeze f us)"
proof (induction f us rule: squeeze.induct)
  case (2 f u us)
  then show ?case using squeeze_True_hd [OF refl, of us] by (auto simp: blanks_apart_def successively_Cons)
qed (simp add: blanks_apart_def)

lemma take_successively: "successively P xs \<Longrightarrow> successively P (take n xs)"
  by (metis append_take_drop_id successively_append_iff)

lemma copied_shape:
  "length (copied k f us) \<le> k" "set (copied k f us) \<subseteq> {u \<in> set us. \<not> skipped u}"
  "blanks_apart (copied k f us)" "copied k True us = [] \<or> hd (copied k True us) \<noteq> [32]"
proof -
  have "set (copied k f us) \<subseteq> set (squeeze f (filter (\<lambda>u. \<not> skipped u) us))"
    unfolding copied_def by (rule set_take_subset)
  then show "set (copied k f us) \<subseteq> {u \<in> set us. \<not> skipped u}" using squeeze_set by fastforce
  show "blanks_apart (copied k f us)"
    using squeeze_apart take_successively unfolding copied_def blanks_apart_def by blast
  show "copied k True us = [] \<or> hd (copied k True us) \<noteq> [32]"
    using squeeze_True_hd [OF refl, of "filter (\<lambda>u. \<not> skipped u) us"] by (cases k) (auto simp: copied_def hd_take)
qed (simp add: copied_def)

text \<open>Every string is a sequence of characters and a rest that is none.\<close>

lemma split_units: "\<exists>us r. s = concat us @ r \<and> list_all uchar us \<and> torn r"
proof (induction s rule: length_induct)
  case (1 s)
  show ?case
  proof (cases "torn s")
    case True
    then show ?thesis by (intro exI [of _ "[]"] exI [of _ s]) simp
  next
    case False
    let ?k = "utf8_check (hd s)"
    have k: "0 < ?k" "?k \<le> length s" "s \<noteq> []" using False by (auto simp: torn_def)
    then obtain us r where "drop ?k s = concat us @ r" "list_all uchar us" "torn r"
      using 1 [rule_format, of "drop ?k s"] by auto
    moreover have "uchar (take ?k s)" using k by (cases s) (auto simp: uchar_def take_Cons')
    moreover have "take ?k s @ drop ?k s = s" by simp
    ultimately show ?thesis by (intro exI [of _ "take ?k s # us"] exI [of _ r]) auto
  qed
qed

lemma utf8_strncpy_units:
  assumes "list_all uchar us" "torn r" "0 < mx"
  shows "utf8_strncpy (Some d) (Some (concat us @ r)) mx
    = (let w = concat (copied mx True us)
       in if length w < length d then Some (Some (w @ 0 # drop (length w + 1) d)) else None)"
  using strncpy_loop_units [of us r 0 mx "[]" True "[]" d] assms
  by (auto simp: utf8_strncpy_def Let_def wr_append drop_Suc tl_drop not_less simp del: length_concat)

lemma check_le: "utf8_check c \<le> 6"
  by (simp add: utf8_check_def)

lemma concat_bound: "(\<And>u. u \<in> set us \<Longrightarrow> length u \<le> k) \<Longrightarrow> length (concat us) \<le> k * length us"
  by (induction us) (auto simp: add_mono)

lemma copied_length: "list_all uchar us \<Longrightarrow> length (concat (copied mx f us)) \<le> 6 * mx"
proof -
  assume us: "list_all uchar us"
  have "length u \<le> 6" if "u \<in> set (copied mx f us)" for u
    using that copied_shape(2) [of mx f us] us check_le [of "hd u"] by (auto simp: uchar_def list_all_iff)
  then have "length (concat (copied mx f us)) \<le> 6 * length (copied mx f us)"
    by (intro concat_bound)
  then show ?thesis using copied_shape(1) [of mx f us] by simp
qed

section \<open>Trimming\<close>

lemma utf8_ltrim_correct:
  assumes "set ws \<subseteq> {[32], [0xe3, 0x80, 0x80]}" "take 1 r \<noteq> [32]" "take 3 r \<noteq> [0xe3, 0x80, 0x80]"
  shows "utf8_ltrim (concat ws @ r) = r"
  using assms by (induction ws) (cases r; auto)+

section \<open>Properties\<close>

text \<open>On the encoding of any sequence of code points, followed by bytes that are no complete
  character, \<open>utf8_strlen\<close> returns the number of code points.\<close>

theorem utf8_strlen_correct:
  assumes "list_all (\<lambda>n. n < 2 ^ 31) cps" "torn r"
  shows "utf8_strlen (Some (concat (map utf8_encode cps) @ r)) = length cps"
  using strlen_loop_units [of "map utf8_encode cps" r "[]" 0] assms
  by (simp add: utf8_strlen_def list_all_length uchar_encode)

theorem utf8_strlen_correct_witness:
  "utf8_strlen (Some (concat (map utf8_encode [65, 233, 20320, 128512]) @ [0xe4, 0xbd])) = 4"
  using utf8_strlen_correct [of "[65, 233, 20320, 128512]" "[0xe4, 0xbd]"] by (simp add: torn_def utf8_check_def)



text \<open>On every source a buffer of \<open>6 * max + 1\<close> bytes suffices, whereas the \<open>3 * max + 1\<close> bytes the
  documentation uses are overrun by every source of \<open>max\<close> four-byte characters.\<close>

theorem utf8_strncpy_bounds:
  assumes "0 < mx"
  shows "(6 * mx < length d \<longrightarrow> (\<exists>d'. utf8_strncpy (Some d) (Some s) mx = Some (Some d') \<and> length d' = length d)) \<and>
    (length d = 3 * mx + 1 \<longrightarrow> list_all (\<lambda>u. uchar u \<and> length u = 4) us \<longrightarrow> length us = mx \<longrightarrow>
      utf8_strncpy (Some d) (Some (concat us)) mx = None)"
proof (intro conjI impI)
  assume d: "6 * mx < length d"
  obtain us r where s: "s = concat us @ r" "list_all uchar us" "torn r" using split_units by blast
  then show "\<exists>d'. utf8_strncpy (Some d) (Some s) mx = Some (Some d') \<and> length d' = length d"
    using utf8_strncpy_units [OF s(2,3) assms, of d] copied_length [OF s(2), of mx True] d by (auto simp: Let_def)
next
  assume d: "length d = 3 * mx + 1" and us: "list_all (\<lambda>u. uchar u \<and> length u = 4) us" "length us = mx"
  have "squeeze f us = us" "filter (\<lambda>u. \<not> skipped u) us = us" for f
    using us(1) by (induction us arbitrary: f) (auto simp: skipped_def)
  then have "copied mx True us = us" using us(2) by (simp add: copied_def)
  moreover have "length (concat us) = 4 * length us" using us(1) by (induction us) auto
  moreover have "list_all uchar us" using us(1) by (auto simp: list_all_iff)
  ultimately show "utf8_strncpy (Some d) (Some (concat us)) mx = None"
    using utf8_strncpy_units [of us "[]" mx d] us(2) d assms by (simp add: torn_def)
qed

theorem utf8_strncpy_bounds_witness:
  "utf8_strncpy (Some (replicate 7 1)) (Some (concat [utf8_encode 128512, utf8_encode 128513])) 2 = None"
proof -
  have "length (utf8_encode 128512) = 4" "length (utf8_encode 128513) = 4" by (simp_all add: utf8_encode_def)
  then show ?thesis
    using utf8_strncpy_bounds [of 2 "replicate 7 1" "[]" "[utf8_encode 128512, utf8_encode 128513]"]
      uchar_encode [of 128512] uchar_encode [of 128513] by simp
qed

end
