(* ===== verification/Spec2Isabelle.thy ===== *)
theory Spec2Isabelle
  imports Base64 Ctapi_curl Ctapi_mc Ctapi_mysql Ctcrypt Cthash Ctlog Ctserver_start Ctutils Daemon
    Echo_start Epoll_child Epoll_start Hashmap Mfile_Queue Stralloc Utf8str
begin

text \<open>
  A verification of the C code of the repository: the utility library under \<^verbatim>\<open>c/libgs\<close>, the proxy server
  under \<^verbatim>\<open>samples/ctproxy\<close> that uses it, its variant under \<^verbatim>\<open>samples/server_epoll\<close>, and smaller samples.

  \<^bold>\<open>The program and its parts.\<close> The library consists of independent components: base64, string hashes,
  digests, a dictionary of strings, an ini parser on top of the dictionary, a configuration reader on top
  of the parser, a chained hash table, a memory file, growing strings, UTF-8 helpers, and clients of
  MySQL, memcached and HTTP servers. The proxy reads its settings with the configuration reader, accepts
  connections in an \<open>epoll\<close> loop and starts one child process per connection, keeping a table of client
  slots. The child reads its own settings, connects to a back server and relays bytes both ways with the
  read and write loops of \<^verbatim>\<open>ctio.c\<close>. The variant's child is an event loop with its own loops of reads and
  writes; its parent also reads the output of the children.

  \<^bold>\<open>Theories of the library.\<close>
  \<^item> \<open>Prelude\<close>: machine types (LP64, signed \<open>char\<close>), checked array accesses (\<open>rd\<close>, \<open>wr\<close>, \<open>memcpy\<close>,
    \<open>rd_block\<close>: \<open>None\<close> is undefined behaviour) and shared lemmas.
  \<^item> \<open>Kv_Store\<close>: the interface of a store of bindings as the locales \<open>kv_store\<close> and \<open>kv_store_del\<close>, with
    what follows for sequences of updates; interpreted by the dictionary.
  \<^item> \<open>Base64\<close> (\<^verbatim>\<open>base64/base64.c\<close>): encoder, streaming decoder with its context, allocating variants.
  \<^item> \<open>Cthash\<close> (\<^verbatim>\<open>cthash/cthash.c\<close>): the hashes on 32-bit words, the locale \<open>str_hash\<close> of hashes below
    \<open>2 ^ 31\<close>, and CRC-32 against its bit-by-bit definition.
  \<^item> \<open>Ctcrypt\<close> (\<^verbatim>\<open>ctcrypt/ctcrypt.c\<close>): digests as hexadecimal text over OpenSSL's functions.
  \<^item> \<open>Dictionary\<close> (\<^verbatim>\<open>dictionary/dictionary.c\<close>): slot arrays, growth, and the refinement to maps.
  \<^item> \<open>Iniparser\<close> (\<^verbatim>\<open>confparser/iniparser.c\<close>): line parser with its \<open>sscanf\<close> formats, both loaders, getters
    and dumps. \<open>Confparser\<close> (\<^verbatim>\<open>confparser/confparser.c\<close>): loading settings into variables.
  \<^item> \<open>Hashmap\<close> (\<^verbatim>\<open>hashmap/hashmap.c\<close>): entries in an explicit store, so that the back pointers that growth
    leaves behind are visible.
  \<^item> \<open>Mfile\<close> (\<^verbatim>\<open>libmfile/mfile.c\<close>): blocks with a write and a read position, on a list of blocks.
  \<^item> \<open>Queue_Cells\<close>, \<open>Queue_Spec\<close>, \<open>Queue\<close> (\<^verbatim>\<open>libmfile/queue.h\<close>): the linked lists and queues on pointers. One
    representation with two flags serves the four kinds; the locales \<open>list_machine\<close>, \<open>list_kind\<close>, \<open>tail_kind\<close> and
    \<open>reversible_kind\<close> state what a kind promises and are interpreted by each kind that keeps the promise.
    \<open>Mfile_Queue\<close>: the list of blocks of \<open>Mfile\<close> is what the pointers of its queue represent.
  \<^item> \<open>Stralloc\<close> (\<^verbatim>\<open>libstralloc/stralloc.c\<close>): strings over a pool allocator with \<open>malloc\<close> behind it.
  \<^item> \<open>Utf8str\<close> (\<^verbatim>\<open>utf8str/utf8str.c\<close>): counting, copying and trimming.
  \<^item> \<open>Ctlog\<close> (\<^verbatim>\<open>ctlog/ctlog.h\<close>): the macros that send messages to the log, and their levels.
  \<^item> \<open>Ctapi_mysql\<close>, \<open>Ctapi_mc\<close>, \<open>Ctapi_curl\<close> (\<^verbatim>\<open>ctapi_mysql.c\<close>, \<^verbatim>\<open>ctapi_mc.c\<close>, \<^verbatim>\<open>ctapi_curl.c\<close>): reconnecting
    queries, one key of a server, and the buffers that collect a response.

  \<^bold>\<open>Theories of the servers.\<close>
  \<^item> \<open>Ctserver\<close> (\<^verbatim>\<open>samples/ctproxy/ctserver.c\<close>, \<open>fd_copy\<close> and \<open>fd_move\<close> of \<^verbatim>\<open>utils.c\<close>): settings, client table,
    creation of children and the event loop as the step relation \<open>server_step\<close>. \<open>Ctserver_start\<close>: options,
    pid file, daemon, listening sockets, and what the signal handlers do.
  \<^item> \<open>Ctutils\<close> (\<^verbatim>\<open>samples/ctproxy/utils.c\<close>): session ids and addresses as text, descriptor flags, signals.
  \<^item> \<open>Ctio\<close> (\<^verbatim>\<open>samples/ctproxy/ctio.c\<close>): the loops of reads and writes, over scripts of what the system calls
    answer; the locale \<open>writer\<close> states what a loop of writes promises. \<open>Ctchild\<close> (\<^verbatim>\<open>ctchild.c\<close>): the relay.
  \<^item> \<open>Epoll_io\<close>, \<open>Epoll_child\<close>, \<open>Epoll_server\<close> and \<open>Epoll_start\<close> (\<^verbatim>\<open>utils.c\<close>, \<^verbatim>\<open>child.c\<close> and \<^verbatim>\<open>server.c\<close> of
    \<^verbatim>\<open>samples/server_epoll\<close>; the same loops of \<^verbatim>\<open>samples/iorw_timeout.c\<close>): they build on \<open>Ctio\<close>, \<open>Ctchild\<close> and \<open>Ctserver\<close>, whose functions
    the variant repeats, and interpret \<open>writer\<close> again.
  \<^item> \<open>Echoman\<close>, \<open>Echo_start\<close> (\<^verbatim>\<open>samples/epoll_echoman.c\<close>): the event loop of an edge-triggered echo server, and
    its start.
  \<^item> \<open>Daemon\<close> (\<^verbatim>\<open>samples/daemon.c\<close>): instances that compete for a locked pid file, as a step relation.

  \<^bold>\<open>State and operations.\<close> A C structure is a record with the fields of the source, an operation is a
  definition with the name of the C function; loops are functions named after it (\<open>decode_loop\<close>,
  \<open>mread_loop\<close>). Operations that can meet undefined behaviour (accesses outside arrays, null or freed
  pointers, a modulus by zero) return an option, and theorems that claim success show the result
  is not \<open>None\<close>. The outcomes of \<open>malloc\<close>, of system calls and of \<open>writev\<close> are parameters. In \<open>Ctio\<close> and
  the theories on it the system's answers are a script that the code consumes call by call; a run that
  has used up its script is still waiting, which is a result of its own. The client libraries of MySQL,
  memcached, HTTP and OpenSSL are not part of the repository: their functions are arguments of the
  definitions, and what a theorem needs of them is a hypothesis of it.

  \<^bold>\<open>What the lemmas show.\<close> Functional correctness against reference definitions (RFC 4648, CRC-32,
  UTF-8, hexadecimal text), refinement of the dictionary, of strings and of linked queues to maps and
  lists over whole histories of calls, round trips (encode and decode, dump and load, write and read, set and get),
  invariants of the hash table, of memory files, of strings, of a connection's handle, of both servers'
  tables and of the daemon's pid file by induction over operations or reachable states, the recovery of a full server, and that the
  relays pass bytes on in their order without loss. The theorems of kind error pin down where the code
  does not do what it means to: each states for all inputs of a class what happens.

  \<^bold>\<open>Bounds and termination.\<close> Loops that need not end are \<open>partial_function\<close>s over \<open>option\<close>; the decoder, the
  loaders, the table operations and the file operations are shown to return. Loops over system calls
  recurse on the script. Word arithmetic keeps its width in the hashes, in the 16-bit counter of the hash
  table and in the sizes of strings; other counters are unbounded, and the theories say up to which
  sizes that is exact.

  \<^bold>\<open>Not modelled.\<close> The \<^verbatim>\<open>sample.c\<close> files and the test programs inside \<open>#ifdef\<close> (they call the library once and
  print); the messages the components send to the log and the terminal; the effect of socket options;
  \<open>insque\<close> and \<open>remque\<close> of \<^verbatim>\<open>queue.h\<close>, which only a kernel build compiles; \<^verbatim>\<open>c/libct\<close>, the archives under \<^verbatim>\<open>c/package\<close>, the build system and the PHP examples. The copies of the
  dictionary and the parsers under \<^verbatim>\<open>samples\<close> are those of the library except for \<open>snprintf\<close> in
  \<open>iniparser_load\<close>, which is modelled.
\<close>

end
